(* ===== verification/KV_Prelude.thy ===== *)
theory KV_Prelude
  imports Main "HOL-Library.Word" "HOL-Library.Char_ord" "HOL-Library.List_Lexorder"
    "HOL-Library.Multiset"
begin

text \<open>
  What every component of the store shares: the Go types the sources use (strings,
  byte slices, fixed-width integers, instants and durations of package \<open>time\<close>), the
  big-endian codecs of \<open>encoding/binary\<close>, in-place writes into a byte buffer, and the
  generic lemmas on lists, words and maps that carry the component proofs.
\<close>

unbundle bit_operations_syntax

named_theorems go_defs \<open>definitions of the Go library primitives\<close>
named_theorems codec_simps \<open>lengths and round trips of the byte codecs\<close>

section \<open>Types\<close>

text \<open>
  A Go string is a sequence of bytes and is ordered bytewise; \<^typ>\<open>string\<close> is a list of
  8-bit characters whose order (\<open>Char_ord\<close>, \<open>List_Lexorder\<close>) is the same one.
\<close>

type_synonym byte = "8 word"
type_synonym bytes = "8 word list"
type_synonym uint16 = "16 word"
type_synonym uint32 = "32 word"
type_synonym uint64 = "64 word"

text \<open>
  An instant is the number of nanoseconds since the Unix epoch; a duration is a
  nanosecond count that fits \<open>int64\<close>. The zero \<open>time.Time\<close> is January 1 of year 1.
\<close>

type_synonym gotime = int
type_synonym duration = int

definition wrap64 :: "int \<Rightarrow> int" where
  "wrap64 = signed_take_bit 63"

definition zero_time :: gotime where
  "zero_time = - 62135596800000000000"

definition IsZero :: "gotime \<Rightarrow> bool" where
  "IsZero t \<longleftrightarrow> t = zero_time"

definition After :: "gotime \<Rightarrow> gotime \<Rightarrow> bool" where
  "After t u \<longleftrightarrow> u < t"

definition UnixNano :: "gotime \<Rightarrow> int" where
  "UnixNano t = wrap64 t"

definition time_Unix0 :: "int \<Rightarrow> gotime" where
  "time_Unix0 n = n"

definition time_Add :: "gotime \<Rightarrow> duration \<Rightarrow> gotime" where
  "time_Add t d = t + d"

text \<open>\<open>Time.Sub\<close> saturates at the bounds of \<open>int64\<close>.\<close>

definition time_Sub :: "gotime \<Rightarrow> gotime \<Rightarrow> duration" where
  "time_Sub t u = max (- (2 ^ 63)) (min (2 ^ 63 - 1) (t - u))"

section \<open>Strings and bytes\<close>

definition bytes_of :: "string \<Rightarrow> bytes" where
  "bytes_of = map of_char"

definition string_of :: "bytes \<Rightarrow> string" where
  "string_of = map (\<lambda>w. char_of (unat w))"

section \<open>Big-endian codecs\<close>

definition PutUint16 :: "uint16 \<Rightarrow> bytes" where
  "PutUint16 v = [ucast (drop_bit 8 v), ucast v]"

definition PutUint32 :: "uint32 \<Rightarrow> bytes" where
  "PutUint32 v = [ucast (drop_bit 24 v), ucast (drop_bit 16 v), ucast (drop_bit 8 v), ucast v]"

definition PutUint64 :: "uint64 \<Rightarrow> bytes" where
  "PutUint64 v = [ucast (drop_bit 56 v), ucast (drop_bit 48 v), ucast (drop_bit 40 v),
     ucast (drop_bit 32 v), ucast (drop_bit 24 v), ucast (drop_bit 16 v),
     ucast (drop_bit 8 v), ucast v]"

definition be_fold :: "bytes \<Rightarrow> 'a::len word" where
  "be_fold bs = fold (\<lambda>b acc. push_bit 8 acc OR ucast b) bs 0"

abbreviation Uint16 :: "bytes \<Rightarrow> uint16" where "Uint16 \<equiv> be_fold"
abbreviation Uint32 :: "bytes \<Rightarrow> uint32" where "Uint32 \<equiv> be_fold"
abbreviation Uint64 :: "bytes \<Rightarrow> uint64" where "Uint64 \<equiv> be_fold"

text \<open>\<open>copy(buf[off:off+len(bs)], bs)\<close>: a write into a buffer that keeps its length.\<close>

definition put_at :: "nat \<Rightarrow> 'a list \<Rightarrow> 'a list \<Rightarrow> 'a list" where
  "put_at off bs buf = take off buf @ bs @ drop (off + length bs) buf"

text \<open>The slice \<open>bs[lo:hi]\<close>.\<close>

definition subslice :: "nat \<Rightarrow> nat \<Rightarrow> 'a list \<Rightarrow> 'a list" where
  "subslice lo hi bs = take (hi - lo) (drop lo bs)"

lemmas [go_defs] = IsZero_def After_def UnixNano_def time_Unix0_def time_Add_def time_Sub_def

section \<open>Lemmas\<close>

lemma length_bytes_of [simp, codec_simps]: "length (bytes_of s) = length s"
  by (simp add: bytes_of_def)

lemma unat_of_char [simp]: "unat (of_char c :: byte) = of_char c"
proof -
  have "(of_char c :: byte) = of_nat (of_char c)" by (simp add: of_nat_of_char)
  then show ?thesis by (simp add: unsigned_of_nat take_bit_nat_eq_self)
qed

lemma string_of_bytes_of [simp, codec_simps]: "string_of (bytes_of s) = s"
  by (induction s) (simp_all add: string_of_def bytes_of_def)

lemma bytes_of_string_of [simp, codec_simps]: "bytes_of (string_of bs) = bs"
proof -
  have "(of_char (char_of (unat w)) :: byte) = w" for w :: byte
  proof -
    have "(of_char (char_of (unat w) :: char) :: nat) = unat w"
      using unsigned_less [of w, where ?'a = nat] by (simp add: of_char_of)
    then show ?thesis by (metis unat_of_char word_unat_eq_iff)
  qed
  then show ?thesis by (simp add: bytes_of_def string_of_def o_def)
qed

lemma length_Put [simp, codec_simps]:
  "length (PutUint16 a) = 2" "length (PutUint32 b) = 4" "length (PutUint64 c) = 8"
  by (simp_all add: PutUint16_def PutUint32_def PutUint64_def)

text \<open>Reading one more byte moves the window of bits already read by eight.\<close>

lemma be_step:
  fixes v :: "'a::len word"
  shows "push_bit 8 (drop_bit (8 + n) v) OR ucast (ucast (drop_bit n v) :: byte) = drop_bit n v"
proof (rule bit_word_eqI)
  fix i
  assume "i < LENGTH('a)"
  then show "bit (push_bit 8 (drop_bit (8 + n) v) OR ucast (ucast (drop_bit n v) :: byte)) i =
      bit (drop_bit n v) i"
    by (cases "8 \<le> i") (auto simp: bit_simps ac_simps not_le dest: le_Suc_ex)
qed

lemma Uint16_PutUint16 [simp, codec_simps]: "Uint16 (PutUint16 v) = v"
proof -
  have "drop_bit 16 v = 0" by (rule bit_word_eqI) (auto simp: bit_simps dest: bit_imp_le_length)
  then show ?thesis
    using be_step [of 8 v] be_step [of 0 v] by (simp add: be_fold_def PutUint16_def)
qed

lemma Uint32_PutUint32 [simp, codec_simps]: "Uint32 (PutUint32 v) = v"
proof -
  have "drop_bit 32 v = 0" by (rule bit_word_eqI) (auto simp: bit_simps dest: bit_imp_le_length)
  then show ?thesis
    using be_step [of 24 v] be_step [of 16 v] be_step [of 8 v] be_step [of 0 v]
    by (simp add: be_fold_def PutUint32_def)
qed

lemma Uint64_PutUint64 [simp, codec_simps]: "Uint64 (PutUint64 v) = v"
proof -
  have "drop_bit 64 v = 0" by (rule bit_word_eqI) (auto simp: bit_simps dest: bit_imp_le_length)
  then show ?thesis
    using be_step [of 56 v] be_step [of 48 v] be_step [of 40 v] be_step [of 32 v]
      be_step [of 24 v] be_step [of 16 v] be_step [of 8 v] be_step [of 0 v]
    by (simp add: be_fold_def PutUint64_def)
qed

lemma length_put_at [simp]:
  "off + length bs \<le> length buf \<Longrightarrow> length (put_at off bs buf) = length buf"
  by (simp add: put_at_def)

lemma wrap64_id: "- (2 ^ 63) \<le> n \<Longrightarrow> n < 2 ^ 63 \<Longrightarrow> wrap64 n = n"
  by (simp add: wrap64_def signed_take_bit_int_eq_self)

lemma wrap64_range: "- (2 ^ 63) \<le> wrap64 n" "wrap64 n < 2 ^ 63"
  using signed_take_bit_int_greater_eq_minus_exp [of 63 n] signed_take_bit_int_less_exp [of 63 n]
  by (simp_all add: wrap64_def)

lemma wrap64_add_left [simp]: "wrap64 (wrap64 a + b) = wrap64 (a + b)"
  using signed_take_bit_add [of 63 "signed_take_bit 63 a" b] signed_take_bit_add [of 63 a b]
  by (simp add: wrap64_def)

lemma wrap64_add_right [simp]: "wrap64 (a + wrap64 b) = wrap64 (a + b)"
  using wrap64_add_left [of b a] by (simp add: add.commute)

lemma wrap64_sub_left [simp]: "wrap64 (wrap64 a - b) = wrap64 (a - b)"
  using wrap64_add_left [of a "- b"] by simp

lemma word_less_Suc: "v \<noteq> - 1 \<Longrightarrow> v < v + 1" for v :: "'a::len word"
proof -
  assume "v \<noteq> - 1"
  then have "1 + v \<noteq> 0" by (metis add_eq_0_iff)
  then have "unat (1 + v) = Suc (unat v)" by (rule unatSuc)
  then show ?thesis by (simp add: word_less_nat_alt add.commute)
qed

lemma xor_cancel_left: "a XOR b = a XOR c \<Longrightarrow> b = c" for a b c :: "'a::len word"
proof -
  assume "a XOR b = a XOR c"
  then have "a XOR (a XOR b) = a XOR (a XOR c)" by simp
  then show "b = c" by (simp flip: xor.assoc)
qed

lemma xor_cancel_right: "b XOR a = c XOR a \<Longrightarrow> b = c" for a b c :: "'a::len word"
  using xor_cancel_left [of a b c] by (simp add: xor.commute)

lemma sint_word_of_int64: "sint (word_of_int n :: uint64) = wrap64 n"
  by (simp add: wrap64_def signed_of_int)

end
