(* ===== verification/KV_Hash.thy ===== *)
theory KV_Hash
  imports KV_Prelude
begin

text \<open>
  The two hash functions of the Go library the store calls: FNV-1a (\<open>hash/fnv\<close>), which
  picks a key's shard, and CRC-32 with the IEEE polynomial (\<open>hash/crc32\<close>), which guards
  every record on disk. The interface \<open>byte_checksum\<close> states what a log needs of a
  checksum that consumes one byte at a time, and is interpreted on CRC-32.
\<close>

section \<open>FNV-1a\<close>

definition fnv32a :: "bytes \<Rightarrow> uint32" where
  "fnv32a bs = fold (\<lambda>b h. (h XOR ucast b) * 16777619) bs 2166136261"

section \<open>CRC-32\<close>

definition crc_bit :: "uint32 \<Rightarrow> uint32" where
  "crc_bit s = (if bit s 0 then drop_bit 1 s XOR 0xEDB88320 else drop_bit 1 s)"

definition crc_byte :: "byte \<Rightarrow> uint32 \<Rightarrow> uint32" where
  "crc_byte b s = (crc_bit ^^ 8) (s XOR ucast b)"

definition ChecksumIEEE :: "bytes \<Rightarrow> uint32" where
  "ChecksumIEEE bs = NOT (fold crc_byte bs (NOT 0))"

section \<open>What a log needs of its checksum\<close>

text \<open>
  A running checksum with a state \<open>'s\<close>: each byte is absorbed injectively, both in the
  state and in the byte, and the final value is an injective function of the state.
\<close>

locale byte_checksum =
  fixes absorb :: "'b \<Rightarrow> 's \<Rightarrow> 's"
    and init :: 's
    and final :: "'s \<Rightarrow> 'c"
  assumes absorb_state: "absorb b s = absorb b t \<Longrightarrow> s = t"
    and absorb_byte: "absorb b s = absorb c s \<Longrightarrow> b = c"
    and final_inj: "final s = final t \<Longrightarrow> s = t"
begin

lemma fold_absorb_inj: "fold absorb bs s = fold absorb bs t \<Longrightarrow> s = t"
  by (induction bs arbitrary: s t) (auto dest: absorb_state)

text \<open>Changing one byte changes the checksum, whatever comes before and after it.\<close>

lemma single_byte_detected:
  assumes "b \<noteq> c"
  shows "final (fold absorb (xs @ b # ys) init) \<noteq> final (fold absorb (xs @ c # ys) init)"
proof
  assume "final (fold absorb (xs @ b # ys) init) = final (fold absorb (xs @ c # ys) init)"
  then have "fold absorb ys (absorb b (fold absorb xs init)) =
      fold absorb ys (absorb c (fold absorb xs init))"
    using final_inj by fastforce
  then have "absorb b (fold absorb xs init) = absorb c (fold absorb xs init)"
    by (rule fold_absorb_inj)
  with absorb_byte assms show False by blast
qed

end

text \<open>One step of the shift register is injective: bit 31 of the result tells the branch.\<close>

lemma bit_poly_31: "bit (0xEDB88320 :: uint32) 31"
  by simp

lemma crc_bit_31: "bit (crc_bit s) 31 \<longleftrightarrow> bit s 0"
proof -
  have "\<not> bit s 32" by (auto dest: bit_imp_le_length)
  then show ?thesis using bit_poly_31 by (auto simp: crc_bit_def bit_simps)
qed

lemma crc_bit_inj: "crc_bit s = crc_bit t \<Longrightarrow> s = t"
proof -
  assume eq: "crc_bit s = crc_bit t"
  then have low: "bit s 0 = bit t 0" by (metis crc_bit_31)
  have high: "drop_bit 1 s = drop_bit 1 t"
    using eq low by (auto simp: crc_bit_def dest: xor_cancel_right split: if_splits)
  show "s = t"
  proof (rule bit_word_eqI)
    fix n
    show "bit s n = bit t n"
      using low arg_cong [OF high, of "\<lambda>w. bit w (n - 1)"] by (cases n) (auto simp: bit_simps)
  qed
qed

lemma crc_bits_inj: "(crc_bit ^^ n) s = (crc_bit ^^ n) t \<Longrightarrow> s = t"
  by (induction n) (auto dest: crc_bit_inj)

lemma crc_byte_state_inj: "crc_byte b s = crc_byte b t \<Longrightarrow> s = t"
  unfolding crc_byte_def by (drule crc_bits_inj) (rule xor_cancel_right)

lemma crc_byte_byte_inj: "crc_byte b s = crc_byte c s \<Longrightarrow> b = c"
proof -
  assume "crc_byte b s = crc_byte c s"
  then have "s XOR ucast b = s XOR ucast c" unfolding crc_byte_def by (rule crc_bits_inj)
  then have "(ucast b :: uint32) = ucast c" by (rule xor_cancel_left)
  moreover have "uint (ucast x :: uint32) = uint x" for x :: byte
    by (rule uint_up_ucast) (simp add: is_up)
  ultimately show "b = c" by (metis word_uint_eq_iff)
qed

interpretation crc32: byte_checksum crc_byte "NOT 0" "NOT :: uint32 \<Rightarrow> uint32"
  by unfold_locales (auto dest: crc_byte_state_inj crc_byte_byte_inj)

lemma ChecksumIEEE_single_byte:
  "b \<noteq> c \<Longrightarrow> ChecksumIEEE (xs @ b # ys) \<noteq> ChecksumIEEE (xs @ c # ys)"
  unfolding ChecksumIEEE_def by (rule crc32.single_byte_detected)

lemma fnv32a_check_value: "fnv32a (bytes_of ''a'') = 0xE40C292C"
  by (simp add: fnv32a_def bytes_of_def)

lemma crc_byte_unfold:
  "crc_byte b s = crc_bit (crc_bit (crc_bit (crc_bit (crc_bit (crc_bit (crc_bit (crc_bit
     (s XOR ucast b))))))))"
  by (simp add: crc_byte_def eval_nat_numeral)

lemma ChecksumIEEE_check_value: "ChecksumIEEE (bytes_of ''123456789'') = 0xCBF43926"
  by (simp add: ChecksumIEEE_def bytes_of_def crc_byte_unfold crc_bit_def)

end
