(* ===== verification/KV_Wal.thy ===== *)
theory KV_Wal
  imports KV_Hash
begin

text \<open>
  The write-ahead log of \<open>internal/store/wal.go\<close>: the record format, \<open>NewWAL\<close>,
  \<open>Append\<close>, \<open>Replay\<close>, \<open>Close\<close>, \<open>Size\<close> and \<open>Path\<close>. The file is a byte list opened in
  append mode. What the operating system may do to a call (a write that stops after some
  bytes, a failed sync or seek, an unreadable region of the file) is an argument of the
  operation, so that every error return of the source is a branch of the model.
\<close>

section \<open>Types\<close>

datatype go_error =
    KeyTooLong nat
  | WalOpenFailed | WalStatFailed | WalWriteFailed | WalSyncFailed | WalCloseFailed
  | WalSeekStartFailed | WalSeekEndFailed | ReadHeaderFailed | ReadPayloadFailed
  | ErrChecksumMismatch | ErrCorruptRecord
  | ApplyFailed go_error
  | WalAppendFailed go_error
  | SnapshotWithoutWal | SnapOpenFailed | SnapWriteHeaderFailed | SnapWriteRecordFailed
  | SnapSyncFailed | SnapCloseFailed | SnapRenameFailed | SnapTruncateFailed | SnapSeekFailed
  | SnapReadHeaderFailed | SnapBadMagic | SnapBadVersion uint16

definition RecordTypeSet :: byte where
  "RecordTypeSet = 1"

definition RecordTypeDelete :: byte where
  "RecordTypeDelete = 2"

text \<open>\<open>path\<close> is kept as the pair of directory and file name that \<open>filepath.Join\<close> joins.\<close>

record WAL =
  wal_file :: bytes
  wal_open :: bool
  wal_path :: "string \<times> string"
  wal_size :: int

text \<open>The arguments of the replay callback.\<close>

record wal_rec =
  rec_type :: byte
  rec_key :: string
  rec_value :: bytes
  rec_version :: uint64
  rec_expires :: gotime

text \<open>
  What the file system does to one \<open>Append\<close>: \<open>aio_torn = Some n\<close> means the write failed
  after \<open>n\<close> bytes reached the file.
\<close>

record append_io =
  aio_torn :: "nat option"
  aio_sync :: bool

definition io_ok :: append_io where
  "io_ok = \<lparr>aio_torn = None, aio_sync = True\<rparr>"

text \<open>What it does to a replay; bytes from offset \<open>rio_fault\<close> on cannot be read.\<close>

record replay_io =
  rio_seek_start :: bool
  rio_fault :: "nat option"
  rio_seek_end :: bool

definition rio_ok :: replay_io where
  "rio_ok = \<lparr>rio_seek_start = True, rio_fault = None, rio_seek_end = True\<rparr>"

section \<open>Opening and appending\<close>

definition NewWAL ::
  "bool \<Rightarrow> bool \<Rightarrow> bytes option \<Rightarrow> string \<Rightarrow> string \<Rightarrow> go_error + WAL" where
  "NewWAL open_ok stat_ok content dataDir filename =
     (if \<not> open_ok then Inl WalOpenFailed
      else if \<not> stat_ok then Inl WalStatFailed
      else (let bs = (case content of None \<Rightarrow> [] | Some bs \<Rightarrow> bs)
            in Inr \<lparr>wal_file = bs, wal_open = True, wal_path = (dataDir, filename),
                     wal_size = int (length bs)\<rparr>))"

text \<open>The record buffer, written field by field as the code does; \<open>payload\<close> aliases \<open>buf[8:]\<close>.\<close>

definition record_buf :: "byte \<Rightarrow> string \<Rightarrow> bytes \<Rightarrow> uint64 \<Rightarrow> gotime \<Rightarrow> bytes" where
  "record_buf recType key value version expiresAt =
     (let keyBytes = bytes_of key;
          keyLen = length keyBytes;
          valLen = length value;
          payloadSize = 1 + 8 + 8 + 2 + keyLen + valLen;
          recordSize = 4 + 4 + payloadSize;
          buf = replicate recordSize 0;
          buf = put_at 0 (PutUint32 (of_nat payloadSize)) buf;
          buf = put_at 8 [recType] buf;
          buf = put_at (8 + 1) (PutUint64 version) buf;
          expNano = (if \<not> IsZero expiresAt then UnixNano expiresAt else 0);
          buf = put_at (8 + 9) (PutUint64 (word_of_int expNano)) buf;
          buf = put_at (8 + 17) (PutUint16 (of_nat keyLen)) buf;
          buf = put_at (8 + 19) keyBytes buf;
          buf = (if valLen > 0 then put_at (8 + 19 + keyLen) value buf else buf);
          checksum = ChecksumIEEE (drop 8 buf)
      in put_at 4 (PutUint32 checksum) buf)"

definition Append ::
  "append_io \<Rightarrow> byte \<Rightarrow> string \<Rightarrow> bytes \<Rightarrow> uint64 \<Rightarrow> gotime \<Rightarrow> WAL \<Rightarrow> go_error option \<times> WAL" where
  "Append io recType key value version expiresAt w =
     (let keyLen = length (bytes_of key) in
      if keyLen > 65535 then (Some (KeyTooLong keyLen), w)
      else if \<not> wal_open w then (Some WalWriteFailed, w)
      else
        (let buf = record_buf recType key value version expiresAt in
         case aio_torn io of
           Some n \<Rightarrow> (Some WalWriteFailed, w\<lparr>wal_file := wal_file w @ take n buf\<rparr>)
         | None \<Rightarrow>
             (let w' = w\<lparr>wal_file := wal_file w @ buf,
                         wal_size := wrap64 (wal_size w + int (length buf))\<rparr>
              in if aio_sync io then (None, w') else (Some WalSyncFailed, w'))))"

section \<open>Reading records\<close>

datatype read_result = ReadOk bytes | ReadEOF | ReadUnexpectedEOF | ReadErr

text \<open>\<open>io.ReadFull\<close> of \<open>n\<close> bytes at offset \<open>pos\<close>.\<close>

definition ReadFull :: "nat option \<Rightarrow> bytes \<Rightarrow> nat \<Rightarrow> nat \<Rightarrow> read_result" where
  "ReadFull fault file pos n =
     (if n = 0 then ReadOk []
      else if (case fault of None \<Rightarrow> False | Some f \<Rightarrow> f < min (pos + n) (length file)) then ReadErr
      else if pos + n \<le> length file then ReadOk (subslice pos (pos + n) file)
      else if length file \<le> pos then ReadEOF
      else ReadUnexpectedEOF)"

definition parse_payload :: "bytes \<Rightarrow> go_error + wal_rec" where
  "parse_payload payload =
     (if length payload < 19 then Inl ErrCorruptRecord
      else
        (let recType = payload ! 0;
             version = Uint64 (subslice 1 9 payload);
             expNano = sint (Uint64 (subslice 9 17 payload));
             keyLen = unat (Uint16 (subslice 17 19 payload))
         in if length payload < 19 + keyLen then Inl ErrCorruptRecord
            else
              (let key = string_of (subslice 19 (19 + keyLen) payload);
                   val = (if length payload > 19 + keyLen then drop (19 + keyLen) payload else []);
                   expiresAt = (if expNano > 0 then time_Unix0 expNano else zero_time)
               in Inr \<lparr>rec_type = recType, rec_key = key, rec_value = val,
                       rec_version = version, rec_expires = expiresAt\<rparr>)))"

text \<open>One turn of the reading loop: end of log, an error, or a record and the next offset.\<close>

datatype rec_read = RecEnd | RecFail go_error | RecOk wal_rec nat

definition read_record :: "nat option \<Rightarrow> bytes \<Rightarrow> nat \<Rightarrow> rec_read" where
  "read_record fault file pos =
     (case ReadFull fault file pos 8 of
        ReadEOF \<Rightarrow> RecEnd
      | ReadUnexpectedEOF \<Rightarrow> RecEnd
      | ReadErr \<Rightarrow> RecFail ReadHeaderFailed
      | ReadOk headerBuf \<Rightarrow>
          (let payloadSize = unat (Uint32 (subslice 0 4 headerBuf));
               expectedCrc = Uint32 (subslice 4 8 headerBuf)
           in case ReadFull fault file (pos + 8) payloadSize of
                ReadOk payload \<Rightarrow>
                  (if ChecksumIEEE payload \<noteq> expectedCrc then RecFail ErrChecksumMismatch
                   else (case parse_payload payload of
                           Inl e \<Rightarrow> RecFail e
                         | Inr r \<Rightarrow> RecOk r (pos + 8 + payloadSize)))
              | _ \<Rightarrow> RecFail ReadPayloadFailed))"

lemma ReadFull_Ok_bound:
  "ReadFull fault file pos n = ReadOk bs \<Longrightarrow> n = 0 \<or> pos + n \<le> length file"
  by (auto simp: ReadFull_def split: if_splits)

lemma read_record_progress: "read_record fault file pos = RecOk r pos' \<Longrightarrow> pos < pos' \<and> pos < length file"
  by (auto simp: read_record_def Let_def split: read_result.splits if_splits sum.splits
      dest: ReadFull_Ok_bound)

function replay_loop :: "nat option \<Rightarrow> bytes \<Rightarrow> (wal_rec \<Rightarrow> 's \<Rightarrow> go_error option \<times> 's) \<Rightarrow>
  nat \<Rightarrow> 's \<Rightarrow> go_error option \<times> 's" where
  "replay_loop fault file applyFunc pos s =
     (case read_record fault file pos of
        RecEnd \<Rightarrow> (None, s)
      | RecFail e \<Rightarrow> (Some e, s)
      | RecOk r pos' \<Rightarrow>
          (case applyFunc r s of
             (Some e, s') \<Rightarrow> (Some (ApplyFailed e), s')
           | (None, s') \<Rightarrow> replay_loop fault file applyFunc pos' s'))"
  by pat_completeness auto
termination
  by (relation "measure (\<lambda>(fault, file, applyFunc, pos, s). length file - pos)")
    (auto dest!: read_record_progress)

declare replay_loop.simps [simp del]

definition Replay :: "replay_io \<Rightarrow> (wal_rec \<Rightarrow> 's \<Rightarrow> go_error option \<times> 's) \<Rightarrow> WAL \<Rightarrow> 's \<Rightarrow>
  go_error option \<times> 's" where
  "Replay io applyFunc w s =
     (if \<not> wal_open w \<or> \<not> rio_seek_start io then (Some WalSeekStartFailed, s)
      else (case replay_loop (rio_fault io) (wal_file w) applyFunc 0 s of
              (Some e, s') \<Rightarrow> (Some e, s')
            | (None, s') \<Rightarrow>
                (if rio_seek_end io then (None, s') else (Some WalSeekEndFailed, s'))))"

definition wal_Close :: "WAL \<Rightarrow> go_error option \<times> WAL" where
  "wal_Close w = (if wal_open w then (None, w\<lparr>wal_open := False\<rparr>) else (Some WalCloseFailed, w))"

definition wal_Size :: "WAL \<Rightarrow> int" where
  "wal_Size w = wal_size w"

definition wal_Path :: "WAL \<Rightarrow> string \<times> string" where
  "wal_Path w = wal_path w"

section \<open>The record format\<close>

text \<open>The layout the comment of \<open>Append\<close> announces: type, version, expiry, key length, key, value.\<close>

definition expiry_nanos :: "gotime \<Rightarrow> int" where
  "expiry_nanos t = (if \<not> IsZero t then UnixNano t else 0)"

definition payload_layout :: "wal_rec \<Rightarrow> bytes" where
  "payload_layout r = [rec_type r] @ PutUint64 (rec_version r) @
     PutUint64 (word_of_int (expiry_nanos (rec_expires r))) @
     PutUint16 (of_nat (length (rec_key r))) @ bytes_of (rec_key r) @ rec_value r"

definition frame :: "bytes \<Rightarrow> bytes" where
  "frame payload = PutUint32 (of_nat (length payload)) @ PutUint32 (ChecksumIEEE payload) @ payload"

definition encode :: "wal_rec \<Rightarrow> bytes" where
  "encode r = record_buf (rec_type r) (rec_key r) (rec_value r) (rec_version r) (rec_expires r)"

lemma length_payload_layout: "length (payload_layout r) = 19 + length (rec_key r) + length (rec_value r)"
  by (simp add: payload_layout_def)

text \<open>Writing consecutive chunks into a zeroed region fills it with their concatenation.\<close>

fun put_all :: "nat \<Rightarrow> 'a list list \<Rightarrow> 'a list \<Rightarrow> 'a list" where
  "put_all off [] buf = buf"
| "put_all off (c # cs) buf = put_all (off + length c) cs (put_at off c buf)"

lemma put_all_fill:
  "off = length pre \<Longrightarrow> n = length (concat cs) \<Longrightarrow> put_all off cs (pre @ replicate n z) = pre @ concat cs"
proof (induction cs arbitrary: off pre n)
  case (Cons c cs)
  have "put_at (length pre) c (pre @ replicate n z) = (pre @ c) @ replicate (length (concat cs)) z"
    using Cons.prems(2) by (simp add: put_at_def)
  with Cons.IH [of "length (pre @ c)" "pre @ c"] Cons.prems show ?case by simp
qed simp

lemma encode_layout: "encode r = frame (payload_layout r)"
proof -
  obtain t k v ver e where r: "r = \<lparr>rec_type = t, rec_key = k, rec_value = v, rec_version = ver, rec_expires = e\<rparr>"
    by (cases r)
  let ?n = "19 + length k + length v"
  let ?size = "PutUint32 (of_nat ?n)" and ?p = "payload_layout r"
  let ?chunks = "[[t], PutUint64 ver, PutUint64 (word_of_int (expiry_nanos e)), PutUint16 (of_nat (length k)), bytes_of k]"
  have "put_at 0 ?size (replicate (8 + ?n) 0) = (?size @ replicate 4 0) @ replicate ?n 0"
    by (simp add: put_at_def flip: replicate_add)
  moreover have "put_all 8 (?chunks @ [v]) ((?size @ replicate 4 0) @ replicate ?n 0) = (?size @ replicate 4 0) @ ?p"
    using put_all_fill [of 8 "?size @ replicate 4 0" ?n "?chunks @ [v]" 0] by (simp add: payload_layout_def r)
  moreover define buf where "buf = put_all 8 ?chunks (put_at 0 ?size (replicate (8 + ?n) 0))"
  ultimately have body: "put_at (27 + length k) v buf = ?size @ replicate 4 0 @ ?p"
    by (simp add: add.commute add.left_commute)
  have "(if length v > 0 then put_at (27 + length k) v buf else buf) = put_at (27 + length k) v buf"
    by (simp add: put_at_def)
  note whole = this [unfolded body]
  have "encode r = (let buf = (if length v > 0 then put_at (27 + length k) v buf else buf)
      in put_at 4 (PutUint32 (ChecksumIEEE (drop 8 buf))) buf)"
    by (simp add: encode_def record_buf_def Let_def r expiry_nanos_def buf_def)
  then have "encode r = put_at 4 (PutUint32 (ChecksumIEEE (drop 8 (?size @ replicate 4 0 @ ?p)))) (?size @ replicate 4 0 @ ?p)"
    unfolding Let_def body whole by (simp only: whole [unfolded body])
  then show ?thesis by (simp add: put_at_def frame_def length_payload_layout r)
qed

lemma length_frame [simp]: "length (frame p) = 8 + length p"
  by (simp add: frame_def)

text \<open>
  The records the format can carry: a key of at most 65535 bytes, a payload whose size
  fits the 32-bit length field, and an expiry that is absent or a positive \<open>int64\<close> count.
\<close>

definition exp_ok :: "gotime \<Rightarrow> bool" where
  "exp_ok t \<longleftrightarrow> IsZero t \<or> (0 < t \<and> t < 2 ^ 63)"

definition rec_ok :: "wal_rec \<Rightarrow> bool" where
  "rec_ok r \<longleftrightarrow> length (rec_key r) \<le> 65535 \<and>
     19 + length (rec_key r) + length (rec_value r) < 2 ^ 32 \<and> exp_ok (rec_expires r)"

lemma subslice_append [simp]:
  "subslice (length xs) (length xs + n) (xs @ ys) = take n ys"
  by (simp add: subslice_def)

lemma expiry_roundtrip:
  "exp_ok t \<Longrightarrow> (if 0 < wrap64 (expiry_nanos t) then time_Unix0 (wrap64 (expiry_nanos t)) else zero_time) = t"
  by (auto simp: exp_ok_def expiry_nanos_def go_defs wrap64_id zero_time_def)

lemma parse_payload_layout:
  assumes "rec_ok r"
  shows "parse_payload (payload_layout r) = Inr r"
proof -
  let ?p = "payload_layout r"
  have key: "unat (of_nat (length (rec_key r)) :: uint16) = length (rec_key r)"
    using assms by (simp add: rec_ok_def unsigned_of_nat take_bit_nat_eq_self)
  have f: "?p ! 0 = rec_type r" "subslice 1 9 ?p = PutUint64 (rec_version r)"
    "subslice 9 17 ?p = PutUint64 (word_of_int (expiry_nanos (rec_expires r)))"
    "subslice 17 19 ?p = PutUint16 (of_nat (length (rec_key r)))"
    "subslice 19 (19 + length (rec_key r)) ?p = bytes_of (rec_key r)"
    by (simp_all add: payload_layout_def subslice_def)
  have v: "drop (19 + length (rec_key r)) ?p = rec_value r"
    by (simp add: payload_layout_def numeral_eq_Suc)
  have val: "(if length ?p > 19 + length (rec_key r) then rec_value r else []) = rec_value r"
    by (simp add: length_payload_layout)
  have exp: "(if 0 < wrap64 (expiry_nanos (rec_expires r))
      then time_Unix0 (wrap64 (expiry_nanos (rec_expires r))) else zero_time) = rec_expires r"
    using assms by (intro expiry_roundtrip) (simp add: rec_ok_def)
  have "parse_payload ?p = Inr \<lparr>rec_type = rec_type r, rec_key = rec_key r, rec_value = rec_value r,
      rec_version = rec_version r, rec_expires = rec_expires r\<rparr>"
    unfolding parse_payload_def Let_def f Uint64_PutUint64 Uint16_PutUint16 key f v val
      sint_word_of_int64 exp string_of_bytes_of
    by (simp add: length_payload_layout)
  then show ?thesis by simp
qed

section \<open>Reading what was written\<close>

lemma ReadFull_append:
  "ReadFull None (xs @ ys) (length xs) n =
     (if n \<le> length ys then ReadOk (take n ys) else if ys = [] then ReadEOF else ReadUnexpectedEOF)"
  by (auto simp: ReadFull_def)

lemma read_record_header:
  "read_record None (xs @ PutUint32 n @ PutUint32 c @ body) (length xs) =
     (if unat n \<le> length body then
        (if ChecksumIEEE (take (unat n) body) \<noteq> c then RecFail ErrChecksumMismatch
         else (case parse_payload (take (unat n) body) of
                 Inl e \<Rightarrow> RecFail e | Inr r \<Rightarrow> RecOk r (length xs + 8 + unat n)))
      else RecFail ReadPayloadFailed)"
proof -
  have head: "ReadFull None (xs @ PutUint32 n @ PutUint32 c @ body) (length xs) 8 =
      ReadOk (PutUint32 n @ PutUint32 c)"
    by (simp add: ReadFull_append)
  have sl: "subslice 0 4 (PutUint32 n @ PutUint32 c) = PutUint32 n"
    "subslice 4 8 (PutUint32 n @ PutUint32 c) = PutUint32 c"
    by (simp_all add: subslice_def)
  have body: "ReadFull None (xs @ PutUint32 n @ PutUint32 c @ body) (length xs + 8) m =
      (if m \<le> length body then ReadOk (take m body)
       else if body = [] then ReadEOF else ReadUnexpectedEOF)" for m
    using ReadFull_append [of "xs @ PutUint32 n @ PutUint32 c" body m] by simp
  show ?thesis
    unfolding read_record_def head by (simp add: Let_def sl body)
qed

text \<open>Fewer than eight bytes left: the end of the log.\<close>

lemma read_record_short: "length t < 8 \<Longrightarrow> read_record None (xs @ t) (length xs) = RecEnd"
  by (simp add: read_record_def ReadFull_append)

lemma unat_frame_size: "length p < 2 ^ 32 \<Longrightarrow> unat (of_nat (length p) :: uint32) = length p"
  by (simp add: unsigned_of_nat take_bit_nat_eq_self)

lemma read_record_encode:
  assumes "rec_ok r"
  shows "read_record None (xs @ encode r @ ys) (length xs) = RecOk r (length xs + length (encode r))"
proof -
  have len: "unat (of_nat (length (payload_layout r)) :: uint32) = length (payload_layout r)"
    using assms by (intro unat_frame_size) (simp add: length_payload_layout rec_ok_def)
  show ?thesis
    using read_record_header [of xs "of_nat (length (payload_layout r))"
        "ChecksumIEEE (payload_layout r)" "payload_layout r @ ys"]
    by (simp add: encode_layout frame_def len parse_payload_layout [OF assms])
qed

text \<open>
  A corrupted payload with an intact header: the length matches, the checksum does not.
\<close>

lemma read_record_corrupt:
  assumes "length p = length (payload_layout r)" "rec_ok r"
    and "ChecksumIEEE p \<noteq> ChecksumIEEE (payload_layout r)"
  shows "read_record None (xs @ take 8 (encode r) @ p @ ys) (length xs) = RecFail ErrChecksumMismatch"
proof -
  have len: "unat (of_nat (length (payload_layout r)) :: uint32) = length (payload_layout r)"
    using assms by (intro unat_frame_size) (simp add: length_payload_layout rec_ok_def)
  show ?thesis
    using read_record_header [of xs "of_nat (length (payload_layout r))"
        "ChecksumIEEE (payload_layout r)" "p @ ys"] assms
    by (simp add: encode_layout frame_def len)
qed

text \<open>A record whose payload was not fully written.\<close>

lemma read_record_torn:
  assumes "rec_ok r" "8 \<le> m" "m < length (encode r)"
  shows "read_record None (xs @ take m (encode r)) (length xs) = RecFail ReadPayloadFailed"
proof -
  let ?p = "payload_layout r"
  have len: "unat (of_nat (length ?p) :: uint32) = length ?p"
    using assms by (intro unat_frame_size) (simp add: length_payload_layout rec_ok_def)
  have "take m (encode r) = PutUint32 (of_nat (length ?p)) @ PutUint32 (ChecksumIEEE ?p) @ take (m - 8) ?p"
    using assms(2) by (simp add: encode_layout frame_def)
  moreover have "\<not> length ?p \<le> length (take (m - 8) ?p)"
    using assms(2,3) by (simp add: encode_layout)
  ultimately show ?thesis
    using read_record_header [of xs "of_nat (length ?p)" "ChecksumIEEE ?p" "take (m - 8) ?p"]
    by (simp only: len if_False)
qed

section \<open>Logs of records\<close>

text \<open>Running a callback over a list of records, stopping at its first error.\<close>

fun run_records :: "('e \<Rightarrow> 'e) \<Rightarrow> ('r \<Rightarrow> 's \<Rightarrow> 'e option \<times> 's) \<Rightarrow> 'r list \<Rightarrow> 's \<Rightarrow> 'e option \<times> 's" where
  "run_records wrap step [] s = (None, s)"
| "run_records wrap step (r # rs) s =
     (case step r s of (Some e, s') \<Rightarrow> (Some (wrap e), s') | (None, s') \<Rightarrow> run_records wrap step rs s')"

text \<open>
  The contract between a log format and a reading loop: at the start of an encoded record
  the loop hands that record to the callback and moves past it, and a tail too short to be
  a record ends it. Both the WAL replay and the snapshot loader satisfy it.
\<close>

locale record_log =
  fixes enc :: "'r \<Rightarrow> 'b list"
    and ok :: "'r \<Rightarrow> bool"
    and short :: "'b list \<Rightarrow> bool"
    and wrap :: "'e \<Rightarrow> 'e"
    and step :: "'r \<Rightarrow> 's \<Rightarrow> 'e option \<times> 's"
    and loop :: "'b list \<Rightarrow> nat \<Rightarrow> 's \<Rightarrow> 'e option \<times> 's"
  assumes loop_record: "ok r \<Longrightarrow> loop (xs @ enc r @ ys) (length xs) s =
      (case step r s of
         (Some e, s') \<Rightarrow> (Some (wrap e), s')
       | (None, s') \<Rightarrow> loop (xs @ enc r @ ys) (length xs + length (enc r)) s')"
    and loop_short: "short t \<Longrightarrow> loop (xs @ t) (length xs) s = (None, s)"
begin

text \<open>The loop over intact records followed by anything.\<close>

lemma loop_prefix:
  assumes "list_all ok rs"
  shows "loop (xs @ concat (map enc rs) @ ys) (length xs) s =
    (case run_records wrap step rs s of
       (Some e, s') \<Rightarrow> (Some e, s')
     | (None, s') \<Rightarrow> loop ((xs @ concat (map enc rs)) @ ys) (length (xs @ concat (map enc rs))) s')"
  using assms
proof (induction rs arbitrary: xs s)
  case (Cons r rs)
  have "loop ((xs @ enc r) @ concat (map enc rs) @ ys) (length (xs @ enc r)) s' =
      (case run_records wrap step rs s' of
         (Some e, s'') \<Rightarrow> (Some e, s'')
       | (None, s'') \<Rightarrow> loop (((xs @ enc r) @ concat (map enc rs)) @ ys)
           (length ((xs @ enc r) @ concat (map enc rs))) s'')" for s'
    using Cons.prems by (intro Cons.IH) simp
  with Cons.prems show ?case
    using loop_record [of r xs "concat (map enc rs) @ ys" s] by (auto split: option.splits prod.splits)
qed simp

lemma loop_log:
  assumes "list_all ok rs" "short t"
  shows "loop (xs @ concat (map enc rs) @ t) (length xs) s = run_records wrap step rs s"
  using loop_prefix [OF assms(1), of xs t s] loop_short [OF assms(2), of "xs @ concat (map enc rs)"]
  by (auto split: option.splits prod.splits)

end

interpretation wal_log: record_log encode rec_ok "\<lambda>t. length t < 8" ApplyFailed applyFunc
    "\<lambda>file. replay_loop None file applyFunc" for applyFunc
proof
  fix r xs ys s
  assume "rec_ok r"
  then show "replay_loop None (xs @ encode r @ ys) applyFunc (length xs) s =
      (case applyFunc r s of
         (Some e, s') \<Rightarrow> (Some (ApplyFailed e), s')
       | (None, s') \<Rightarrow> replay_loop None (xs @ encode r @ ys) applyFunc (length xs + length (encode r)) s')"
    by (subst replay_loop.simps) (simp add: read_record_encode)
next
  fix t :: bytes and xs s
  assume "length t < 8"
  then show "replay_loop None (xs @ t) applyFunc (length xs) s = (None, s)"
    by (subst replay_loop.simps) (simp add: read_record_short)
qed

lemma Replay_rio_ok:
  "wal_open w \<Longrightarrow> Replay rio_ok f w s = replay_loop None (wal_file w) f 0 s"
  by (auto simp: Replay_def rio_ok_def split: prod.split option.split)

text \<open>A log that is intact up to a bad record: the intact part is applied, then the error returned.\<close>

lemma replay_until_bad:
  assumes "list_all rec_ok rs" "read_record None (concat (map encode rs) @ bad) (length (concat (map encode rs))) = RecFail e"
  shows "replay_loop None (concat (map encode rs) @ bad) f 0 s =
    (case run_records ApplyFailed f rs s of (Some e', s') \<Rightarrow> (Some e', s') | (None, s') \<Rightarrow> (Some e, s'))"
proof -
  have "replay_loop None (concat (map encode rs) @ bad) f (length (concat (map encode rs))) s' = (Some e, s')" for s'
    using assms(2) by (subst replay_loop.simps) simp
  then show ?thesis
    using wal_log.loop_prefix [OF assms(1), where xs = "[]" and ys = bad and applyFunc = f and s = s]
    by (auto split: option.splits prod.splits)
qed

section \<open>Logs written by successive appends\<close>

fun append_all :: "wal_rec list \<Rightarrow> WAL \<Rightarrow> WAL" where
  "append_all [] w = w"
| "append_all (r # rs) w = append_all rs
     (snd (Append io_ok (rec_type r) (rec_key r) (rec_value r) (rec_version r) (rec_expires r) w))"

lemma Append_io_ok:
  "wal_open w \<Longrightarrow> Append io_ok rt k v ver x w =
     (if length k > 65535 then (Some (KeyTooLong (length k)), w)
      else (None, w\<lparr>wal_file := wal_file w @ record_buf rt k v ver x,
                    wal_size := wrap64 (wal_size w + int (length (record_buf rt k v ver x)))\<rparr>))"
  by (simp add: Append_def io_ok_def Let_def)

lemma append_all_file:
  "wal_open w \<Longrightarrow> list_all rec_ok rs \<Longrightarrow>
     wal_open (append_all rs w) \<and> wal_file (append_all rs w) = wal_file w @ concat (map encode rs)"
  by (induction rs arbitrary: w) (auto simp: Append_io_ok rec_ok_def encode_def)

section \<open>Properties\<close>

lemma frame_record_buf:
  "record_buf t k v ver x = frame (payload_layout
     \<lparr>rec_type = t, rec_key = k, rec_value = v, rec_version = ver, rec_expires = x\<rparr>)"
  using encode_layout [of "\<lparr>rec_type = t, rec_key = k, rec_value = v, rec_version = ver, rec_expires = x\<rparr>"]
  by (simp add: encode_def)

text \<open>
  \<open>Append\<close> only ever adds to the file a prefix of the documented layout (length, checksum,
  type, version, expiry, key length, key, value), and it reports success exactly when the key
  fits, the file is open, and the whole record was written and synced.
\<close>

theorem Append_writes_layout:
  assumes "Append io t k v ver x w = (e, w')"
  shows "\<exists>n. wal_file w' = wal_file w @ take n (frame (payload_layout
      \<lparr>rec_type = t, rec_key = k, rec_value = v, rec_version = ver, rec_expires = x\<rparr>)) \<and>
    (e = None \<longleftrightarrow> length k \<le> 65535 \<and> wal_open w \<and> aio_torn io = None \<and> aio_sync io) \<and>
    (e = None \<longrightarrow> n = 27 + length k + length v)"
proof (cases "length k \<le> 65535 \<and> wal_open w")
  case False
  then show ?thesis using assms by (intro exI [of _ 0]) (auto simp: Append_def Let_def split: if_splits)
next
  case True
  show ?thesis
  proof (cases "aio_torn io")
    case None
    with True assms show ?thesis
      by (intro exI [of _ "27 + length k + length v"])
        (auto simp: Append_def Let_def frame_record_buf length_payload_layout split: if_splits)
  next
    case (Some n)
    with True assms show ?thesis
      by (intro exI [of _ n]) (auto simp: Append_def Let_def frame_record_buf)
  qed
qed

definition demo_wal :: WAL where
  "demo_wal = \<lparr>wal_file = [], wal_open = True, wal_path = (''d'', ''wal.log''), wal_size = 0\<rparr>"

definition demo_rec :: wal_rec where
  "demo_rec = \<lparr>rec_type = RecordTypeSet, rec_key = ''k'', rec_value = [7], rec_version = 5, rec_expires = zero_time\<rparr>"

theorem Append_writes_layout_witness:
  "\<exists>n. wal_file (snd (Append io_ok 1 ''k'' [7] 5 zero_time demo_wal)) = wal_file demo_wal @ take n (frame (payload_layout
      \<lparr>rec_type = 1, rec_key = ''k'', rec_value = [7], rec_version = 5, rec_expires = zero_time\<rparr>)) \<and> n = 29"
  using Append_writes_layout [of io_ok 1 "''k''" "[7]" 5 zero_time demo_wal
      "fst (Append io_ok 1 ''k'' [7] 5 zero_time demo_wal)" "snd (Append io_ok 1 ''k'' [7] 5 zero_time demo_wal)"]
  by (auto simp: demo_wal_def io_ok_def)

text \<open>
  C4. Crash during an append. A log of complete records to which the next append wrote only
  \<open>n\<close> bytes: replay hands every complete record to the callback in order; a tail shorter than
  a header is ignored, a longer partial record is reported as an error, and a record that was
  written completely is replayed too, although its append returned an error.
\<close>

theorem Replay_after_crash:
  assumes "wal_open w" "wal_file w = []" "list_all rec_ok rs" "rec_ok r"
  shows "Replay rio_ok f
      (snd (Append \<lparr>aio_torn = Some n, aio_sync = b\<rparr> (rec_type r) (rec_key r) (rec_value r)
        (rec_version r) (rec_expires r) (append_all rs w))) s =
    (if n < 8 then run_records ApplyFailed f rs s
     else if n < 27 + length (rec_key r) + length (rec_value r)
     then (case run_records ApplyFailed f rs s of
             (Some e, s') \<Rightarrow> (Some e, s') | (None, s') \<Rightarrow> (Some ReadPayloadFailed, s'))
     else run_records ApplyFailed f (rs @ [r]) s)"
proof -
  let ?w = "append_all rs w" and ?log = "concat (map encode rs)"
  have len: "length (encode r) = 27 + length (rec_key r) + length (rec_value r)"
    by (simp add: encode_layout length_payload_layout)
  have w: "wal_open ?w" "wal_file ?w = ?log" using append_all_file [OF assms(1,3)] assms(2) by auto
  then have "Replay rio_ok f
      (snd (Append \<lparr>aio_torn = Some n, aio_sync = b\<rparr> (rec_type r) (rec_key r) (rec_value r)
        (rec_version r) (rec_expires r) ?w)) s = replay_loop None (?log @ take n (encode r)) f 0 s"
    using assms(4) by (simp add: Append_def Let_def Replay_rio_ok encode_def rec_ok_def)
  moreover have "replay_loop None (?log @ take n (encode r)) f 0 s = run_records ApplyFailed f rs s" if "n < 8"
    using wal_log.loop_log [OF assms(3), of "take n (encode r)" "[]" f s] that by simp
  moreover have "replay_loop None (?log @ take n (encode r)) f 0 s =
      (case run_records ApplyFailed f rs s of
         (Some e, s') \<Rightarrow> (Some e, s') | (None, s') \<Rightarrow> (Some ReadPayloadFailed, s'))"
    if "8 \<le> n" "n < length (encode r)"
    by (rule replay_until_bad [OF assms(3) read_record_torn [OF assms(4) that]])
  moreover have "replay_loop None (?log @ take n (encode r)) f 0 s = run_records ApplyFailed f (rs @ [r]) s"
    if "length (encode r) \<le> n"
    using wal_log.loop_log [of "rs @ [r]" "[]" "[]" f s] assms(3,4) that by simp
  ultimately show ?thesis unfolding len by (auto simp only: not_less split: if_split)
qed

theorem Replay_after_crash_witness:
  "Replay rio_ok (\<lambda>r acc. (None, acc @ [rec_key r]))
     (snd (Append \<lparr>aio_torn = Some 10, aio_sync = True\<rparr> (rec_type demo_rec) (rec_key demo_rec) (rec_value demo_rec)
       (rec_version demo_rec) (rec_expires demo_rec) (append_all [demo_rec] demo_wal))) [] =
   (Some ReadPayloadFailed, [''k''])"
  using Replay_after_crash [of demo_wal "[demo_rec]" demo_rec "\<lambda>r acc. (None, acc @ [rec_key r])" 10 True "[]"]
  by (simp add: demo_wal_def rec_ok_def exp_ok_def IsZero_def demo_rec_def)

text \<open>
  C14. Corruption. If one byte of one payload of the log differs from what was written, replay
  applies the records before it and returns \<open>ErrChecksumMismatch\<close>, whatever follows.
\<close>

theorem Replay_detects_corruption:
  assumes "list_all rec_ok rs" "rec_ok r" "i < length (payload_layout r)" "b \<noteq> payload_layout r ! i"
    and "wal_open w" "wal_file w = concat (map encode rs) @ (encode r)[8 + i := b] @ rest"
  shows "Replay rio_ok f w s =
    (case run_records ApplyFailed f rs s of
       (Some e, s') \<Rightarrow> (Some e, s') | (None, s') \<Rightarrow> (Some ErrChecksumMismatch, s'))"
proof -
  let ?p = "payload_layout r"
  let ?q = "take i ?p @ b # drop (Suc i) ?p"
  have q: "?p[i := b] = ?q" using assms(3) by (simp add: upd_conv_take_nth_drop)
  have "(encode r)[8 + i := b] = take 8 (encode r) @ ?q"
    using assms(3) by (simp add: encode_layout frame_def list_update_append q)
  moreover have "ChecksumIEEE ?q \<noteq> ChecksumIEEE ?p"
    using ChecksumIEEE_single_byte [OF assms(4), of "take i ?p" "drop (Suc i) ?p"] assms(3)
    by (simp add: Cons_nth_drop_Suc)
  moreover have "length ?q = length ?p" using assms(3) by simp
  ultimately have "read_record None (concat (map encode rs) @ (encode r)[8 + i := b] @ rest)
      (length (concat (map encode rs))) = RecFail ErrChecksumMismatch"
    using read_record_corrupt [of ?q r "concat (map encode rs)" rest] assms(2) by simp
  with replay_until_bad [OF assms(1)] assms(5,6) show ?thesis by (simp add: Replay_rio_ok)
qed

theorem Replay_detects_corruption_witness:
  "Replay rio_ok (\<lambda>r acc. (None, acc @ [rec_key r]))
     (demo_wal\<lparr>wal_file := encode demo_rec @ (encode demo_rec)[8 + 20 := 9] @ [1, 2, 3]\<rparr>) [] =
   (Some ErrChecksumMismatch, [''k''])"
  using Replay_detects_corruption [of "[demo_rec]" demo_rec 20 9
      "demo_wal\<lparr>wal_file := encode demo_rec @ (encode demo_rec)[8 + 20 := 9] @ [1, 2, 3]\<rparr>" "[1, 2, 3]"
      "\<lambda>r acc. (None, acc @ [rec_key r])" "[]"]
  by (simp add: demo_wal_def rec_ok_def exp_ok_def IsZero_def demo_rec_def payload_layout_def bytes_of_def
      PutUint64_def PutUint16_def)

end
