(* ===== verification/KV_Sort.thy ===== *)
theory KV_Sort
  imports KV_Prelude
begin

text \<open>
  The in-place quicksort of \<open>internal/store/store.go\<close> (\<open>sortStrings\<close>, \<open>quickSort\<close>,
  \<open>partition\<close>). Indices are Go \<open>int\<close>s; an access outside the slice is a run-time panic,
  the value \<open>None\<close>. The interface \<open>key_sorter\<close> is what \<open>Scan\<close> relies on.
\<close>

section \<open>The code\<close>

definition in_range :: "'a list \<Rightarrow> int \<Rightarrow> bool" where
  "in_range arr i \<longleftrightarrow> 0 \<le> i \<and> i < int (length arr)"

definition index :: "'a list \<Rightarrow> int \<Rightarrow> 'a option" where
  "index arr i = (if in_range arr i then Some (arr ! nat i) else None)"

definition swap :: "'a list \<Rightarrow> int \<Rightarrow> int \<Rightarrow> 'a list option" where
  "swap arr i j = (if in_range arr i \<and> in_range arr j
     then Some (arr[nat i := arr ! nat j, nat j := arr ! nat i]) else None)"

function partition_loop ::
  "'a::linorder list \<Rightarrow> 'a \<Rightarrow> int \<Rightarrow> int \<Rightarrow> int \<Rightarrow> ('a list \<times> int) option" where
  "partition_loop arr pivot i j high =
     (if j < high then
        (case index arr j of
           None \<Rightarrow> None
         | Some x \<Rightarrow>
             (if x < pivot then
                (case swap arr (i + 1) j of
                   None \<Rightarrow> None
                 | Some arr' \<Rightarrow> partition_loop arr' pivot (i + 1) (j + 1) high)
              else partition_loop arr pivot i (j + 1) high))
      else Some (arr, i))"
  by pat_completeness auto
termination
  by (relation "measure (\<lambda>(arr, pivot, i, j, high). nat (high - j))") auto

declare partition_loop.simps [simp del]

definition partition_go :: "'a::linorder list \<Rightarrow> int \<Rightarrow> int \<Rightarrow> ('a list \<times> int) option" where
  "partition_go arr low high =
     (case index arr high of
        None \<Rightarrow> None
      | Some pivot \<Rightarrow>
          (case partition_loop arr pivot (low - 1) low high of
             None \<Rightarrow> None
           | Some (arr1, i) \<Rightarrow>
               (case swap arr1 (i + 1) high of
                  None \<Rightarrow> None
                | Some arr2 \<Rightarrow> Some (arr2, i + 1))))"

lemma partition_loop_bounds:
  "partition_loop arr pivot i j high = Some (arr', i') \<Longrightarrow> i \<le> i' \<and> i' \<le> max i (i + high - j)"
  by (induction arr pivot i j high rule: partition_loop.induct)
    (subst (asm) partition_loop.simps, fastforce split: if_splits option.splits)

lemma partition_bounds:
  "partition_go arr low high = Some (arr', p) \<Longrightarrow> low < high \<Longrightarrow> low \<le> p \<and> p \<le> high"
  by (auto simp: partition_go_def split: option.splits dest!: partition_loop_bounds)

function quickSort :: "'a::linorder list \<Rightarrow> int \<Rightarrow> int \<Rightarrow> 'a list option" where
  "quickSort arr low high =
     (if low < high then
        (case partition_go arr low high of
           None \<Rightarrow> None
         | Some (arr1, p) \<Rightarrow>
             (case quickSort arr1 low (p - 1) of
                None \<Rightarrow> None
              | Some arr2 \<Rightarrow> quickSort arr2 (p + 1) high))
      else Some arr)"
  by pat_completeness auto
termination
  by (relation "measure (\<lambda>(arr, low, high). nat (high - low))") (auto dest: partition_bounds)

declare quickSort.simps [simp del]

definition sortStrings :: "'a::linorder list \<Rightarrow> 'a list option" where
  "sortStrings arr =
     (if length arr < 2 then Some arr else quickSort arr 0 (int (length arr) - 1))"

section \<open>Rearranging a segment\<close>

text \<open>\<open>ys\<close> is \<open>xs\<close> with the positions \<open>l \<le> k < h\<close> rearranged and the others untouched.\<close>

definition rearranged :: "nat \<Rightarrow> nat \<Rightarrow> 'a list \<Rightarrow> 'a list \<Rightarrow> bool" where
  "rearranged l h xs ys \<longleftrightarrow> length ys = length xs \<and> mset ys = mset xs \<and>
     (\<forall>k < length xs. k < l \<or> h \<le> k \<longrightarrow> ys ! k = xs ! k)"

lemma rearranged_refl [simp]: "rearranged l h xs xs"
  by (simp add: rearranged_def)

lemma rearranged_trans:
  "rearranged l h xs ys \<Longrightarrow> rearranged l h ys zs \<Longrightarrow> rearranged l h xs zs"
  by (auto simp: rearranged_def)

lemma rearranged_mono: "rearranged l h xs ys \<Longrightarrow> l' \<le> l \<Longrightarrow> h \<le> h' \<Longrightarrow> rearranged l' h' xs ys"
  by (auto simp: rearranged_def)

lemma rearranged_swap:
  assumes "l \<le> a" "a < h" "l \<le> b" "b < h" "h \<le> length xs"
  shows "rearranged l h xs (xs[a := xs ! b, b := xs ! a])"
  using assms by (auto simp: rearranged_def mset_swap nth_list_update)

lemma rearranged_segment:
  assumes "rearranged l h xs ys" "l \<le> h" "h \<le> length xs"
  shows "mset (subslice l h ys) = mset (subslice l h xs)"
proof -
  have split: "zs = take l zs @ subslice l h zs @ drop h zs" for zs :: "'a list"
    by (simp add: subslice_def)
      (metis append_take_drop_id assms(2) drop_drop le_add_diff_inverse2)
  have "take l ys = take l xs" "drop h ys = drop h xs"
    using assms by (auto simp: rearranged_def intro: nth_equalityI)
  moreover have "mset ys = mset xs" using assms by (simp add: rearranged_def)
  ultimately show ?thesis
    by (metis split add_left_cancel add_right_cancel mset_append)
qed

lemma set_subslice: "h \<le> length xs \<Longrightarrow> set (subslice l h xs) = {xs ! k |k. l \<le> k \<and> k < h}"
proof -
  assume h: "h \<le> length xs"
  have "set (subslice l h xs) = {subslice l h xs ! i |i. i < h - l}"
    using h by (auto simp: subslice_def set_conv_nth)
  also have "\<dots> = {xs ! (l + i) |i. i < h - l}"
  proof -
    have "subslice l h xs ! i = xs ! (l + i)" if "i < h - l" for i
      using that h by (simp add: subslice_def)
    then show ?thesis by metis
  qed
  also have "\<dots> = {xs ! k |k. l \<le> k \<and> k < h}"
    by (auto simp: less_diff_conv add.commute) (metis le_add_diff_inverse less_diff_iff le_add1 add_diff_cancel_left' nat_le_linear less_diff_conv2 add.commute)
  finally show ?thesis .
qed

text \<open>So a property of all elements of the segment survives.\<close>

lemma rearranged_all:
  assumes "rearranged l h xs ys" "h \<le> length xs" "\<And>k. l \<le> k \<Longrightarrow> k < h \<Longrightarrow> P (xs ! k)"
    and "l \<le> k" "k < h"
  shows "P (ys ! k)"
proof -
  have "set (subslice l h ys) = set (subslice l h xs)"
    using rearranged_segment [OF assms(1)] assms by (metis le_less_trans less_imp_le set_mset_mset)
  moreover have "length ys = length xs" using assms(1) by (simp add: rearranged_def)
  ultimately have "ys ! k \<in> {xs ! k |k. l \<le> k \<and> k < h}"
    using assms by (auto simp: set_subslice)
  then show ?thesis using assms(3) by auto
qed

section \<open>Correctness\<close>

text \<open>
  The loop invariant: positions \<open>low..i\<close> hold keys below the pivot, positions
  \<open>i+1..j-1\<close> hold keys not below it, and the pivot waits at \<open>high\<close>.
\<close>

definition part_inv :: "'a::linorder list \<Rightarrow> 'a \<Rightarrow> nat \<Rightarrow> nat \<Rightarrow> nat \<Rightarrow> nat \<Rightarrow> bool" where
  "part_inv arr pivot low m j high \<longleftrightarrow>
     low \<le> m \<and> m \<le> j \<and> j \<le> high \<and> high < length arr \<and> arr ! high = pivot \<and>
     (\<forall>k. low \<le> k \<and> k < m \<longrightarrow> arr ! k < pivot) \<and>
     (\<forall>k. m \<le> k \<and> k < j \<longrightarrow> pivot \<le> arr ! k)"

lemma part_inv_keep:
  "part_inv arr pivot low m j high \<Longrightarrow> j < high \<Longrightarrow> \<not> arr ! j < pivot \<Longrightarrow>
     part_inv arr pivot low m (Suc j) high"
  by (auto simp: part_inv_def less_Suc_eq)

lemma part_inv_swap:
  "part_inv arr pivot low m j high \<Longrightarrow> j < high \<Longrightarrow> arr ! j < pivot \<Longrightarrow>
     part_inv (arr[m := arr ! j, j := arr ! m]) pivot low (Suc m) (Suc j) high"
  by (auto simp: part_inv_def nth_list_update less_Suc_eq)

lemma partition_loop_correct:
  assumes "part_inv arr pivot low m j high"
  shows "\<exists>arr' m'. partition_loop arr pivot (int m - 1) (int j) (int high) = Some (arr', int m' - 1) \<and>
     part_inv arr' pivot low m' high high \<and> rearranged low high arr arr'"
  using assms
proof (induction "high - j" arbitrary: arr m j)
  case 0
  then have "j = high" by (simp add: part_inv_def)
  with 0 show ?case by (auto simp: partition_loop.simps)
next
  case (Suc n)
  then have j: "j < high" "m < high" "low \<le> m" "m \<le> j" "high < length arr"
    by (auto simp: part_inv_def)
  have n: "n = high - Suc j" using Suc.hyps(2) by simp
  from j have rng: "in_range arr (int j)" "in_range arr (int m)" by (auto simp: in_range_def)
  show ?case
  proof (cases "arr ! j < pivot")
    case True
    let ?arr = "arr[m := arr ! j, j := arr ! m]"
    have "rearranged low high arr ?arr" using j by (intro rearranged_swap) auto
    moreover obtain arr' m' where "partition_loop ?arr pivot (int m) (1 + int j) (int high) =
        Some (arr', int m' - 1)" "part_inv arr' pivot low m' high high" "rearranged low high ?arr arr'"
      using Suc.hyps(1) [OF n part_inv_swap [OF Suc.prems j(1) True]]
      by auto
    ultimately show ?thesis using True j rng rearranged_trans
      by (subst partition_loop.simps) (fastforce simp: index_def swap_def add.commute)
  next
    case False
    with Suc.hyps(1) [OF n part_inv_keep [OF Suc.prems j(1) False]]
    show ?thesis using j rng
      by (subst partition_loop.simps) (auto simp: index_def add.commute)
  qed
qed

lemma partition_correct:
  assumes "low < high" "high < length arr"
  shows "\<exists>arr' p. partition_go arr (int low) (int high) = Some (arr', int p) \<and>
     low \<le> p \<and> p \<le> high \<and> rearranged low (Suc high) arr arr' \<and>
     (\<forall>k. low \<le> k \<and> k < p \<longrightarrow> arr' ! k < arr' ! p) \<and>
     (\<forall>k. p < k \<and> k \<le> high \<longrightarrow> arr' ! p \<le> arr' ! k)"
proof -
  have "part_inv arr (arr ! high) low low low high"
    using assms by (auto simp: part_inv_def)
  from partition_loop_correct [OF this] obtain arr1 m where
    loop: "partition_loop arr (arr ! high) (int low - 1) (int low) (int high) = Some (arr1, int m - 1)"
    and inv: "part_inv arr1 (arr ! high) low m high high" and re: "rearranged low high arr arr1"
    by blast
  let ?arr2 = "arr1[m := arr1 ! high, high := arr1 ! m]"
  have m: "low \<le> m" "m \<le> high" "high < length arr1" using inv by (auto simp: part_inv_def)
  have "partition_go arr (int low) (int high) = Some (?arr2, int m)"
    using loop m assms by (simp add: partition_go_def index_def swap_def in_range_def)
  moreover have "rearranged low (Suc high) arr ?arr2"
    using m by (intro rearranged_trans [OF rearranged_mono [OF re]] rearranged_swap) auto
  moreover have "\<forall>k. low \<le> k \<and> k < m \<longrightarrow> ?arr2 ! k < ?arr2 ! m"
    "\<forall>k. m < k \<and> k \<le> high \<longrightarrow> ?arr2 ! m \<le> ?arr2 ! k"
    using inv m by (auto simp: part_inv_def nth_list_update)
  ultimately show ?thesis using m by blast
qed

text \<open>The segment \<open>l \<le> k < h\<close> is in ascending order.\<close>

definition ascending :: "nat \<Rightarrow> nat \<Rightarrow> 'a::linorder list \<Rightarrow> bool" where
  "ascending l h xs \<longleftrightarrow> (\<forall>a b. l \<le> a \<and> a \<le> b \<and> b < h \<longrightarrow> xs ! a \<le> xs ! b)"

lemma ascending_join:
  assumes "ascending l p xs" "ascending (Suc p) h xs"
    and "\<And>k. l \<le> k \<Longrightarrow> k < p \<Longrightarrow> xs ! k \<le> xs ! p" "\<And>k. p < k \<Longrightarrow> k < h \<Longrightarrow> xs ! p \<le> xs ! k"
  shows "ascending l h xs"
  unfolding ascending_def
proof (intro allI impI, elim conjE)
  fix a b
  assume ab: "l \<le> a" "a \<le> b" "b < h"
  consider "b < p" | "p < a" | "a \<le> p" "p \<le> b" by linarith
  then show "xs ! a \<le> xs ! b"
  proof cases
    case 3
    have "xs ! a \<le> xs ! p" using assms(3) ab 3 by (cases "a = p") auto
    also have "\<dots> \<le> xs ! b" using assms(4) ab 3 by (cases "b = p") auto
    finally show ?thesis .
  qed (use assms(1,2) ab in \<open>auto simp: ascending_def\<close>)
qed

text \<open>Sorting the two sides of a partitioned segment sorts the segment.\<close>

lemma ascending_halves:
  assumes "p < h" "h \<le> length arr1"
    and arr2: "rearranged low p arr1 arr2" "ascending low p arr2"
    and arr3: "rearranged (Suc p) h arr2 arr3" "ascending (Suc p) h arr3"
    and below: "\<And>k. low \<le> k \<Longrightarrow> k < p \<Longrightarrow> arr1 ! k < arr1 ! p"
    and above: "\<And>k. p < k \<Longrightarrow> k < h \<Longrightarrow> arr1 ! p \<le> arr1 ! k"
  shows "ascending low h arr3"
proof (rule ascending_join)
  have len2: "length arr2 = length arr1" using arr2(1) by (simp add: rearranged_def)
  have same: "arr3 ! k = arr2 ! k" if "k \<le> p" for k
    using arr3(1) that assms(1,2) len2 by (auto simp: rearranged_def)
  have same': "arr2 ! k = arr1 ! k" if "p \<le> k" "k < h" for k
    using arr2(1) that assms(2) by (auto simp: rearranged_def)
  show "ascending low p arr3" using arr2(2) same by (auto simp: ascending_def)
  show "ascending (Suc p) h arr3" by (rule arr3)
  show "arr3 ! k \<le> arr3 ! p" if "low \<le> k" "k < p" for k
    using rearranged_all [OF arr2(1), of "\<lambda>x. x \<le> arr1 ! p" k] below that assms(1,2)
    by (simp add: same same' less_imp_le)
  show "arr3 ! p \<le> arr3 ! k" if "p < k" "k < h" for k
    using rearranged_all [OF arr3(1), of "\<lambda>x. arr1 ! p \<le> x" k] above that assms(1,2) len2
    by (simp add: same same')
qed

lemma quickSort_correct:
  assumes "low \<le> h" "h \<le> length arr"
  shows "\<exists>arr'. quickSort arr (int low) (int h - 1) = Some arr' \<and>
     rearranged low h arr arr' \<and> ascending low h arr'"
  using assms
proof (induction "h - low" arbitrary: arr low h rule: less_induct)
  case less
  show ?case
  proof (cases "Suc low < h")
    case False
    with less.prems have "ascending low h arr"
      by (auto simp: ascending_def) (metis Suc_leI le_antisym less_Suc_eq_le less_le_trans not_less order_refl)
    with False show ?thesis by (auto simp: quickSort.simps)
  next
    case True
    then obtain arr1 p where p: "partition_go arr (int low) (int h - 1) = Some (arr1, int p)"
      "low \<le> p" "p < h" "rearranged low h arr arr1"
      and below: "\<And>k. low \<le> k \<Longrightarrow> k < p \<Longrightarrow> arr1 ! k < arr1 ! p"
      and above: "\<And>k. p < k \<Longrightarrow> k < h \<Longrightarrow> arr1 ! p \<le> arr1 ! k"
      using partition_correct [of low "h - 1" arr] less.prems by (fastforce simp: of_nat_diff)
    have shrink: "p - low < h - low" "h - Suc p < h - low" using p by auto
    have len1: "length arr1 = length arr" using p(4) by (simp add: rearranged_def)
    from less.hyps [of p low arr1] obtain arr2 where
      arr2: "quickSort arr1 (int low) (int p - 1) = Some arr2" "rearranged low p arr1 arr2"
        "ascending low p arr2"
      using p less.prems len1 shrink by auto
    have len2: "length arr2 = length arr" using arr2(2) len1 by (simp add: rearranged_def)
    from less.hyps [of h "Suc p" arr2] obtain arr3 where
      arr3: "quickSort arr2 (1 + int p) (int h - 1) = Some arr3" "rearranged (Suc p) h arr2 arr3"
        "ascending (Suc p) h arr3"
      using p less.prems len2 shrink by (auto simp: add.commute)
    have "ascending low h arr3"
      by (rule ascending_halves [OF _ _ arr2(2,3) arr3(2,3) below above])
        (use p less.prems len1 in auto)
    moreover have "rearranged low h arr arr3"
      using p(2,3) rearranged_trans [OF p(4) rearranged_trans [OF rearranged_mono [OF arr2(2)]
        rearranged_mono [OF arr3(2)]]] by auto
    moreover have "quickSort arr (int low) (int h - 1) = Some arr3"
      using True p(1) arr2(1) arr3(1) by (subst quickSort.simps) (simp add: add.commute)
    ultimately show ?thesis by blast
  qed
qed

lemma sortStrings_sort: "sortStrings arr = Some (sort arr)"
proof (cases "length arr < 2")
  case True
  then have "sorted arr" by (cases arr rule: remdups_adj.cases) auto
  with True show ?thesis by (simp add: sortStrings_def sort_key_id_if_sorted sorted_sort_id)
next
  case False
  obtain arr' where arr': "quickSort arr 0 (int (length arr) - 1) = Some arr'"
    "mset arr' = mset arr" "length arr' = length arr" "ascending 0 (length arr) arr'"
    using quickSort_correct [of 0 "length arr" arr] by (auto simp: rearranged_def)
  then have "sorted arr'" by (auto simp: ascending_def sorted_iff_nth_mono_less)
  with arr' have "sort arr = arr'" by (intro properties_for_sort) auto
  with False arr' show ?thesis by (simp add: sortStrings_def)
qed

section \<open>The sorter interface\<close>

text \<open>What \<open>Scan\<close> needs: a total routine that returns the sorted permutation of its input.\<close>

locale key_sorter =
  fixes sorter :: "'k::linorder list \<Rightarrow> 'k list option"
  assumes sorter_total: "\<exists>ys. sorter xs = Some ys"
    and sorter_sorted: "sorter xs = Some ys \<Longrightarrow> sorted ys"
    and sorter_perm: "sorter xs = Some ys \<Longrightarrow> mset ys = mset xs"
begin

text \<open>The result depends only on the multiset of keys: the visiting order is irrelevant.\<close>

lemma order_irrelevant: "mset xs = mset ys \<Longrightarrow> sorter xs = sorter ys"
  by (metis sorter_total sorter_sorted sorter_perm properties_for_sort)

lemma distinct_keys:
  assumes "sorter xs = Some ys" "distinct xs"
  shows "ys = sorted_list_of_set (set xs)"
  using assms by (metis mset_eq_setD sorter_sorted sorter_perm sorted_list_of_set.idem_if_sorted_distinct
      mset_eq_imp_distinct_iff)

end

interpretation store_sorter: key_sorter "sortStrings :: string list \<Rightarrow> string list option"
  by unfold_locales (auto simp: sortStrings_sort)

section \<open>Properties\<close>

text \<open>
  C24. \<open>sortStrings\<close> never panics, terminates on every input and leaves the slice in ascending
  order, with exactly the elements it had: it computes the library's \<open>sort\<close>.
\<close>

theorem sortStrings_correct: "sortStrings arr = Some (sort arr)" for arr :: "string list"
  by (rule sortStrings_sort)

end
