(* ===== verification/KV_Store.thy ===== *)
theory KV_Store
  imports KV_Wal KV_Sort
begin

text \<open>
  The sharded in-memory store of \<open>internal/store/store.go\<close> and \<open>entry.go\<close>. A shard's Go
  map is a finite partial map; each clock reading (\<open>time.Now()\<close>) and the order in which a
  \<open>range\<close> statement visits a map are arguments. Lock-protected sections are single
  definitions (\<open>Get_reap\<close>, \<open>Set_apply\<close>, \<open>Delete_apply\<close>, one shard of \<open>reap\<close>), so that the
  same definitions serve the sequential operations here and the interleavings later.
\<close>

section \<open>State\<close>

record Entry =
  Value :: bytes
  Version :: uint64
  ExpiresAt :: gotime

definition IsExpired :: "gotime \<Rightarrow> Entry \<Rightarrow> bool" where
  "IsExpired now e = (if IsZero (ExpiresAt e) then False else After now (ExpiresAt e))"

type_synonym shard = "string \<rightharpoonup> Entry"

definition ShardCount :: nat where
  "ShardCount = 32"

record Store =
  shards :: "shard list"
  wal :: "WAL option"
  lastVersion :: uint64
  reaperStopped :: bool
  keyCount :: int

datatype go_panic = CloseOfClosedChannel | SliceOutOfRange | IndexOutOfRange | NonPositiveInterval

definition NewStore :: "WAL option \<Rightarrow> Store" where
  "NewStore w = \<lparr>shards = replicate ShardCount Map.empty, wal = w, lastVersion = 0,
     reaperStopped = False, keyCount = 0\<rparr>"

definition SetWAL :: "WAL \<Rightarrow> Store \<Rightarrow> Store" where
  "SetWAL w s = s\<lparr>wal := Some w\<rparr>"

definition Size :: "Store \<Rightarrow> int" where
  "Size s = keyCount s"

text \<open>The shard index of a key; \<open>getShard\<close> returns the shard at this index.\<close>

definition shard_index :: "string \<Rightarrow> nat" where
  "shard_index key = unat (fnv32a (bytes_of key)) mod ShardCount"

definition getShard :: "string \<Rightarrow> Store \<Rightarrow> shard" where
  "getShard key s = shards s ! shard_index key"

definition set_shard :: "string \<Rightarrow> shard \<Rightarrow> Store \<Rightarrow> Store" where
  "set_shard key sh s = s\<lparr>shards := (shards s)[shard_index key := sh]\<rparr>"

definition add_keyCount :: "int \<Rightarrow> Store \<Rightarrow> Store" where
  "add_keyCount d s = s\<lparr>keyCount := wrap64 (keyCount s + d)\<rparr>"

section \<open>Operations\<close>

definition NextVersion :: "gotime \<Rightarrow> Store \<Rightarrow> uint64 \<times> Store" where
  "NextVersion now s =
     (let v = word_of_int (UnixNano now);
          v = (if v \<le> lastVersion s then lastVersion s + 1 else v)
      in (v, s\<lparr>lastVersion := v\<rparr>))"

definition Get_reap :: "gotime \<Rightarrow> string \<Rightarrow> Store \<Rightarrow> Store" where
  "Get_reap now key s =
     (case getShard key s key of
        Some e \<Rightarrow>
          (if IsExpired now e
           then add_keyCount (- 1) (set_shard key ((getShard key s)(key := None)) s)
           else s)
      | None \<Rightarrow> s)"

definition Get :: "gotime \<Rightarrow> gotime \<Rightarrow> string \<Rightarrow> Store \<Rightarrow> (bytes \<times> uint64) option \<times> Store" where
  "Get now now' key s =
     (case getShard key s key of
        None \<Rightarrow> (None, s)
      | Some entry \<Rightarrow>
          (if IsExpired now entry then (None, Get_reap now' key s)
           else (Some (Value entry, Version entry), s)))"

definition log_append ::
  "append_io \<Rightarrow> byte \<Rightarrow> string \<Rightarrow> bytes \<Rightarrow> uint64 \<Rightarrow> gotime \<Rightarrow> Store \<Rightarrow> go_error option \<times> Store" where
  "log_append io recType key value version expiresAt s =
     (case wal s of
        None \<Rightarrow> (None, s)
      | Some w \<Rightarrow>
          (case Append io recType key value version expiresAt w of
             (e, w') \<Rightarrow> (map_option WalAppendFailed e, s\<lparr>wal := Some w'\<rparr>)))"

definition Set_apply :: "string \<Rightarrow> bytes \<Rightarrow> uint64 \<Rightarrow> gotime \<Rightarrow> Store \<Rightarrow> uint64 \<times> Store" where
  "Set_apply key value version expiresAt s =
     (let store = (\<lambda>s. set_shard key ((getShard key s)(key \<mapsto>
            \<lparr>Value = value, Version = version, ExpiresAt = expiresAt\<rparr>)) s)
      in case getShard key s key of
           Some current \<Rightarrow>
             (if version < Version current then (Version current, s) else (version, store s))
         | None \<Rightarrow> (version, store (add_keyCount 1 s)))"

text \<open>A local write (version 0) draws a fresh version; a replicated one keeps its own.\<close>

definition assign_version :: "gotime \<Rightarrow> uint64 \<Rightarrow> Store \<Rightarrow> uint64 \<times> Store" where
  "assign_version now version s = (if version = 0 then NextVersion now s else (version, s))"

definition expiry_of :: "gotime \<Rightarrow> duration \<Rightarrow> gotime" where
  "expiry_of now ttl = (if ttl > 0 then time_Add now ttl else zero_time)"

definition Set :: "append_io \<Rightarrow> gotime \<Rightarrow> gotime \<Rightarrow> string \<Rightarrow> bytes \<Rightarrow> duration \<Rightarrow> uint64 \<Rightarrow> Store \<Rightarrow>
  (go_error + uint64) \<times> Store" where
  "Set io now now' key value ttl version s =
     (let expiresAt = expiry_of now ttl;
          (version, s) = assign_version now' version s
      in case log_append io RecordTypeSet key value version expiresAt s of
           (Some e, s') \<Rightarrow> (Inl e, s')
         | (None, s') \<Rightarrow>
             (case Set_apply key value version expiresAt s' of (v, s'') \<Rightarrow> (Inr v, s'')))"

definition Delete_apply :: "string \<Rightarrow> uint64 \<Rightarrow> Store \<Rightarrow> (uint64 \<times> bool) \<times> Store" where
  "Delete_apply key version s =
     (case getShard key s key of
        None \<Rightarrow> ((version, False), s)
      | Some current \<Rightarrow>
          (if version < Version current then ((Version current, False), s)
           else ((version, True),
                 add_keyCount (- 1) (set_shard key ((getShard key s)(key := None)) s))))"

definition Delete :: "append_io \<Rightarrow> gotime \<Rightarrow> string \<Rightarrow> uint64 \<Rightarrow> Store \<Rightarrow>
  (go_error + uint64 \<times> bool) \<times> Store" where
  "Delete io now key version s =
     (let (version, s) = assign_version now version s
      in case log_append io RecordTypeDelete key [] version zero_time s of
           (Some e, s') \<Rightarrow> (Inl e, s')
         | (None, s') \<Rightarrow> (case Delete_apply key version s' of (r, s'') \<Rightarrow> (Inr r, s'')))"

text \<open>One shard of the reaper: \<open>order\<close> is the order in which \<open>range\<close> visits the map.\<close>

definition reap_key :: "gotime \<Rightarrow> nat \<Rightarrow> string \<Rightarrow> Store \<Rightarrow> Store" where
  "reap_key now i k s =
     (case (shards s ! i) k of
        None \<Rightarrow> s
      | Some entry \<Rightarrow>
          (if \<not> IsZero (ExpiresAt entry) \<and> After now (ExpiresAt entry)
           then add_keyCount (- 1) (s\<lparr>shards := (shards s)[i := (shards s ! i)(k := None)]\<rparr>)
           else s))"

definition reap_shard :: "gotime \<Rightarrow> (nat \<Rightarrow> string list) \<Rightarrow> nat \<Rightarrow> Store \<Rightarrow> Store" where
  "reap_shard now order i s = fold (reap_key now i) (order i) s"

definition reap :: "gotime \<Rightarrow> (nat \<Rightarrow> string list) \<Rightarrow> Store \<Rightarrow> Store" where
  "reap now order s = fold (reap_shard now order) [0..<ShardCount] s"

text \<open>
  The background goroutine of \<open>StartReaper\<close> as a consumer of ticker and stop events;
  \<open>time.NewTicker\<close> panics for an interval that is not positive.
\<close>

datatype reaper_event = Tick gotime "nat \<Rightarrow> string list" | Stop

fun reaper_loop :: "reaper_event list \<Rightarrow> Store \<Rightarrow> Store" where
  "reaper_loop [] s = s"
| "reaper_loop (Tick now order # es) s = reaper_loop es (reap now order s)"
| "reaper_loop (Stop # es) s = s"

definition StartReaper :: "duration \<Rightarrow> reaper_event list \<Rightarrow> Store \<Rightarrow> go_panic + Store" where
  "StartReaper interval es s = (if interval \<le> 0 then Inl NonPositiveInterval else Inr (reaper_loop es s))"

definition Close :: "Store \<Rightarrow> go_panic + (go_error option \<times> Store)" where
  "Close s =
     (if reaperStopped s then Inl CloseOfClosedChannel
      else
        (let s = s\<lparr>reaperStopped := True\<rparr>
         in case wal s of
              None \<Rightarrow> Inr (None, s)
            | Some w \<Rightarrow> (case wal_Close w of (e, w') \<Rightarrow> Inr (e, s\<lparr>wal := Some w'\<rparr>))))"

section \<open>Scan\<close>

definition HasPrefix :: "string \<Rightarrow> string \<Rightarrow> bool" where
  "HasPrefix s p \<longleftrightarrow> take (length p) s = p"

definition scan_keys :: "gotime \<Rightarrow> (nat \<Rightarrow> string list) \<Rightarrow> string \<Rightarrow> Store \<Rightarrow> string list" where
  "scan_keys now order prefix s =
     concat (map (\<lambda>i. filter (\<lambda>k.
         (case (shards s ! i) k of
            None \<Rightarrow> False
          | Some entry \<Rightarrow>
              \<not> (\<not> IsZero (ExpiresAt entry) \<and> After now (ExpiresAt entry)) \<and> HasPrefix k prefix))
       (order i)) [0..<ShardCount])"

text \<open>The cursor loop: \<open>n\<close> is \<open>len(allKeys)\<close>, \<open>i\<close> the loop index, \<open>start\<close> the variable \<open>startIndex\<close>.\<close>

fun scan_start :: "string \<Rightarrow> nat \<Rightarrow> nat \<Rightarrow> nat \<Rightarrow> string list \<Rightarrow> nat" where
  "scan_start cursor n i start [] = start"
| "scan_start cursor n i start (k # ks) =
     (if k > cursor then i
      else scan_start cursor n (Suc i) (if Suc i = n then n else start) ks)"

definition Scan :: "gotime \<Rightarrow> (nat \<Rightarrow> string list) \<Rightarrow> string \<Rightarrow> int \<Rightarrow> string \<Rightarrow> Store \<Rightarrow>
  go_panic + (string list option \<times> string)" where
  "Scan now order prefix limit cursor s =
     (case sortStrings (scan_keys now order prefix s) of
        None \<Rightarrow> Inl IndexOutOfRange
      | Some allKeys \<Rightarrow>
          (let n = int (length allKeys);
               startIndex = (if cursor \<noteq> [] then int (scan_start cursor (length allKeys) 0 0 allKeys) else 0);
               endIndex = wrap64 (startIndex + limit);
               endIndex = (if endIndex > n then n else endIndex)
           in if startIndex \<ge> n then Inr (None, [])
              else if endIndex < startIndex then Inl SliceOutOfRange
              else
                (let matched = subslice (nat startIndex) (nat endIndex) allKeys
                 in if endIndex < n then
                      (if matched = [] then Inl IndexOutOfRange
                       else Inr (Some matched, last matched))
                    else Inr (Some matched, []))))"

section \<open>Abstraction and invariant\<close>

text \<open>What the store holds, as one map, and the invariant that ties the shards to it.\<close>

definition contents :: "Store \<Rightarrow> shard" where
  "contents s k = getShard k s k"

definition store_inv :: "Store \<Rightarrow> bool" where
  "store_inv s \<longleftrightarrow> length (shards s) = ShardCount \<and>
     (\<forall>i < ShardCount. \<forall>k \<in> dom (shards s ! i). shard_index k = i) \<and>
     finite (dom (contents s)) \<and>
     keyCount s = wrap64 (int (card (dom (contents s))))"

lemma shard_index_less [simp]: "shard_index k < ShardCount"
  by (simp add: shard_index_def ShardCount_def)

lemma store_inv_len: "store_inv s \<Longrightarrow> length (shards s) = ShardCount"
  by (simp add: store_inv_def)

lemma store_inv_home: "store_inv s \<Longrightarrow> i < ShardCount \<Longrightarrow> (shards s ! i) k = Some e \<Longrightarrow> shard_index k = i"
  by (auto simp: store_inv_def)

lemma store_inv_lookup:
  "store_inv s \<Longrightarrow> i < ShardCount \<Longrightarrow> (shards s ! i) k = (if shard_index k = i then contents s k else None)"
  by (cases "(shards s ! i) k") (auto simp: contents_def getShard_def dest: store_inv_home)

lemma contents_frame [simp]:
  "contents (s\<lparr>lastVersion := v\<rparr>) = contents s" "contents (s\<lparr>wal := w\<rparr>) = contents s"
  "contents (s\<lparr>keyCount := c\<rparr>) = contents s" "contents (s\<lparr>reaperStopped := b\<rparr>) = contents s"
  "contents (add_keyCount d s) = contents s"
  by (simp_all add: contents_def getShard_def fun_eq_iff add_keyCount_def)

lemma store_inv_frame [simp]:
  "store_inv (s\<lparr>lastVersion := v\<rparr>) = store_inv s" "store_inv (s\<lparr>wal := w\<rparr>) = store_inv s"
  "store_inv (s\<lparr>reaperStopped := b\<rparr>) = store_inv s"
  by (simp_all add: store_inv_def)

text \<open>Writing one cell of a key's home shard is one update of the abstract map.\<close>

lemma contents_cell:
  assumes "length (shards s) = ShardCount" "i = shard_index key"
  shows "contents (s\<lparr>shards := (shards s)[i := (shards s ! i)(key := x)]\<rparr>) = (contents s)(key := x)"
  using assms by (auto simp: contents_def getShard_def fun_eq_iff nth_list_update)

lemma store_inv_cell:
  assumes inv: "store_inv s" and i: "i = shard_index key"
    and c: "c = wrap64 (int (card (dom ((contents s)(key := x)))))"
  shows "store_inv (s\<lparr>shards := (shards s)[i := (shards s ! i)(key := x)], keyCount := c\<rparr>)"
proof -
  let ?s = "s\<lparr>shards := (shards s)[i := (shards s ! i)(key := x)]\<rparr>"
  have "contents ?s = (contents s)(key := x)"
    using contents_cell [OF store_inv_len [OF inv] i] .
  moreover have "finite (dom ((contents s)(key := x)))"
    using inv by (cases x) (auto simp: store_inv_def)
  moreover have "shard_index k = j" if "j < ShardCount" "(shards ?s ! j) k = Some e" for j k e
    using that store_inv_home [OF inv] i store_inv_len [OF inv]
    by (auto simp: nth_list_update split: if_splits)
  ultimately show ?thesis
    using inv c unfolding store_inv_def by auto
qed

lemma card_dom_insert: "finite (dom m) \<Longrightarrow> m k = None \<Longrightarrow> card (dom (m(k \<mapsto> e))) = Suc (card (dom m))"
  by (simp add: domIff)

lemma card_dom_replace: "m k = Some e \<Longrightarrow> card (dom (m(k \<mapsto> e'))) = card (dom m)"
  by (simp add: insert_absorb domI)

lemma card_dom_remove: "finite (dom m) \<Longrightarrow> m k = Some e \<Longrightarrow> int (card (dom (m(k := None)))) = int (card (dom m)) - 1"
proof -
  assume "finite (dom m)" "m k = Some e"
  then have "card (dom m) = Suc (card (dom m - {k}))" by (metis card.remove domI)
  then show ?thesis by simp
qed

lemma Store_update_swap: "s\<lparr>keyCount := c, shards := x\<rparr> = s\<lparr>shards := x, keyCount := c\<rparr>" for s :: Store
  by (cases s) simp

text \<open>The two ways the code changes a cell together with the counter.\<close>

lemma insert_cell_inv:
  assumes "store_inv s" "contents s key = None"
  shows "store_inv (set_shard key ((getShard key s)(key \<mapsto> e)) (add_keyCount 1 s))"
proof -
  have "card (dom ((contents s)(key \<mapsto> e))) = Suc (card (dom (contents s)))"
    using assms by (intro card_dom_insert) (auto simp: store_inv_def)
  then have "wrap64 (keyCount s + 1) = wrap64 (int (card (dom ((contents s)(key \<mapsto> e)))))"
    using assms by (simp add: store_inv_def add.commute)
  from store_inv_cell [OF assms(1) refl this] show ?thesis
    by (simp add: set_shard_def getShard_def add_keyCount_def Store_update_swap)
qed

lemma replace_cell_inv:
  assumes "store_inv s" "contents s key = Some e'"
  shows "store_inv (set_shard key ((getShard key s)(key \<mapsto> e)) s)"
proof -
  have "keyCount s = wrap64 (int (card (dom ((contents s)(key \<mapsto> e)))))"
    using assms card_dom_replace [of "contents s" key e' e] by (simp add: store_inv_def)
  from store_inv_cell [OF assms(1) refl this] show ?thesis
    by (simp add: set_shard_def getShard_def)
qed

lemma remove_cell_inv:
  assumes "store_inv s" "contents s key = Some e" "i = shard_index key"
  shows "store_inv (add_keyCount (- 1) (s\<lparr>shards := (shards s)[i := (shards s ! i)(key := None)]\<rparr>))"
proof -
  have "int (card (dom ((contents s)(key := None)))) = int (card (dom (contents s))) - 1"
    using assms by (intro card_dom_remove) (auto simp: store_inv_def)
  then have "wrap64 (keyCount s - 1) = wrap64 (int (card (dom ((contents s)(key := None)))))"
    using assms by (simp add: store_inv_def)
  from store_inv_cell [OF assms(1,3) this] show ?thesis by (simp add: add_keyCount_def)
qed

section \<open>What each operation does to the contents\<close>

lemma contents_set_shard [simp]:
  "length (shards s) = ShardCount \<Longrightarrow>
     contents (set_shard key ((getShard key s)(key := x)) s) = (contents s)(key := x)"
  using contents_cell [of s "shard_index key" key x] by (simp add: set_shard_def getShard_def)

lemma length_shards_frame [simp]:
  "length (shards (add_keyCount d s)) = length (shards s)"
  "length (shards (set_shard k sh s)) = length (shards s)"
  by (simp_all add: add_keyCount_def set_shard_def)

lemma getShard_add_keyCount [simp]: "getShard k (add_keyCount d s) = getShard k s"
  by (simp add: getShard_def add_keyCount_def)

lemma NewStore_inv: "store_inv (NewStore w)"
  by (auto simp: store_inv_def NewStore_def contents_def getShard_def ShardCount_def shard_index_def dom_def wrap64_def)

lemma wal_NewStore [simp]: "wal (NewStore w) = w"
  by (simp add: NewStore_def)

lemma contents_NewStore [simp]: "contents (NewStore w) = Map.empty"
  using shard_index_less by (simp add: contents_def getShard_def NewStore_def fun_eq_iff)

text \<open>
  The specification: last-writer-wins by version, where an incoming write wins ties.
\<close>

definition lww_put :: "('e \<Rightarrow> 'v::linorder) \<Rightarrow> 'k \<Rightarrow> 'e \<Rightarrow> ('k \<rightharpoonup> 'e) \<Rightarrow> ('k \<rightharpoonup> 'e)" where
  "lww_put ver k e m = (case m k of
     Some c \<Rightarrow> if ver e < ver c then m else m(k \<mapsto> e)
   | None \<Rightarrow> m(k \<mapsto> e))"

definition lww_remove :: "('e \<Rightarrow> 'v::linorder) \<Rightarrow> 'k \<Rightarrow> 'v \<Rightarrow> ('k \<rightharpoonup> 'e) \<Rightarrow> ('k \<rightharpoonup> 'e)" where
  "lww_remove ver k v m = (case m k of
     Some c \<Rightarrow> if v < ver c then m else m(k := None)
   | None \<Rightarrow> m)"

lemma Set_apply_inv: "store_inv s \<Longrightarrow> store_inv (snd (Set_apply key value version expiresAt s))"
  using insert_cell_inv [of s key] replace_cell_inv [of s key]
  by (auto simp: Set_apply_def contents_def Let_def split: option.split)

lemma Set_apply_contents:
  "store_inv s \<Longrightarrow> contents (snd (Set_apply key value version expiresAt s)) =
     lww_put Version key \<lparr>Value = value, Version = version, ExpiresAt = expiresAt\<rparr> (contents s)"
  using contents_set_shard [of "add_keyCount 1 s" key]
  by (auto simp: Set_apply_def lww_put_def contents_def [of s key] Let_def store_inv_len split: option.split)

lemma Delete_apply_inv: "store_inv s \<Longrightarrow> store_inv (snd (Delete_apply key version s))"
  using remove_cell_inv [of s key _ "shard_index key"]
  by (auto simp: Delete_apply_def set_shard_def getShard_def contents_def split: option.split)

lemma Delete_apply_contents:
  "store_inv s \<Longrightarrow> contents (snd (Delete_apply key version s)) = lww_remove Version key version (contents s)"
  by (auto simp: Delete_apply_def lww_remove_def contents_def [of s key] store_inv_len split: option.split)

lemma Get_reap_inv: "store_inv s \<Longrightarrow> store_inv (Get_reap now key s)"
  using remove_cell_inv [of s key _ "shard_index key"]
  by (auto simp: Get_reap_def set_shard_def getShard_def contents_def split: option.split)

lemma Get_reap_contents:
  "store_inv s \<Longrightarrow> contents (Get_reap now key s) =
     (case contents s key of Some e \<Rightarrow> if IsExpired now e then (contents s)(key := None) else contents s
      | None \<Rightarrow> contents s)"
  by (auto simp: Get_reap_def contents_def [of s key] store_inv_len split: option.split)

lemma NextVersion_frame [simp]:
  "contents (snd (NextVersion now s)) = contents s" "store_inv (snd (NextVersion now s)) = store_inv s"
  "wal (snd (NextVersion now s)) = wal s" "shards (snd (NextVersion now s)) = shards s"
  "keyCount (snd (NextVersion now s)) = keyCount s"
  by (simp_all add: NextVersion_def Let_def)

lemma assign_version_frame [simp]:
  "contents (snd (assign_version now v s)) = contents s"
  "store_inv (snd (assign_version now v s)) = store_inv s"
  "wal (snd (assign_version now v s)) = wal s"
  by (simp_all add: assign_version_def)

lemma log_append_frame [simp]:
  "contents (snd (log_append io t k v ver e s)) = contents s"
  "store_inv (snd (log_append io t k v ver e s)) = store_inv s"
  "lastVersion (snd (log_append io t k v ver e s)) = lastVersion s"
  by (auto simp: log_append_def split: option.split prod.split)

text \<open>The phases of a write, as a rewriting rule.\<close>

lemma Set_unfold:
  "Set io now now' key value ttl version s =
     (let (v, s1) = assign_version now' version s;
          l = log_append io RecordTypeSet key value v (expiry_of now ttl) s1;
          a = Set_apply key value v (expiry_of now ttl) (snd l)
      in case fst l of Some e \<Rightarrow> (Inl e, snd l) | None \<Rightarrow> (Inr (fst a), snd a))"
  by (simp add: Set_def Let_def case_prod_beta split: option.split)

lemma Delete_unfold:
  "Delete io now key version s =
     (let (v, s1) = assign_version now version s;
          l = log_append io RecordTypeDelete key [] v zero_time s1;
          a = Delete_apply key v (snd l)
      in case fst l of Some e \<Rightarrow> (Inl e, snd l) | None \<Rightarrow> (Inr (fst a), snd a))"
  by (simp add: Delete_def Let_def case_prod_beta split: option.split)

lemma Set_inv: "store_inv s \<Longrightarrow> store_inv (snd (Set io now now' key value ttl version s))"
  by (simp add: Set_unfold Let_def case_prod_beta Set_apply_inv split: option.split)

lemma Delete_inv: "store_inv s \<Longrightarrow> store_inv (snd (Delete io now key version s))"
  by (simp add: Delete_unfold Let_def case_prod_beta Delete_apply_inv split: option.split)

lemma Get_inv: "store_inv s \<Longrightarrow> store_inv (snd (Get now now' key s))"
  by (auto simp: Get_def Get_reap_inv split: option.split)

section \<open>Expiry: what a reader can see\<close>

text \<open>The entries of a map that have not expired at \<open>now\<close>.\<close>

definition live :: "gotime \<Rightarrow> shard \<Rightarrow> shard" where
  "live now m k = (case m k of Some e \<Rightarrow> if IsExpired now e then None else Some e | None \<Rightarrow> None)"

lemma IsExpired_iff: "IsExpired now e \<longleftrightarrow> \<not> IsZero (ExpiresAt e) \<and> After now (ExpiresAt e)"
  by (simp add: IsExpired_def)

lemma IsExpired_mono: "IsExpired now e \<Longrightarrow> now \<le> now' \<Longrightarrow> IsExpired now' e"
  by (auto simp: IsExpired_def After_def)

lemma live_None: "m k = None \<Longrightarrow> live now m k = None"
  by (simp add: live_def)

lemma live_upd_None [simp]: "live now (m(k := None)) = (live now m)(k := None)"
  by (auto simp: live_def fun_eq_iff)

lemma live_later: "now \<le> now' \<Longrightarrow> live now' (live now m) = live now' m"
  by (auto simp: live_def fun_eq_iff split: option.split dest: IsExpired_mono)

lemma Get_result: "fst (Get now now' key s) = map_option (\<lambda>e. (Value e, Version e)) (live now (contents s) key)"
  by (auto simp: Get_def contents_def live_def split: option.split)

text \<open>Reading may drop an expired entry, which no later reader could see anyway.\<close>

lemma Get_contents_live:
  "store_inv s \<Longrightarrow> now' \<le> t \<Longrightarrow> live t (contents (snd (Get now now' key s))) = live t (contents s)"
  by (auto simp: Get_def Get_reap_contents live_def fun_eq_iff split: option.split dest: IsExpired_mono)

definition visits :: "(nat \<Rightarrow> string list) \<Rightarrow> Store \<Rightarrow> bool" where
  "visits order s \<longleftrightarrow> (\<forall>i < ShardCount. distinct (order i) \<and> set (order i) = dom (shards s ! i))"

lemma reap_key_step:
  assumes "store_inv s" "i < ShardCount"
  shows "store_inv (reap_key now i k s) \<and>
    contents (reap_key now i k s) = (if shard_index k = i then (contents s)(k := live now (contents s) k) else contents s)"
proof (cases "(shards s ! i) k")
  case None
  with assms store_inv_lookup [OF assms] show ?thesis
    by (auto simp: reap_key_def live_def split: if_splits)
next
  case (Some e)
  then have i: "i = shard_index k" and k: "contents s k = Some e"
    using assms store_inv_home by (auto simp: contents_def getShard_def)
  have upd: "contents s = (contents s)(k \<mapsto> e)" using k by auto
  show ?thesis
    using Some k i upd remove_cell_inv [OF assms(1) k i] contents_cell [OF store_inv_len [OF assms(1)] i, of None] assms(1)
    by (auto simp: reap_key_def live_def IsExpired_iff)
qed

lemma reap_shard_step:
  assumes "store_inv s" "i < ShardCount"
  shows "store_inv (reap_shard now order i s) \<and> contents (reap_shard now order i s) =
    (\<lambda>k. if shard_index k = i \<and> k \<in> set (order i) then live now (contents s) k else contents s k)"
proof -
  have "store_inv (fold (reap_key now i) ks s) \<and> contents (fold (reap_key now i) ks s) =
      (\<lambda>k. if shard_index k = i \<and> k \<in> set ks then live now (contents s) k else contents s k)" for ks
    using assms(1)
  proof (induction ks arbitrary: s)
    case (Cons k ks)
    from Cons.IH [of "reap_key now i k s"] reap_key_step [OF Cons.prems assms(2), of now k]
    show ?case by (auto simp: fun_eq_iff live_def split: option.splits)
  qed simp
  then show ?thesis by (simp add: reap_shard_def)
qed

lemma reap_step:
  assumes "store_inv s" "n \<le> ShardCount"
  shows "store_inv (fold (reap_shard now order) [0..<n] s) \<and>
    contents (fold (reap_shard now order) [0..<n] s) =
    (\<lambda>k. if shard_index k < n \<and> k \<in> set (order (shard_index k)) then live now (contents s) k else contents s k)"
  using assms(2)
proof (induction n)
  case 0
  with assms(1) show ?case by simp
next
  case (Suc n)
  then show ?case
    using reap_shard_step [of "fold (reap_shard now order) [0..<n] s" n now order]
    by (auto simp: fun_eq_iff live_def less_Suc_eq)
qed

lemma reap_inv: "store_inv s \<Longrightarrow> store_inv (reap now order s)"
  using reap_step [of s ShardCount] by (simp add: reap_def)

lemma reap_contents:
  assumes "store_inv s" "visits order s"
  shows "contents (reap now order s) = live now (contents s)"
proof -
  have "contents s k = None" if "k \<notin> set (order (shard_index k))" for k
    using that assms(2) shard_index_less [of k] by (auto simp: visits_def contents_def getShard_def)
  then show ?thesis
    using reap_step [OF assms(1) order_refl] by (auto simp: reap_def fun_eq_iff live_None)
qed

lemma reaper_loop_inv: "store_inv s \<Longrightarrow> store_inv (reaper_loop es s)"
  by (induction es s rule: reaper_loop.induct) (auto simp: reap_inv)

section \<open>Versions\<close>

lemma NextVersion_increases:
  "lastVersion s \<noteq> - 1 \<Longrightarrow> lastVersion s < fst (NextVersion now s)"
  by (auto simp: NextVersion_def Let_def word_less_Suc not_le)

lemma NextVersion_last: "lastVersion (snd (NextVersion now s)) = fst (NextVersion now s)"
  by (simp add: NextVersion_def Let_def)

lemma visits_contents:
  assumes "store_inv s"
  shows "visits order s \<longleftrightarrow> (\<forall>i < ShardCount. distinct (order i) \<and>
    set (order i) = {k \<in> dom (contents s). shard_index k = i})"
proof -
  have "dom (shards s ! i) = {k \<in> dom (contents s). shard_index k = i}" if "i < ShardCount" for i
    using store_inv_lookup [OF assms that] by (auto simp: dom_def split: if_splits)
  then show ?thesis by (auto simp: visits_def)
qed

section \<open>Properties\<close>

lemma Set_apply_version:
  "store_inv s \<Longrightarrow> \<exists>c. contents (snd (Set_apply k v ver x s)) k = Some c \<and> Version c = fst (Set_apply k v ver x s)"
  by (auto simp: Set_apply_contents)
    (auto simp: Set_apply_def Let_def lww_put_def contents_def split: option.splits)

lemma Set_apply_result:
  "fst (Set_apply k v ver x s) = (case contents s k of None \<Rightarrow> ver | Some c \<Rightarrow> if ver < Version c then Version c else ver)"
  by (auto simp: Set_apply_def Let_def contents_def split: option.split)

lemma Delete_apply_result:
  "store_inv s \<Longrightarrow> snd (fst (Delete_apply k ver s)) \<longleftrightarrow>
     contents s k \<noteq> None \<and> contents (snd (Delete_apply k ver s)) k = None"
  by (simp add: Delete_apply_contents)
    (auto simp: Delete_apply_def lww_remove_def contents_def split: option.splits)

lemma log_append_error: "fst (log_append io t k v ver x s) = Some e \<Longrightarrow> \<exists>e'. e = WalAppendFailed e'"
  by (auto simp: log_append_def case_prod_beta split: option.splits)

lemma Set_phases:
  assumes "store_inv s" "Set io now now' key val ttl version s = (res, s')"
  obtains (refused) e where "res = Inl (WalAppendFailed e)" "store_inv s'" "contents s' = contents s"
  | (applied) s1 where "store_inv s1" "contents s1 = contents s"
      "res = Inr (fst (Set_apply key val (fst (assign_version now' version s)) (expiry_of now ttl) s1))"
      "s' = snd (Set_apply key val (fst (assign_version now' version s)) (expiry_of now ttl) s1)"
proof -
  let ?l = "log_append io RecordTypeSet key val (fst (assign_version now' version s)) (expiry_of now ttl)
    (snd (assign_version now' version s))"
  have inv: "store_inv (snd ?l)" "contents (snd ?l) = contents s" using assms(1) by simp_all
  show thesis
  proof (cases "fst ?l")
    case None
    with assms(2) show ?thesis by (intro applied [OF inv]) (simp_all add: Set_unfold Let_def case_prod_beta)
  next
    case (Some e)
    with assms(2) inv log_append_error [OF Some] show ?thesis
      by (auto simp: Set_unfold Let_def case_prod_beta intro: refused)
  qed
qed

lemma Delete_phases:
  assumes "store_inv s" "Delete io now key version s = (res, s')"
  obtains (refused) e where "res = Inl (WalAppendFailed e)" "store_inv s'" "contents s' = contents s"
  | (applied) s1 where "store_inv s1" "contents s1 = contents s"
      "res = Inr (fst (Delete_apply key (fst (assign_version now version s)) s1))"
      "s' = snd (Delete_apply key (fst (assign_version now version s)) s1)"
proof -
  let ?l = "log_append io RecordTypeDelete key [] (fst (assign_version now version s)) zero_time
    (snd (assign_version now version s))"
  have inv: "store_inv (snd ?l)" "contents (snd ?l) = contents s" using assms(1) by simp_all
  show thesis
  proof (cases "fst ?l")
    case None
    with assms(2) show ?thesis by (intro applied [OF inv]) (simp_all add: Delete_unfold Let_def case_prod_beta)
  next
    case (Some e)
    with assms(2) inv log_append_error [OF Some] show ?thesis
      by (auto simp: Delete_unfold Let_def case_prod_beta intro: refused)
  qed
qed

lemma Set_without_wal:
  "wal s = None \<Longrightarrow> version \<noteq> 0 \<Longrightarrow> Set io now now' key val ttl version s =
     (Inr (fst (Set_apply key val version (expiry_of now ttl) s)),
      snd (Set_apply key val version (expiry_of now ttl) s))"
  by (simp add: Set_unfold assign_version_def log_append_def Let_def)

lemma Delete_without_wal:
  "wal s = None \<Longrightarrow> version \<noteq> 0 \<Longrightarrow> Delete io now key version s =
     (Inr (fst (Delete_apply key version s)), snd (Delete_apply key version s))"
  by (simp add: Delete_unfold assign_version_def log_append_def Let_def)

lemma getShard_NewStore [simp]: "getShard k (NewStore w) = Map.empty"
  using shard_index_less [of k] by (simp add: getShard_def NewStore_def)

text \<open>A put into an empty store, for concrete instances.\<close>

lemma Set_NewStore:
  "version \<noteq> 0 \<Longrightarrow> fst (Set io now now' key val ttl version (NewStore None)) = Inr version"
  by (simp add: Set_without_wal Set_apply_def)

lemma apply_frame [simp]:
  "wal (snd (Set_apply k v ver e s)) = wal s" "wal (snd (Delete_apply k ver s)) = wal s"
  "lastVersion (snd (Set_apply k v ver e s)) = lastVersion s" "lastVersion (snd (Delete_apply k ver s)) = lastVersion s"
  by (auto simp: Set_apply_def Delete_apply_def Let_def add_keyCount_def set_shard_def split: option.split)

definition wal_ready :: "Store \<Rightarrow> bool" where
  "wal_ready s \<longleftrightarrow> (case wal s of None \<Rightarrow> True | Some w \<Rightarrow> wal_open w)"

lemma log_append_ready:
  "wal_ready s \<Longrightarrow> length k \<le> 65535 \<Longrightarrow>
     fst (log_append io_ok t k v ver x s) = None \<and> wal_ready (snd (log_append io_ok t k v ver x s))"
  by (auto simp: wal_ready_def log_append_def Append_io_ok split: option.splits)

lemma wal_reap_shard [simp]: "wal (reap_shard now order i s) = wal s"
proof -
  have "wal (reap_key now i k s) = wal s" for k s
    by (auto simp: reap_key_def add_keyCount_def split: option.split)
  then have "wal (fold (reap_key now i) ks s) = wal s" for ks s
    by (induction ks arbitrary: s) auto
  then show ?thesis by (simp add: reap_shard_def)
qed

lemma wal_reap [simp]: "wal (reap now order s) = wal s"
proof -
  have "wal (fold (reap_shard now order) is s) = wal s" for "is" s
    by (induction "is" arbitrary: s) auto
  then show ?thesis by (simp add: reap_def)
qed

lemma lastVersion_reap [simp]:
  "lastVersion (Get_reap now k s) = lastVersion s" "lastVersion (reap_shard now order i s) = lastVersion s"
  "lastVersion (reap now order s) = lastVersion s"
proof -
  show "lastVersion (Get_reap now k s) = lastVersion s"
    by (auto simp: Get_reap_def add_keyCount_def set_shard_def split: option.split)
  have "lastVersion (reap_key now i k s) = lastVersion s" for i k s
    by (auto simp: reap_key_def add_keyCount_def split: option.split)
  then have "lastVersion (fold (reap_key now i) ks s) = lastVersion s" for i ks s
    by (induction ks arbitrary: s) auto
  then have "lastVersion (reap_shard now order i s) = lastVersion s" for i s by (simp add: reap_shard_def)
  moreover from this have "lastVersion (fold (reap_shard now order) is s) = lastVersion s" for "is" s
    by (induction "is" arbitrary: s) auto
  ultimately show "lastVersion (reap_shard now order i s) = lastVersion s" "lastVersion (reap now order s) = lastVersion s"
    by (simp_all add: reap_def)
qed

lemma wal_ready_frame [simp]:
  "wal_ready (snd (assign_version now v s)) = wal_ready s" "wal_ready (snd (Set_apply k v' ver x s)) = wal_ready s"
  "wal_ready (snd (Delete_apply k ver s)) = wal_ready s"
  by (simp_all add: wal_ready_def)

lemma getShard_log_append [simp]: "getShard k (snd (log_append io t k' v ver x s)) = getShard k s"
  by (auto simp: log_append_def getShard_def case_prod_beta split: option.split)

lemma getShard_assign_version [simp]: "getShard k (snd (assign_version now v s)) = getShard k s"
  by (simp add: assign_version_def NextVersion_def Let_def getShard_def)

text \<open>A local write whose fresh version is below the stored one.\<close>

lemma Set_stale:
  assumes "contents s key = Some c" "lastVersion s + 1 < Version c" "word_of_int (UnixNano now') < Version c"
    and "wal_ready s" "length key \<le> 65535"
  shows "fst (Set io_ok now now' key val ttl 0 s) = Inr (Version c) \<and>
    contents (snd (Set io_ok now now' key val ttl 0 s)) = contents s"
proof -
  let ?v = "fst (assign_version now' 0 s)" and ?s = "snd (assign_version now' 0 s)"
  let ?l = "log_append io_ok RecordTypeSet key val ?v (expiry_of now ttl) ?s"
  have "?v < Version c" using assms(2,3) by (simp add: assign_version_def NextVersion_def Let_def)
  then have "Set_apply key val ?v (expiry_of now ttl) (snd ?l) = (Version c, snd ?l)"
    using assms(1) by (simp add: Set_apply_def Let_def) (simp add: contents_def)
  moreover have "fst ?l = None" using log_append_ready [of ?s key] assms(4,5) by simp
  ultimately show ?thesis by (simp add: Set_unfold Let_def case_prod_beta)
qed

text \<open>A store with one replicated write, used in concrete instances.\<close>

definition demo_store :: Store where
  "demo_store = snd (Set_apply ''k'' [7] 50 zero_time (NewStore None))"

lemma demo_store [simp]:
  "store_inv demo_store" "wal demo_store = None" "lastVersion demo_store = 0"
  "contents demo_store = [''k'' \<mapsto> \<lparr>Value = [7], Version = 50, ExpiresAt = zero_time\<rparr>]"
  unfolding demo_store_def
  by (simp_all add: Set_apply_inv Set_apply_contents NewStore_inv lww_put_def) (simp add: NewStore_def)

text \<open>
  C3. \<open>Set\<close> refines the last-writer-wins put. When it succeeds, the contents are those of the
  put with the version the call used (the given one, or a fresh one if it was 0), and the
  version it returns is the version now stored under the key; when the log refuses the record,
  the contents are untouched. The representation invariant is kept either way.
\<close>

theorem Set_refines_put:
  assumes "store_inv s" "Set io now now' key val ttl version s = (res, s')"
  shows "store_inv s' \<and> (case res of
      Inl e \<Rightarrow> contents s' = contents s \<and> (\<exists>e'. e = WalAppendFailed e')
    | Inr v \<Rightarrow>
        contents s' = lww_put Version key \<lparr>Value = val, Version = fst (assign_version now' version s),
          ExpiresAt = expiry_of now ttl\<rparr> (contents s) \<and>
        (\<exists>c. contents s' key = Some c \<and> Version c = v))"
  using assms
proof (cases rule: Set_phases)
  case (applied s1)
  then show ?thesis
    using Set_apply_inv [OF applied(1)] Set_apply_contents [OF applied(1)] Set_apply_version [OF applied(1)]
    by simp
qed simp

theorem Set_refines_put_witness:
  "(case fst (Set io_ok 10 10 ''k'' [7] 0 5 (NewStore None)) of
      Inl e \<Rightarrow> False
    | Inr v \<Rightarrow> v = 5) \<and> store_inv (snd (Set io_ok 10 10 ''k'' [7] 0 5 (NewStore None)))"
  using Set_refines_put [OF NewStore_inv surjective_pairing, of io_ok 10 10 "''k''" "[7]" 0 5 None]
  by (simp add: Set_NewStore)

text \<open>
  C13. \<open>Delete\<close> refines the last-writer-wins removal: a key whose stored version is not newer
  than the deletion is removed, and the boolean result says exactly whether a key was removed.
\<close>

theorem Delete_refines_remove:
  assumes "store_inv s" "Delete io now key version s = (res, s')"
  shows "store_inv s' \<and> (case res of
      Inl e \<Rightarrow> contents s' = contents s \<and> (\<exists>e'. e = WalAppendFailed e')
    | Inr (v, removed) \<Rightarrow>
        contents s' = lww_remove Version key (fst (assign_version now version s)) (contents s) \<and>
        (removed \<longleftrightarrow> contents s key \<noteq> None \<and> contents s' key = None))"
  using assms
proof (cases rule: Delete_phases)
  case (applied s1)
  then show ?thesis
    using Delete_apply_inv [OF applied(1)] Delete_apply_contents [OF applied(1)] Delete_apply_result [OF applied(1)]
    by (simp add: case_prod_beta)
qed simp

theorem Delete_refines_remove_witness:
  "fst (Delete io_ok 10 ''k'' 5 (NewStore None)) = Inr (5, False) \<and>
   contents (snd (Delete io_ok 10 ''k'' 5 (NewStore None))) ''k'' = None"
  using Delete_refines_remove [OF NewStore_inv surjective_pairing, of io_ok 10 "''k''" 5 None]
  by (simp add: Delete_without_wal Delete_apply_def lww_remove_def)

text \<open>
  \<open>Get\<close> returns value and version of the entry stored under the key if it has not expired
  at the time of the read, and nothing otherwise; the lazy reaping it does on the way changes
  nothing a later reader can see, and keeps the key count exact.
\<close>

theorem Get_returns_live:
  assumes "store_inv s" "now \<le> now'" "now' \<le> t"
  shows "fst (Get now now' key s) = map_option (\<lambda>e. (Value e, Version e)) (live now (contents s) key) \<and>
    live t (contents (snd (Get now now' key s))) = live t (contents s) \<and>
    store_inv (snd (Get now now' key s))"
  using assms Get_result Get_contents_live Get_inv by blast

theorem Get_returns_live_witness:
  "fst (Get 10 11 ''k'' (NewStore None)) = None \<and> store_inv (snd (Get 10 11 ''k'' (NewStore None)))"
  using Get_returns_live [OF NewStore_inv [of None], of 10 11 12 "''k''"] by (simp add: live_def)

lemma Set_then_Get:
  assumes "store_inv s" "Set io now now' key val ttl version s = (Inr v, s')"
    and "v = fst (assign_version now' version s)"
    and "ttl \<le> 0 \<or> t \<le> now + ttl"
  shows "fst (Get t t' key s') = Some (val, v) \<and>
    (\<forall>k. k \<noteq> key \<longrightarrow> fst (Get t t' k s') = fst (Get t t' k s))"
  using assms(1,2)
proof (cases rule: Set_phases)
  case (applied s1)
  let ?e = "\<lparr>Value = val, Version = v, ExpiresAt = expiry_of now ttl\<rparr>"
  have "\<not> v < Version c" if "contents s1 key = Some c" for c
    using applied(3) that by (auto simp: assms(3) [symmetric] Set_apply_def Let_def contents_def split: if_splits)
  then have "contents s' = (contents s)(key \<mapsto> ?e)"
    using applied by (simp add: Set_apply_contents lww_put_def flip: assms(3) split: option.split)
  moreover have "\<not> IsExpired t ?e" using assms(4) by (auto simp: IsExpired_def expiry_of_def go_defs zero_time_def)
  ultimately show ?thesis by (simp add: Get_result live_def)
qed simp

text \<open>
  Read your write: a \<open>Get\<close> of the key right after a \<open>Set\<close> that returned the version it
  used delivers the written value until the expiry time, and other keys are as before.
\<close>

theorem Get_after_Set:
  assumes "store_inv s" "Set io now now' key val ttl version s = (Inr v, s')"
    and "v = fst (assign_version now' version s)"
    and "ttl \<le> 0 \<or> t \<le> now + ttl"
  shows "fst (Get t t' key s') = Some (val, v) \<and>
    (\<forall>k. k \<noteq> key \<longrightarrow> fst (Get t t' k s') = fst (Get t t' k s))"
  using Set_then_Get [OF assms] .

theorem Get_after_Set_witness:
  "fst (Get 20 21 ''k'' (snd (Set io_ok 10 10 ''k'' [7] 30 5 (NewStore None)))) = Some ([7], 5)"
  using Get_after_Set [OF NewStore_inv [of None], of io_ok 10 10 "''k''" "[7]" 30 5 5
      "snd (Set io_ok 10 10 ''k'' [7] 30 5 (NewStore None))" 20 21]
  by (simp add: Set_without_wal Set_apply_def assign_version_def)

text \<open>
  C18. A round of the reaper removes exactly the entries that have expired, whatever order the
  maps are visited in: entries without expiry and live ones stay as they are, every expired one
  is gone, the store stays well formed, and \<open>Size\<close> is the number of live keys afterwards (as an
  \<open>int64\<close>). Neither the log nor the version counter is touched.
\<close>

theorem reap_removes_expired:
  assumes "store_inv s" "visits order s"
  shows "contents (reap now order s) = live now (contents s) \<and> store_inv (reap now order s) \<and>
    Size (reap now order s) = wrap64 (int (card (dom (live now (contents s))))) \<and>
    wal (reap now order s) = wal s \<and> lastVersion (reap now order s) = lastVersion s"
  using reap_contents [OF assms, of now] reap_inv [OF assms(1), of now order]
  by (simp add: Size_def store_inv_def)

theorem reap_removes_expired_witness:
  "\<exists>order. contents (reap 50 order (snd (Set_apply ''k'' [7] 5 40 (NewStore None)))) = Map.empty \<and>
     Size (reap 50 order (snd (Set_apply ''k'' [7] 5 40 (NewStore None)))) = 0"
proof -
  let ?s = "snd (Set_apply ''k'' [7] 5 40 (NewStore None))"
  let ?order = "\<lambda>i. if i = shard_index ''k'' then [''k''] else []"
  have inv: "store_inv ?s" by (rule Set_apply_inv) (rule NewStore_inv)
  have c: "contents ?s = [''k'' \<mapsto> \<lparr>Value = [7], Version = 5, ExpiresAt = 40\<rparr>]"
    using Set_apply_contents [OF NewStore_inv] by (simp add: lww_put_def)
  then have "visits ?order ?s" by (auto simp: visits_contents [OF inv])
  moreover have "live 50 (contents ?s) = Map.empty" by (rule ext) (simp add: c live_def IsExpired_def IsZero_def zero_time_def After_def)
  ultimately show ?thesis using reap_removes_expired [OF inv, of ?order 50] by (intro exI [of _ ?order]) (simp add: wrap64_def)
qed

end
