(* ===== verification/KV_Scan.thy ===== *)
theory KV_Scan
  imports KV_Store
begin

text \<open>
  Correctness of \<open>Scan\<close> (\<open>internal/store/store.go\<close>): the page it returns is a function of
  the set of live keys with the prefix, whatever order the shards and maps are visited in,
  and following \<open>nextCursor\<close> from the empty cursor enumerates that set in order.
\<close>

section \<open>The keys a scan gathers\<close>

definition matching :: "gotime \<Rightarrow> string \<Rightarrow> Store \<Rightarrow> string set" where
  "matching now prefix s = {k \<in> dom (live now (contents s)). HasPrefix k prefix}"

lemma finite_matching: "store_inv s \<Longrightarrow> finite (matching now prefix s)"
  unfolding matching_def store_inv_def
  by (rule finite_subset [where B = "dom (contents s)"]) (auto simp: live_def split: option.splits)

lemma set_scan_keys:
  assumes "store_inv s" "visits order s"
  shows "set (scan_keys now order prefix s) = matching now prefix s"
proof -
  have "k \<in> set (scan_keys now order prefix s) \<longleftrightarrow>
      (\<exists>i < ShardCount. \<exists>e. (shards s ! i) k = Some e \<and> \<not> IsExpired now e \<and> HasPrefix k prefix)" for k
    using assms(2) by (auto simp: scan_keys_def visits_def IsExpired_iff dom_def split: option.splits)
  also have "\<dots> k \<longleftrightarrow> k \<in> matching now prefix s" for k
  proof -
    have "(\<exists>i < ShardCount. \<exists>e. (shards s ! i) k = Some e \<and> Q e) \<longleftrightarrow> (\<exists>e. contents s k = Some e \<and> Q e)" for Q
      using store_inv_lookup [OF assms(1)] shard_index_less [of k] by (metis option.distinct(1))
    then show ?thesis by (auto simp: matching_def live_def split: option.splits if_splits)
  qed
  finally show ?thesis by blast
qed

lemma distinct_scan_keys:
  assumes "store_inv s" "visits order s"
  shows "distinct (scan_keys now order prefix s)"
proof -
  have home: "shard_index k = i" if "i < ShardCount" "k \<in> set (order i)" for i k
    using that assms store_inv_home by (fastforce simp: visits_def dom_def)
  let ?part = "\<lambda>P i. filter (P i) (order i)"
  have "distinct (concat (map (?part P) [0..<n]))" if "n \<le> ShardCount" for P n
    using that
  proof (induction n)
    case (Suc n)
    have "set (?part P n) \<inter> set (concat (map (?part P) [0..<n])) = {}"
      using home [of n] home Suc.prems by (auto simp: Suc_le_eq) (metis less_imp_neq less_trans)
    moreover have "distinct (?part P n)" using assms(2) Suc.prems by (simp add: visits_def)
    ultimately show ?case using Suc by auto
  qed simp
  then show ?thesis by (simp add: scan_keys_def)
qed

lemma sort_scan_keys:
  assumes "store_inv s" "visits order s"
  shows "sortStrings (scan_keys now order prefix s) = Some (sorted_list_of_set (matching now prefix s))"
  using store_sorter.sorter_total [of "scan_keys now order prefix s"]
    store_sorter.distinct_keys [OF _ distinct_scan_keys [OF assms]] set_scan_keys [OF assms]
  by metis

section \<open>The cursor\<close>

lemma scan_start_takeWhile:
  "ks \<noteq> [] \<Longrightarrow> i + length ks = n \<Longrightarrow>
     scan_start cursor n i start ks = i + length (takeWhile (\<lambda>k. \<not> cursor < k) ks)"
proof (induction ks arbitrary: i start)
  case (Cons k ks)
  then show ?case by (cases "ks = []") auto
qed simp

lemma scan_start_eq: "scan_start cursor (length ks) 0 0 ks = length (takeWhile (\<lambda>k. \<not> cursor < k) ks)"
  using scan_start_takeWhile [of ks 0 "length ks"] by (cases "ks = []") auto

lemma sorted_dropWhile_filter:
  "sorted ks \<Longrightarrow> dropWhile (\<lambda>k. \<not> (c :: 'a::linorder) < k) ks = filter (\<lambda>k. c < k) ks"
proof (induction ks)
  case (Cons k ks)
  show ?case
  proof (cases "c < k")
    case True
    with Cons.prems have "\<forall>x \<in> set ks. c < x" by (auto intro: less_le_trans)
    with True show ?thesis by (simp add: filter_id_conv)
  qed (use Cons in simp)
qed simp

text \<open>The page a scan should return.\<close>

definition after_cursor :: "string \<Rightarrow> string list \<Rightarrow> string list" where
  "after_cursor cursor keys = (if cursor = [] then keys else filter (\<lambda>k. cursor < k) keys)"

definition page :: "int \<Rightarrow> string list \<Rightarrow> string list option \<times> string" where
  "page limit rest =
     (if rest = [] then (None, [])
      else if nat limit < length rest then (Some (take (nat limit) rest), last (take (nat limit) rest))
      else (Some rest, []))"

lemma Scan_page:
  assumes inv: "store_inv s" "visits order s" and limit: "0 < limit"
    and small: "int (card (matching now prefix s)) + limit < 2 ^ 63"
  shows "Scan now order prefix limit cursor s =
     Inr (page limit (after_cursor cursor (sorted_list_of_set (matching now prefix s))))"
proof -
  let ?keys = "sorted_list_of_set (matching now prefix s)"
  let ?start = "if cursor \<noteq> [] then length (takeWhile (\<lambda>k. \<not> cursor < k) ?keys) else 0"
  have len: "length ?keys = card (matching now prefix s)" by simp
  have le: "?start \<le> length ?keys" using length_takeWhile_le [of "\<lambda>k. \<not> cursor < k" ?keys] by auto
  have rest: "drop ?start ?keys = after_cursor cursor ?keys"
    by (auto simp: after_cursor_def sorted_dropWhile_filter simp flip: dropWhile_eq_drop)
  then have rlen: "length (after_cursor cursor ?keys) = length ?keys - ?start" by (metis length_drop)
  have wrap: "wrap64 (int ?start + limit) = int ?start + limit"
    using limit small le len by (intro wrap64_id) auto
  have idx: "(if cursor \<noteq> [] then int (scan_start cursor (length ?keys) 0 0 ?keys) else 0) = int ?start"
    unfolding scan_start_eq by simp
  consider (empty) "?start = length ?keys" | (last) "?start < length ?keys" "length ?keys \<le> ?start + nat limit"
    | (more) "?start + nat limit < length ?keys"
    using le by linarith
  then show ?thesis
  proof cases
    case empty
    then have "after_cursor cursor ?keys = []" using rlen by simp
    then show ?thesis using empty unfolding Scan_def sort_scan_keys [OF inv] option.case Let_def idx
      by (simp add: page_def)
  next
    case last
    have e: "(if int ?start + limit > int (length ?keys) then int (length ?keys) else int ?start + limit) =
        int (length ?keys)" using last limit by auto
    have m: "subslice ?start (length ?keys) ?keys = after_cursor cursor ?keys"
      by (simp only: subslice_def rest) (simp add: rlen)
    show ?thesis using last limit unfolding Scan_def sort_scan_keys [OF inv] option.case Let_def idx wrap e
      by (simp only: nat_int m) (use rlen in \<open>auto simp: page_def\<close>)
  next
    case more
    have e: "(if int ?start + limit > int (length ?keys) then int (length ?keys) else int ?start + limit) =
        int (?start + nat limit)" using more limit by auto
    have m: "subslice ?start (?start + nat limit) ?keys = take (nat limit) (after_cursor cursor ?keys)"
      by (simp only: subslice_def rest) simp
    have ne: "take (nat limit) (after_cursor cursor ?keys) \<noteq> []" using more limit rlen by auto
    show ?thesis using more limit ne rlen unfolding Scan_def sort_scan_keys [OF inv] option.case Let_def idx wrap e
      by (simp only: nat_int m) (auto simp: page_def)
  qed
qed

section \<open>Pagination\<close>

text \<open>
  A client that follows \<open>nextCursor\<close> until it is empty; \<open>orders\<close> gives the visiting order
  of each successive call, \<open>fuel\<close> bounds the number of calls.
\<close>

fun follow_cursor :: "nat \<Rightarrow> gotime \<Rightarrow> (nat \<Rightarrow> nat \<Rightarrow> string list) \<Rightarrow> string \<Rightarrow> int \<Rightarrow> string \<Rightarrow> Store \<Rightarrow>
  string list option" where
  "follow_cursor 0 now orders prefix limit cursor s = None"
| "follow_cursor (Suc fuel) now orders prefix limit cursor s =
     (case Scan now (orders fuel) prefix limit cursor s of
        Inl _ \<Rightarrow> None
      | Inr (keys, nextCursor) \<Rightarrow>
          (let got = (case keys of None \<Rightarrow> [] | Some ks \<Rightarrow> ks)
           in if nextCursor = [] then Some got
              else map_option (\<lambda>more. got @ more) (follow_cursor fuel now orders prefix limit nextCursor s)))"

lemma after_last_take:
  assumes "sorted ks" "distinct ks" "0 < n" "n < length ks"
  shows "filter (\<lambda>k. last (take n ks) < k) ks = drop n ks"
proof -
  have l: "last (take n ks) = ks ! (n - 1)" using assms(3,4) by (cases ks) (auto simp: last_conv_nth min_def)
  have ord: "sorted_wrt (<) ks" using assms by (simp add: strict_sorted_iff)
  have "filter (\<lambda>k. ks ! (n - 1) < k) (take n ks) = []"
    using assms ord by (auto simp: filter_empty_conv in_set_conv_nth not_less sorted_nth_mono)
  moreover have "filter (\<lambda>k. ks ! (n - 1) < k) (drop n ks) = drop n ks"
    using assms ord by (auto simp: filter_id_conv in_set_conv_nth sorted_wrt_nth_less)
  ultimately show ?thesis using l by (metis append_Nil append_take_drop_id filter_append)
qed

lemma follow_cursor_enumerates:
  assumes inv: "store_inv s" "\<And>n. visits (orders n) s" and limit: "0 < limit"
    and small: "int (card (matching now prefix s)) + limit < 2 ^ 63"
    and nonempty: "[] \<notin> matching now prefix s"
    and fuel: "length (after_cursor cursor (sorted_list_of_set (matching now prefix s))) < fuel"
  shows "follow_cursor fuel now orders prefix limit cursor s =
    Some (after_cursor cursor (sorted_list_of_set (matching now prefix s)))"
  using fuel
proof (induction fuel arbitrary: cursor)
  case (Suc fuel)
  let ?keys = "sorted_list_of_set (matching now prefix s)"
  let ?rest = "after_cursor cursor ?keys" and ?n = "nat limit"
  have scan: "Scan now (orders fuel) prefix limit cursor s = Inr (page limit ?rest)"
    using Scan_page [OF inv limit small] .
  have fin: "finite (matching now prefix s)" using finite_matching inv(1) .
  have rest: "sorted ?rest" "distinct ?rest" "set ?rest \<subseteq> matching now prefix s"
    using fin by (auto simp: after_cursor_def sorted_wrt_filter)
  show ?case
  proof (cases "?n < length ?rest")
    case False
    then show ?thesis using scan limit by (simp add: page_def)
  next
    case True
    let ?next = "last (take ?n ?rest)"
    have ne: "take ?n ?rest \<noteq> []" using True limit by auto
    then have "?next \<in> set ?rest" by (metis last_in_set in_set_takeD)
    then have nx: "?next \<noteq> []" "?next \<in> matching now prefix s" "cursor = [] \<or> cursor < ?next"
      using rest(3) nonempty by (auto simp: after_cursor_def split: if_splits)
    then have "after_cursor ?next ?keys = filter (\<lambda>k. ?next < k) ?rest"
      by (auto simp: after_cursor_def intro!: filter_cong dest: less_trans)
    also have "\<dots> = drop ?n ?rest" using rest True limit by (intro after_last_take) auto
    finally have drop: "after_cursor ?next ?keys = drop ?n ?rest" .
    then have "follow_cursor fuel now orders prefix limit ?next s = Some (drop ?n ?rest)"
      using Suc.IH [of ?next] Suc.prems True limit by simp
    then show ?thesis using scan True nx(1) ne by (auto simp: page_def)
  qed
qed simp

section \<open>Properties\<close>

definition demo_order :: "nat \<Rightarrow> string list" where
  "demo_order i = (if i = shard_index ''k'' then [''k''] else [])"

lemma demo_order [simp]: "visits demo_order demo_store"
  by (auto simp: visits_contents demo_order_def)

lemma demo_matching [simp]: "matching now [] demo_store = {''k''}"
  by (auto simp: matching_def live_def IsExpired_def IsZero_def HasPrefix_def split: if_splits)

text \<open>
  \<open>Scan\<close> returns the first \<open>limit\<close> of the live keys with the prefix that follow the
  cursor, in order, and the last key of the page as the next cursor exactly when more keys
  remain, independently of the order in which shards and maps are visited. It never panics
  for a positive limit.
\<close>

theorem Scan_returns_page:
  assumes "store_inv s" "visits order s" "0 < limit" "int (card (matching now prefix s)) + limit < 2 ^ 63"
  shows "Scan now order prefix limit cursor s =
    Inr (page limit (after_cursor cursor (sorted_list_of_set (matching now prefix s))))"
  using Scan_page [OF assms] .

theorem Scan_returns_page_witness: "Scan 5 demo_order [] 10 [] demo_store = Inr (Some [''k''], [])"
  using Scan_returns_page [of demo_store demo_order 10 5 "[]" "[]"]
  by (simp add: page_def after_cursor_def)

text \<open>
  C7. Pagination terminates and is complete: a client that starts with the empty cursor and
  follows the cursor it is given until it is empty reads every live key with the prefix once,
  in order, within one call more than there are keys. (The empty key has to be absent: as a
  cursor it would be indistinguishable from the end.)
\<close>

theorem pagination_enumerates:
  assumes "store_inv s" "\<And>n. visits (orders n) s" "0 < limit"
    and "int (card (matching now prefix s)) + limit < 2 ^ 63" "[] \<notin> matching now prefix s"
    and "card (matching now prefix s) < fuel"
  shows "follow_cursor fuel now orders prefix limit [] s = Some (sorted_list_of_set (matching now prefix s))"
  using follow_cursor_enumerates [OF assms(1-5), of "[]" fuel] assms(6) by (simp add: after_cursor_def)

theorem pagination_enumerates_witness:
  "follow_cursor 2 5 (\<lambda>_. demo_order) [] 1 [] demo_store = Some [''k'']"
  using pagination_enumerates [of demo_store "\<lambda>_. demo_order" 1 5 "[]" 2] by simp

end
