(* ===== verification/KV_Snapshot.thy ===== *)
theory KV_Snapshot
  imports KV_Scan
begin

text \<open>
  Snapshots (\<open>internal/store/snapshot.go\<close>): \<open>CreateSnapshot\<close>, which writes the live entries
  to a temporary file, renames it over \<open>snapshot.bin\<close> and truncates the log, and
  \<open>LoadSnapshot\<close>, which reads it back. The data directory is a record of the two snapshot
  files; each system call that can fail is a step of \<open>snap_step\<close>, and the argument \<open>fails\<close>
  says which of them do.
\<close>

section \<open>Creating a snapshot\<close>

record disk =
  snap_file :: "bytes option"
  snap_tmp :: "bytes option"

datatype snap_step = OpenTmp | WriteHeader | WriteRecord nat | SyncTmp | CloseTmp | RenameTmp
  | TruncateWal | SeekWal

definition SnapshotMagic :: string where
  "SnapshotMagic = ''KVSN''"

definition SnapshotVersion :: uint16 where
  "SnapshotVersion = 1"

definition snapshot_header :: bytes where
  "snapshot_header =
     (let header = replicate 6 0;
          header = put_at 0 (bytes_of SnapshotMagic) header
      in put_at 4 (PutUint16 SnapshotVersion) header)"

text \<open>The entry in the WAL format, as a SET record.\<close>

definition snapshot_buf :: "string \<Rightarrow> Entry \<Rightarrow> bytes" where
  "snapshot_buf k entry = record_buf RecordTypeSet k (Value entry) (Version entry) (ExpiresAt entry)"

definition snapshot_records :: "gotime \<Rightarrow> (nat \<Rightarrow> string list) \<Rightarrow> Store \<Rightarrow> bytes list" where
  "snapshot_records now order s =
     concat (map (\<lambda>i. concat (map (\<lambda>k.
         (case (shards s ! i) k of
            None \<Rightarrow> []
          | Some entry \<Rightarrow>
              (if \<not> IsZero (ExpiresAt entry) \<and> After now (ExpiresAt entry) then []
               else [snapshot_buf k entry])))
       (order i))) [0..<ShardCount])"

fun write_records :: "(snap_step \<Rightarrow> bool) \<Rightarrow> nat \<Rightarrow> bytes list \<Rightarrow> bytes \<Rightarrow> bytes option" where
  "write_records fails n [] file = Some file"
| "write_records fails n (buf # bufs) file =
     (if fails (WriteRecord n) then None else write_records fails (Suc n) bufs (file @ buf))"

definition CreateSnapshot :: "(snap_step \<Rightarrow> bool) \<Rightarrow> gotime \<Rightarrow> (nat \<Rightarrow> string list) \<Rightarrow> Store \<Rightarrow> disk \<Rightarrow>
  go_error option \<times> Store \<times> disk" where
  "CreateSnapshot fails now order s d =
     (case wal s of
        None \<Rightarrow> (Some SnapshotWithoutWal, s, d)
      | Some w \<Rightarrow>
          (let abort = (\<lambda>e. (Some e, s, d\<lparr>snap_tmp := None\<rparr>)) in
           if fails OpenTmp then (Some SnapOpenFailed, s, d)
           else if fails WriteHeader then abort SnapWriteHeaderFailed
           else
             (case write_records fails 0 (snapshot_records now order s) snapshot_header of
                None \<Rightarrow> abort SnapWriteRecordFailed
              | Some file \<Rightarrow>
                  (if fails SyncTmp then abort SnapSyncFailed
                   else if fails CloseTmp then abort SnapCloseFailed
                   else if fails RenameTmp then abort SnapRenameFailed
                   else
                     (let d' = d\<lparr>snap_file := Some file, snap_tmp := None\<rparr> in
                      if \<not> wal_open w \<or> fails TruncateWal then (Some SnapTruncateFailed, s, d')
                      else
                        (let w' = w\<lparr>wal_file := []\<rparr> in
                         if fails SeekWal then (Some SnapSeekFailed, s\<lparr>wal := Some w'\<rparr>, d')
                         else (None, s\<lparr>wal := Some (w'\<lparr>wal_size := 0\<rparr>)\<rparr>, d')))))))"

section \<open>Loading a snapshot\<close>

text \<open>The body of the loop after a record is parsed, with the local \<open>loadedCount\<close>.\<close>

definition load_record :: "wal_rec \<Rightarrow> Store \<times> int \<Rightarrow> Store \<times> int" where
  "load_record r = (\<lambda>(s, loadedCount).
     (if rec_type r = RecordTypeSet then
        (let key = rec_key r;
             current = getShard key s key;
             exists = (current \<noteq> None)
         in if \<not> exists \<or> rec_version r > Version (the current) then
              (let loadedCount = (if \<not> exists then wrap64 (loadedCount + 1) else loadedCount);
                   s = set_shard key ((getShard key s)(key \<mapsto>
                         \<lparr>Value = rec_value r, Version = rec_version r, ExpiresAt = rec_expires r\<rparr>)) s;
                   s = (if rec_version r > lastVersion s then s\<lparr>lastVersion := rec_version r\<rparr> else s)
               in (s, loadedCount))
            else (s, loadedCount))
      else (s, loadedCount)))"

function load_loop :: "nat option \<Rightarrow> bytes \<Rightarrow> nat \<Rightarrow> Store \<times> int \<Rightarrow> go_error option \<times> (Store \<times> int)" where
  "load_loop fault file pos st =
     (case read_record fault file pos of
        RecEnd \<Rightarrow> (None, st)
      | RecFail e \<Rightarrow> (Some e, st)
      | RecOk r pos' \<Rightarrow> load_loop fault file pos' (load_record r st))"
  by pat_completeness auto
termination
  by (relation "measure (\<lambda>(fault, file, pos, st). length file - pos)")
    (auto dest!: read_record_progress)

declare load_loop.simps [simp del]

definition LoadSnapshot :: "bool \<Rightarrow> nat option \<Rightarrow> bytes option \<Rightarrow> Store \<Rightarrow> (go_error + bool) \<times> Store" where
  "LoadSnapshot open_ok fault content s =
     (case content of
        None \<Rightarrow> (Inr False, s)
      | Some file \<Rightarrow>
          (if \<not> open_ok then (Inl SnapOpenFailed, s)
           else
             (case ReadFull fault file 0 6 of
                ReadOk header \<Rightarrow>
                  (if string_of (subslice 0 4 header) \<noteq> SnapshotMagic then (Inl SnapBadMagic, s)
                   else if Uint16 (subslice 4 6 header) \<noteq> SnapshotVersion
                   then (Inl (SnapBadVersion (Uint16 (subslice 4 6 header))), s)
                   else
                     (case load_loop fault file 6 (s, 0) of
                        (Some e, (s', _)) \<Rightarrow> (Inl e, s')
                      | (None, (s', loadedCount)) \<Rightarrow> (Inr True, s'\<lparr>keyCount := loadedCount\<rparr>)))
              | _ \<Rightarrow> (Inl SnapReadHeaderFailed, s))))"

section \<open>Loading what was written\<close>

definition load_step :: "wal_rec \<Rightarrow> Store \<times> int \<Rightarrow> go_error option \<times> (Store \<times> int)" where
  "load_step r st = (None, load_record r st)"

interpretation snap_log: record_log encode rec_ok "\<lambda>t. length t < 8" ApplyFailed load_step
    "load_loop None"
proof
  fix r xs ys st
  assume "rec_ok r"
  then show "load_loop None (xs @ encode r @ ys) (length xs) st =
      (case load_step r st of
         (Some e, s') \<Rightarrow> (Some (ApplyFailed e), s')
       | (None, s') \<Rightarrow> load_loop None (xs @ encode r @ ys) (length xs + length (encode r)) s')"
    by (subst load_loop.simps) (simp add: read_record_encode load_step_def)
next
  fix t :: bytes and xs st
  assume "length t < 8"
  then show "load_loop None (xs @ t) (length xs) st = (None, st)"
    by (subst load_loop.simps) (simp add: read_record_short)
qed

lemma run_load_step: "run_records w load_step rs st = (None, fold load_record rs st)"
  by (induction rs arbitrary: st) (auto simp: load_step_def)

lemma header_layout: "snapshot_header = bytes_of SnapshotMagic @ PutUint16 SnapshotVersion"
  by (simp add: snapshot_header_def put_at_def Let_def SnapshotMagic_def bytes_of_def)

lemma length_header [simp]: "length snapshot_header = 6"
  by (simp add: header_layout SnapshotMagic_def)

lemma LoadSnapshot_log:
  assumes "list_all rec_ok rs" "length t < 8"
  shows "LoadSnapshot True None (Some (snapshot_header @ concat (map encode rs) @ t)) s =
    (case fold load_record rs (s, 0) of (s', n) \<Rightarrow> (Inr True, s'\<lparr>keyCount := n\<rparr>))"
proof -
  let ?file = "snapshot_header @ concat (map encode rs) @ t"
  have head: "ReadFull None ?file 0 6 = ReadOk snapshot_header"
    using ReadFull_append [of "[]" ?file 6] by simp
  have magic: "string_of (subslice 0 4 snapshot_header) = SnapshotMagic"
    "Uint16 (subslice 4 6 snapshot_header) = SnapshotVersion"
    by (simp_all add: header_layout subslice_def SnapshotMagic_def)
  have "load_loop None ?file 6 (s, 0) = (None, fold load_record rs (s, 0))"
    using snap_log.loop_log [OF assms, of snapshot_header "(s, 0)"] by (simp add: run_load_step)
  with head magic show ?thesis
    by (simp add: LoadSnapshot_def case_prod_beta)
qed

section \<open>What loading does to the contents\<close>

definition entry_of :: "wal_rec \<Rightarrow> Entry" where
  "entry_of r = \<lparr>Value = rec_value r, Version = rec_version r, ExpiresAt = rec_expires r\<rparr>"

definition set_rec :: "string \<Rightarrow> Entry \<Rightarrow> wal_rec" where
  "set_rec k e = \<lparr>rec_type = RecordTypeSet, rec_key = k, rec_value = Value e,
     rec_version = Version e, rec_expires = ExpiresAt e\<rparr>"

definition load_effect :: "wal_rec \<Rightarrow> shard \<Rightarrow> shard" where
  "load_effect r m =
     (if rec_type r = RecordTypeSet then
        (case m (rec_key r) of
           None \<Rightarrow> m(rec_key r \<mapsto> entry_of r)
         | Some c \<Rightarrow> if Version c < rec_version r then m(rec_key r \<mapsto> entry_of r) else m)
      else m)"

text \<open>
  What holds while loading: the store is well formed once the running count is taken as its
  key count, and no entry is newer than \<open>lastVersion\<close>.
\<close>

definition versions_seen :: "Store \<Rightarrow> bool" where
  "versions_seen s \<longleftrightarrow> (\<forall>k e. contents s k = Some e \<longrightarrow> Version e \<le> lastVersion s)"

definition load_inv :: "Store \<times> int \<Rightarrow> bool" where
  "load_inv st \<longleftrightarrow> store_inv ((fst st)\<lparr>keyCount := snd st\<rparr>) \<and> versions_seen (fst st)"

lemma set_shard_keyCount: "(set_shard k sh s)\<lparr>keyCount := n\<rparr> = set_shard k sh (s\<lparr>keyCount := n\<rparr>)"
  by (simp add: set_shard_def)

lemma getShard_keyCount [simp]: "getShard k (s\<lparr>keyCount := n\<rparr>) = getShard k s"
  by (simp add: getShard_def)

lemma lastVersion_set_shard [simp]: "lastVersion (set_shard k sh s) = lastVersion s"
  by (simp add: set_shard_def)

lemma load_store_inv:
  assumes "store_inv (s\<lparr>keyCount := n\<rparr>)"
  shows "store_inv ((set_shard k ((getShard k s)(k \<mapsto> e)) s)
    \<lparr>keyCount := (if contents s k = None then wrap64 (n + 1) else n)\<rparr>)"
proof (cases "contents s k")
  case None
  with insert_cell_inv [OF assms, of k e] show ?thesis
    by (simp add: set_shard_keyCount add_keyCount_def)
next
  case (Some c)
  with replace_cell_inv [OF assms, of k c e] show ?thesis by (simp add: set_shard_keyCount)
qed

lemma store_inv_lastVersion_keyCount [simp]:
  "store_inv (s\<lparr>lastVersion := v, keyCount := n\<rparr>) = store_inv (s\<lparr>keyCount := n\<rparr>)" for s :: Store
proof -
  have "s\<lparr>lastVersion := v, keyCount := n\<rparr> = s\<lparr>keyCount := n, lastVersion := v\<rparr>" by simp
  then show ?thesis by (simp only: store_inv_frame)
qed

definition raise_lastVersion :: "uint64 \<Rightarrow> Store \<Rightarrow> Store" where
  "raise_lastVersion v s = (if v > lastVersion s then s\<lparr>lastVersion := v\<rparr> else s)"

lemma raise_lastVersion_frame [simp]:
  "contents (raise_lastVersion v s) = contents s" "wal (raise_lastVersion v s) = wal s"
  "store_inv ((raise_lastVersion v s)\<lparr>keyCount := n\<rparr>) = store_inv (s\<lparr>keyCount := n\<rparr>)"
  "lastVersion (raise_lastVersion v s) = max v (lastVersion s)"
  by (auto simp: raise_lastVersion_def max_def)

lemma wal_set_shard [simp]: "wal (set_shard k sh s) = wal s"
  by (simp add: set_shard_def)

lemma load_record_cases:
  "load_record r (s, n) =
     (if rec_type r = RecordTypeSet \<and>
         (contents s (rec_key r) = None \<or> Version (the (contents s (rec_key r))) < rec_version r)
      then (raise_lastVersion (rec_version r)
              (set_shard (rec_key r) ((getShard (rec_key r) s)(rec_key r \<mapsto> entry_of r)) s),
            if contents s (rec_key r) = None then wrap64 (n + 1) else n)
      else (s, n))"
  by (auto simp: load_record_def Let_def contents_def entry_of_def raise_lastVersion_def)

lemma load_record_step:
  assumes "load_inv (s, n)"
  shows "load_inv (load_record r (s, n)) \<and> contents (fst (load_record r (s, n))) = load_effect r (contents s) \<and>
    wal (fst (load_record r (s, n))) = wal s"
proof (cases "rec_type r = RecordTypeSet \<and>
    (contents s (rec_key r) = None \<or> Version (the (contents s (rec_key r))) < rec_version r)")
  case True
  have inv: "store_inv (s\<lparr>keyCount := n\<rparr>)" and seen: "versions_seen s"
    using assms by (auto simp: load_inv_def)
  have len: "length (shards s) = ShardCount" using store_inv_len [OF inv] by simp
  have "Version e \<le> max (rec_version r) (lastVersion s)"
    if "((contents s)(rec_key r \<mapsto> entry_of r)) k = Some e" for k e
    using seen that by (auto simp: versions_seen_def entry_of_def max.coboundedI2 split: if_splits)
  with True load_store_inv [OF inv, of "rec_key r" "entry_of r"] len show ?thesis
    by (auto simp: load_record_cases load_inv_def versions_seen_def load_effect_def split: option.splits)
next
  case False
  then show ?thesis
    using assms by (auto simp: load_record_cases load_effect_def split: option.splits)
qed

lemma load_records:
  "load_inv st \<Longrightarrow> load_inv (fold load_record rs st) \<and>
     contents (fst (fold load_record rs st)) = fold load_effect rs (contents (fst st)) \<and>
     wal (fst (fold load_record rs st)) = wal (fst st)"
proof (induction rs arbitrary: st)
  case (Cons r rs)
  from Cons.IH [of "load_record r st"] load_record_step [of "fst st" "snd st" r] Cons.prems
  show ?case by simp
qed simp

lemma load_effect_distinct:
  assumes "distinct ks" "set ks \<inter> dom m = {}"
  shows "fold load_effect (map (\<lambda>k. set_rec k (f k)) ks) m = (\<lambda>k. if k \<in> set ks then Some (f k) else m k)"
  using assms
proof (induction ks arbitrary: m)
  case (Cons k ks)
  have "load_effect (set_rec k (f k)) m = m(k \<mapsto> f k)"
    using Cons.prems by (auto simp: load_effect_def set_rec_def entry_of_def split: option.split)
  moreover have "fold load_effect (map (\<lambda>k. set_rec k (f k)) ks) (m(k \<mapsto> f k)) =
      (\<lambda>k'. if k' \<in> set ks then Some (f k') else (m(k \<mapsto> f k)) k')"
    using Cons.prems by (intro Cons.IH) (auto split: if_splits)
  ultimately have "fold load_effect (map (\<lambda>k. set_rec k (f k)) (k # ks)) m =
      (\<lambda>k'. if k' \<in> set ks then Some (f k') else (m(k \<mapsto> f k)) k')"
    by simp
  with Cons.prems show ?case by (auto simp: fun_eq_iff)
qed simp

section \<open>Snapshot round trip\<close>

text \<open>The records a snapshot holds: one SET record per live key, in visiting order.\<close>

definition snapshot_recs :: "gotime \<Rightarrow> (nat \<Rightarrow> string list) \<Rightarrow> Store \<Rightarrow> wal_rec list" where
  "snapshot_recs now order s = map (\<lambda>k. set_rec k (the (contents s k))) (scan_keys now order [] s)"

lemma snapshot_buf_encode: "snapshot_buf k e = encode (set_rec k e)"
  by (simp add: snapshot_buf_def encode_def set_rec_def)

lemma HasPrefix_Nil [simp]: "HasPrefix k []"
  by (simp add: HasPrefix_def)

lemma concat_map_filter: "concat (map (\<lambda>k. if P k then [f k] else []) ks) = map f (filter P ks)"
  by (induction ks) auto

lemma snapshot_records_encode:
  assumes "store_inv s"
  shows "snapshot_records now order s = map encode (snapshot_recs now order s)"
proof -
  let ?keep = "\<lambda>i k. case (shards s ! i) k of None \<Rightarrow> False
     | Some entry \<Rightarrow> \<not> (\<not> IsZero (ExpiresAt entry) \<and> After now (ExpiresAt entry)) \<and> HasPrefix k []"
  let ?rec = "\<lambda>k. encode (set_rec k (the (contents s k)))"
  have one: "(case (shards s ! i) k of None \<Rightarrow> []
       | Some entry \<Rightarrow> if \<not> IsZero (ExpiresAt entry) \<and> After now (ExpiresAt entry) then []
           else [snapshot_buf k entry]) = (if ?keep i k then [?rec k] else [])" if "i < ShardCount" for i k
    using store_inv_lookup [OF assms that, of k] by (auto simp: snapshot_buf_encode split: option.split)
  have "snapshot_records now order s = concat (map (\<lambda>i. map ?rec (filter (?keep i) (order i))) [0..<ShardCount])"
    unfolding snapshot_records_def
    by (rule arg_cong [where f = concat], rule map_cong [OF refl])
      (simp only: one concat_map_filter set_upt atLeastLessThan_iff)
  also have "\<dots> = map encode (snapshot_recs now order s)"
    by (simp add: snapshot_recs_def scan_keys_def map_concat o_def)
  finally show ?thesis .
qed

definition entries_ok :: "Store \<Rightarrow> bool" where
  "entries_ok s \<longleftrightarrow> (\<forall>k e. contents s k = Some e \<longrightarrow> rec_ok (set_rec k e))"

lemma live_Some: "live now m k = Some e \<longleftrightarrow> m k = Some e \<and> \<not> IsExpired now e"
  by (auto simp: live_def split: option.splits if_splits)

lemma snapshot_recs_ok:
  assumes "store_inv s" "visits order s" "entries_ok s"
  shows "list_all rec_ok (snapshot_recs now order s)"
  using assms set_scan_keys [OF assms(1,2), of now "[]"]
  by (auto simp: snapshot_recs_def list_all_iff matching_def live_Some entries_ok_def)

lemma snapshot_recs_load:
  assumes "store_inv s" "visits order s"
  shows "fold load_effect (snapshot_recs now order s) Map.empty = live now (contents s)"
proof -
  have set: "set (scan_keys now order [] s) = dom (live now (contents s))"
    using set_scan_keys [OF assms, of now "[]"] by (auto simp: matching_def)
  have "fold load_effect (snapshot_recs now order s) Map.empty =
      (\<lambda>k. if k \<in> set (scan_keys now order [] s) then Some (the (contents s k)) else None)"
    unfolding snapshot_recs_def
    using load_effect_distinct [OF distinct_scan_keys [OF assms], where m = Map.empty and f = "\<lambda>k. the (contents s k)"] by simp
  then show ?thesis by (auto simp: set fun_eq_iff live_def split: option.splits if_splits)
qed

lemma write_records_all: "\<forall>n. \<not> fails (WriteRecord n) \<Longrightarrow> write_records fails n bufs out = Some (out @ concat bufs)"
  by (induction bufs arbitrary: n out) auto

lemma write_records_Some: "write_records fails n bufs out = Some out' \<Longrightarrow> out' = out @ concat bufs"
  by (induction bufs arbitrary: n out) (fastforce split: if_splits)+

lemma versions_seen_keyCount [simp]: "versions_seen (s\<lparr>keyCount := n\<rparr>) = versions_seen s"
  by (simp add: versions_seen_def)

lemma load_inv_NewStore: "load_inv (NewStore w, 0)"
proof -
  have "(NewStore w)\<lparr>keyCount := 0\<rparr> = NewStore w" by (simp add: NewStore_def)
  then show ?thesis using NewStore_inv by (simp add: load_inv_def versions_seen_def)
qed

text \<open>Loading a file of records into an empty store.\<close>

lemma LoadSnapshot_fresh:
  assumes "list_all rec_ok rs" "length t < 8"
    and "LoadSnapshot True None (Some (snapshot_header @ concat (map encode rs) @ t)) (NewStore w) = (r, s')"
  shows "r = Inr True \<and> store_inv s' \<and> versions_seen s' \<and> contents s' = fold load_effect rs Map.empty \<and> wal s' = w"
proof -
  obtain s1 n where st: "fold load_record rs (NewStore w, 0) = (s1, n)" by fastforce
  then have "r = Inr True" "s' = s1\<lparr>keyCount := n\<rparr>"
    using assms LoadSnapshot_log [OF assms(1,2), of "NewStore w"] by auto
  moreover have "wal (NewStore w) = w" by (simp add: NewStore_def)
  ultimately show ?thesis
    using load_records [OF load_inv_NewStore, of rs w] st by (simp add: load_inv_def versions_seen_def)
qed

text \<open>No entry is newer than \<open>lastVersion\<close> after loading any file, even one that ends in an error.\<close>

lemma load_loop_inv: "load_inv st \<Longrightarrow> load_inv (snd (load_loop fault content pos st))"
proof (induction fault content pos st rule: load_loop.induct)
  case (1 fault content pos st)
  show ?case
    using 1 load_record_step [of "fst st" "snd st"]
    by (subst load_loop.simps) (auto split: rec_read.split)
qed

lemma LoadSnapshot_seen:
  assumes "LoadSnapshot open_ok fault content (NewStore w) = (r, s)"
  shows "versions_seen s"
proof -
  have new: "versions_seen (NewStore w)" using load_inv_NewStore [of w] by (simp add: load_inv_def)
  have "versions_seen (fst (snd (load_loop fault x 6 (NewStore w, 0))))" for x
    using load_loop_inv [OF load_inv_NewStore] by (simp add: load_inv_def)
  then have "versions_seen s1" "versions_seen (s1\<lparr>keyCount := m\<rparr>)"
    if "load_loop fault x 6 (NewStore w, 0) = (e, s1, n)" for x e s1 n m
    using that by (metis fst_conv snd_conv, metis (no_types) fst_conv snd_conv versions_seen_keyCount)
  with new assms show ?thesis
    by (auto simp: LoadSnapshot_def split: option.splits if_splits read_result.splits prod.splits)
qed

text \<open>Whatever fails, a snapshot either leaves the files alone or installs a complete one.\<close>

lemma CreateSnapshot_outcome:
  assumes "CreateSnapshot fails now order s d = (e, s', d')"
  shows "(s' = s \<and> snap_file d' = snap_file d) \<or>
    (snap_file d' = Some (snapshot_header @ concat (snapshot_records now order s)) \<and>
     (s' = s \<or> (\<exists>w. s' = s\<lparr>wal := Some w\<rparr> \<and> wal_file w = [] \<and> wal_open w)))"
  using assms
  by (auto simp: CreateSnapshot_def Let_def dest!: write_records_Some split: option.splits if_splits
      intro!: exI [where x = "if fails SeekWal then w\<lparr>wal_file := []\<rparr>
        else w\<lparr>wal_file := [], wal_size := 0\<rparr>" for w])

section \<open>Properties\<close>

text \<open>
  C6. Round trip. A snapshot of the store, loaded into a new store, gives exactly the entries
  that were live when it was taken, a key count that matches them, and a \<open>lastVersion\<close> that no
  loaded entry exceeds; and taking it empties the log.
\<close>

theorem snapshot_roundtrip:
  assumes "store_inv s" "visits order s" "entries_ok s" "wal s = Some w" "wal_open w"
    and "CreateSnapshot (\<lambda>_. False) now order s d = (e, s', d')"
    and "LoadSnapshot True None (snap_file d') (NewStore w') = (r, t)"
  shows "e = None \<and> contents s' = contents s \<and> map_option wal_file (wal s') = Some [] \<and>
    r = Inr True \<and> store_inv t \<and> contents t = live now (contents s) \<and> versions_seen t"
proof -
  have written: "write_records (\<lambda>_. False) 0 (snapshot_records now order s) snapshot_header =
      Some (snapshot_header @ concat (map encode (snapshot_recs now order s)) @ [])"
    using write_records_all [of "\<lambda>_. False"] snapshot_records_encode [OF assms(1)] by simp
  have "e = None \<and> contents s' = contents s \<and> map_option wal_file (wal s') = Some [] \<and>
      snap_file d' = Some (snapshot_header @ concat (map encode (snapshot_recs now order s)) @ [])"
    using assms(4-6) unfolding CreateSnapshot_def written by auto
  with LoadSnapshot_fresh [OF snapshot_recs_ok [OF assms(1-3)], of "[]"] assms(7)
    snapshot_recs_load [OF assms(1,2)] show ?thesis by simp
qed

definition demo_logged :: Store where
  "demo_logged = demo_store\<lparr>wal := Some demo_wal\<rparr>"

lemma demo_logged [simp]:
  "store_inv demo_logged" "wal demo_logged = Some demo_wal" "contents demo_logged = contents demo_store"
  "visits order demo_logged = visits order demo_store"
  by (simp_all add: demo_logged_def visits_def)

theorem snapshot_roundtrip_witness:
  "contents (snd (LoadSnapshot True None
     (snap_file (snd (snd (CreateSnapshot (\<lambda>_. False) 5 demo_order demo_logged \<lparr>snap_file = None, snap_tmp = None\<rparr>))))
     (NewStore None))) = contents demo_store"
proof -
  let ?c = "CreateSnapshot (\<lambda>_. False) 5 demo_order demo_logged \<lparr>snap_file = None, snap_tmp = None\<rparr>"
  have "entries_ok demo_logged"
    by (auto simp: entries_ok_def set_rec_def rec_ok_def exp_ok_def IsZero_def split: if_splits)
  moreover have "live 5 (contents demo_store) = contents demo_store"
    by (auto simp: live_def fun_eq_iff IsExpired_def IsZero_def)
  ultimately show ?thesis
    using snapshot_roundtrip [of demo_logged demo_order demo_wal 5 "\<lparr>snap_file = None, snap_tmp = None\<rparr>" "fst ?c"
        "fst (snd ?c)" "snd (snd ?c)" None "fst (LoadSnapshot True None (snap_file (snd (snd ?c))) (NewStore None))"
        "snd (LoadSnapshot True None (snap_file (snd (snd ?c))) (NewStore None))"]
    by (simp add: demo_wal_def)
qed

text \<open>
  C25. Crash safety of the snapshot. Whichever of its system calls fail, either the snapshot
  file and the log are both as before, or the snapshot file is complete; the log is emptied only in the
  second case, and the contents of the store never change.
\<close>

theorem snapshot_atomic:
  assumes "CreateSnapshot fails now order s d = (e, s', d')"
  shows "contents s' = contents s \<and>
    ((wal s' = wal s \<and> snap_file d' = snap_file d) \<or>
     (snap_file d' = Some (snapshot_header @ concat (snapshot_records now order s)) \<and>
      (wal s' = wal s \<or> map_option wal_file (wal s') = Some [])))"
  using CreateSnapshot_outcome [OF assms] by auto

theorem snapshot_atomic_witness:
  "contents (fst (snd (CreateSnapshot (\<lambda>x. x = SyncTmp) 5 demo_order demo_logged
     \<lparr>snap_file = None, snap_tmp = None\<rparr>))) = contents demo_store"
proof -
  let ?c = "CreateSnapshot (\<lambda>x. x = SyncTmp) 5 demo_order demo_logged \<lparr>snap_file = None, snap_tmp = None\<rparr>"
  show ?thesis using snapshot_atomic [of "\<lambda>x. x = SyncTmp" 5 demo_order demo_logged _ "fst ?c" "fst (snd ?c)" "snd (snd ?c)"] by simp
qed

end
