(* ===== verification/KV_Lww.thy ===== *)
theory KV_Lww
  imports KV_Store
begin

text \<open>
  Last-writer-wins as an interface: what a replica promises about versioned writes, and what
  follows for any number of replicas that apply the same writes in different orders and with
  duplicates. Interpreted on the lock-protected sections of \<open>Set\<close> and \<open>Delete\<close>
  (\<open>internal/store/store.go\<close>), which is where replicated writes take effect.
\<close>

section \<open>The specification map\<close>

lemma lww_put_same: "lww_put ver k e (lww_put ver k e m) = lww_put ver k e m"
  by (auto simp: lww_put_def split: option.split)

lemma lww_put_commute:
  assumes "k = k' \<Longrightarrow> ver e = ver e' \<Longrightarrow> e = e'"
  shows "lww_put ver k e (lww_put ver k' e' m) = lww_put ver k' e' (lww_put ver k e m)"
proof (cases "k = k'")
  case True
  show ?thesis
  proof (cases "ver e = ver e'")
    case True
    with assms \<open>k = k'\<close> show ?thesis by simp
  next
    case False
    with True show ?thesis by (cases "m k'") (auto simp: lww_put_def)
  qed
next
  case False
  then show ?thesis by (auto simp: lww_put_def fun_upd_twist split: option.split)
qed

text \<open>
  Writes that agree wherever key and version coincide: neither the order nor the number of
  times they are applied matters.
\<close>

lemma fold_lww_put_set:
  assumes "set ws = set ws'"
    and agree: "\<And>k e e'. (k, e) \<in> set ws \<Longrightarrow> (k, e') \<in> set ws \<Longrightarrow> ver e = ver e' \<Longrightarrow> e = e'"
  shows "fold (\<lambda>(k, e). lww_put ver k e) ws m = fold (\<lambda>(k, e). lww_put ver k e) ws' m"
proof -
  let ?f = "\<lambda>(k, e). lww_put ver k e"
  have "comp_fun_idem_on (set ws) ?f"
  proof
    fix x y
    assume xy: "x \<in> set ws" "y \<in> set ws"
    obtain k e k' e' where "x = (k, e)" "y = (k', e')" by (cases x; cases y)
    with xy agree show "?f y \<circ> ?f x = ?f x \<circ> ?f y"
      using lww_put_commute [of k' k ver e' e] by (auto simp: fun_eq_iff)
  next
    fix x
    assume "x \<in> set ws"
    show "?f x \<circ> ?f x = ?f x" by (cases x) (auto simp: fun_eq_iff lww_put_same)
  qed
  then show ?thesis using assms(1) comp_fun_idem_on.fold_set_fold by (metis order_refl)
qed

lemma lww_put_version:
  "m k = Some c \<Longrightarrow> \<exists>c'. lww_put ver k' e m k = Some c' \<and> ver c \<le> ver c'"
  by (auto simp: lww_put_def split: option.splits)

section \<open>The interface\<close>

text \<open>A list of writes, applied one after the other.\<close>

definition run_puts :: "('k \<Rightarrow> 'e \<Rightarrow> 's \<Rightarrow> 's) \<Rightarrow> ('k \<times> 'e) list \<Rightarrow> 's \<Rightarrow> 's" where
  "run_puts put ws = fold (\<lambda>(k, e). put k e) ws"

locale lww_replica =
  fixes inv :: "'s \<Rightarrow> bool"
    and view :: "'s \<Rightarrow> ('k \<rightharpoonup> 'e)"
    and ver :: "'e \<Rightarrow> 'v::linorder"
    and put :: "'k \<Rightarrow> 'e \<Rightarrow> 's \<Rightarrow> 's"
    and remove :: "'k \<Rightarrow> 'v \<Rightarrow> 's \<Rightarrow> 's"
  assumes inv_put: "inv s \<Longrightarrow> inv (put k e s)"
    and inv_remove: "inv s \<Longrightarrow> inv (remove k v s)"
    and view_put: "inv s \<Longrightarrow> view (put k e s) = lww_put ver k e (view s)"
    and view_remove: "inv s \<Longrightarrow> view (remove k v s) = lww_remove ver k v (view s)"
begin

lemma puts_view:
  "inv s \<Longrightarrow> inv (run_puts put ws s) \<and> view (run_puts put ws s) = fold (\<lambda>(k, e). lww_put ver k e) ws (view s)"
proof (induction ws arbitrary: s)
  case (Cons w ws)
  obtain k e where w: "w = (k, e)" by fastforce
  from Cons.IH [OF inv_put [OF Cons.prems, of k e]] show ?case
    by (simp add: w run_puts_def view_put [OF Cons.prems])
qed (simp add: run_puts_def)

lemma puts_converge:
  assumes "inv s" "inv t" "view s = view t" "set ws = set ws'"
    and agree: "\<And>k e e'. (k, e) \<in> set ws \<Longrightarrow> (k, e') \<in> set ws \<Longrightarrow> ver e = ver e' \<Longrightarrow> e = e'"
  shows "view (run_puts put ws s) = view (run_puts put ws' t)"
  using fold_lww_put_set [OF assms(4) agree, where m = "view t"] puts_view assms(1-3) by simp

text \<open>A key's version never decreases under writes.\<close>

lemma puts_version_mono:
  assumes "inv s" "view s k = Some c"
  shows "\<exists>c'. view (run_puts put ws s) k = Some c' \<and> ver c \<le> ver c'"
proof -
  have "\<exists>c'. fold (\<lambda>(k, e). lww_put ver k e) ws m k = Some c' \<and> ver c \<le> ver c'"
    if "m k = Some c" for m c
    using that
  proof (induction ws arbitrary: m c)
    case (Cons w ws)
    obtain c1 where "lww_put ver (fst w) (snd w) m k = Some c1" "ver c \<le> ver c1"
      using lww_put_version [of m k c ver "fst w" "snd w"] Cons.prems by blast
    with Cons.IH [of "lww_put ver (fst w) (snd w) m" c1] show ?case
      by (auto simp: case_prod_beta)
  qed simp
  with assms puts_view show ?thesis by simp
qed

text \<open>
  Removal leaves no trace: a write older than the removal is accepted again afterwards.
\<close>

lemma remove_forgets:
  assumes "inv s" "view s k = Some c" "ver c \<le> v"
  shows "view (put k e (remove k v s)) k = Some e"
  using assms by (auto simp: view_put view_remove inv_remove lww_remove_def lww_put_def)

lemma remove_last:
  assumes "inv s" "view s k = Some c" "ver c \<le> v" "ver e \<le> v"
  shows "view (remove k v (put k e s)) k = None"
  using assms by (auto simp: view_put view_remove inv_put lww_remove_def lww_put_def)

end

section \<open>The store is a replica\<close>

definition replica_put :: "string \<Rightarrow> Entry \<Rightarrow> Store \<Rightarrow> Store" where
  "replica_put k e s = snd (Set_apply k (Value e) (Version e) (ExpiresAt e) s)"

definition replica_remove :: "string \<Rightarrow> uint64 \<Rightarrow> Store \<Rightarrow> Store" where
  "replica_remove k v s = snd (Delete_apply k v s)"

lemma Entry_eta: "\<lparr>Value = Value e, Version = Version e, ExpiresAt = ExpiresAt e\<rparr> = e" for e :: Entry
  by simp

interpretation store_replica: lww_replica store_inv contents Version replica_put replica_remove
  by unfold_locales
    (simp_all add: replica_put_def replica_remove_def Set_apply_inv Set_apply_contents
      Delete_apply_inv Delete_apply_contents Entry_eta)

section \<open>Delivery of replicated writes\<close>

text \<open>
  The value and version a reader sees. The expiry is left out: a replica computes it from its
  own clock when the write arrives, so it is not the same on two replicas.
\<close>

definition values_of :: "shard \<Rightarrow> (string \<rightharpoonup> bytes \<times> uint64)" where
  "values_of m k = map_option (\<lambda>e. (Value e, Version e)) (m k)"

text \<open>One replicated SET as it arrives: clock reading, key, value, time to live, version.\<close>

record delivery =
  dl_now :: gotime
  dl_key :: string
  dl_value :: bytes
  dl_ttl :: duration
  dl_version :: uint64

definition deliver_one :: "delivery \<Rightarrow> Store \<Rightarrow> Store" where
  "deliver_one d s = snd (Set io_ok (dl_now d) (dl_now d) (dl_key d) (dl_value d) (dl_ttl d) (dl_version d) s)"

definition deliver :: "delivery list \<Rightarrow> Store \<Rightarrow> Store" where
  "deliver ds = fold deliver_one ds"

definition write_of :: "delivery \<Rightarrow> string \<times> bytes \<times> uint64" where
  "write_of d = (dl_key d, dl_value d, dl_version d)"

lemma values_lww_put: "values_of (lww_put Version k e m) = lww_put snd k (Value e, Version e) (values_of m)"
  by (auto simp: values_of_def lww_put_def fun_eq_iff split: option.split)

lemma replicated_Set:
  assumes "store_inv s" "wal_ready s" "length k \<le> 65535" "ver \<noteq> 0"
  shows "\<exists>r s'. Set io_ok now now' k v ttl ver s = (Inr r, s') \<and> store_inv s' \<and> wal_ready s' \<and>
    values_of (contents s') = lww_put snd k (v, ver) (values_of (contents s))"
proof -
  let ?x = "expiry_of now ttl"
  let ?l = "log_append io_ok RecordTypeSet k v ver ?x s"
  have log: "fst ?l = None" "wal_ready (snd ?l)" "store_inv (snd ?l)" "contents (snd ?l) = contents s"
    using log_append_ready [OF assms(2,3)] assms(1) by simp_all
  have "Set io_ok now now' k v ttl ver s =
      (Inr (fst (Set_apply k v ver ?x (snd ?l))), snd (Set_apply k v ver ?x (snd ?l)))"
    using log(1) assms(4) by (simp add: Set_unfold assign_version_def Let_def)
  with log show ?thesis by (simp add: Set_apply_inv Set_apply_contents values_lww_put)
qed

lemma deliver_one_step:
  assumes "store_inv s" "wal_ready s" "length (dl_key d) \<le> 65535" "dl_version d \<noteq> 0"
  shows "store_inv (deliver_one d s) \<and> wal_ready (deliver_one d s) \<and>
    values_of (contents (deliver_one d s)) = (\<lambda>(k, e). lww_put snd k e) (write_of d) (values_of (contents s))"
  using replicated_Set [OF assms, of "dl_now d" "dl_now d" "dl_value d" "dl_ttl d"]
  by (auto simp: deliver_one_def write_of_def)

definition deliverable :: "delivery \<Rightarrow> bool" where
  "deliverable d \<longleftrightarrow> length (dl_key d) \<le> 65535 \<and> dl_version d \<noteq> 0"

lemma deliver_values:
  assumes "list_all deliverable ds" "store_inv s" "wal_ready s"
  shows "store_inv (deliver ds s) \<and> values_of (contents (deliver ds s)) =
    fold (\<lambda>(k, e). lww_put snd k e) (map write_of ds) (values_of (contents s))"
  using assms
proof (induction ds arbitrary: s)
  case (Cons d ds)
  then show ?case using deliver_one_step [of s d] by (simp add: deliver_def deliverable_def)
qed (simp add: deliver_def)

section \<open>Properties\<close>

text \<open>
  C12. Convergence: two replicas that hold the same values and receive the same replicated
  SETs, each in its own order, at its own times and with any duplication, hold the same value
  and version for every key afterwards, provided two writes of one key with the same version
  carry the same value.
\<close>

theorem replicas_converge:
  assumes "store_inv s" "store_inv t" "wal_ready s" "wal_ready t"
    and "values_of (contents s) = values_of (contents t)"
    and "list_all deliverable ds" "list_all deliverable ds'" "write_of ` set ds = write_of ` set ds'"
    and "\<And>d d'. d \<in> set ds \<Longrightarrow> d' \<in> set ds \<Longrightarrow> dl_key d = dl_key d' \<Longrightarrow> dl_version d = dl_version d' \<Longrightarrow>
      dl_value d = dl_value d'"
  shows "values_of (contents (deliver ds s)) = values_of (contents (deliver ds' t))"
proof -
  have agree: "e = e'"
    if in_ws: "(k, e) \<in> set (map write_of ds)" "(k, e') \<in> set (map write_of ds)" and "snd e = snd e'" for k e e'
  proof -
    obtain d d' where "d \<in> set ds" "d' \<in> set ds" "(k, e) = write_of d" "(k, e') = write_of d'"
      using in_ws by auto
    with \<open>snd e = snd e'\<close> assms(9) [of d d'] show ?thesis by (auto simp: write_of_def)
  qed
  have "fold (\<lambda>(k, e). lww_put snd k e) (map write_of ds) m = fold (\<lambda>(k, e). lww_put snd k e) (map write_of ds') m" for m
    by (rule fold_lww_put_set) (use assms(8) in simp, rule agree)
  with deliver_values [OF assms(6) assms(1,3)] deliver_values [OF assms(7) assms(2,4)] assms(5) show ?thesis by simp
qed

theorem replicas_converge_witness:
  "values_of (contents (deliver
     [\<lparr>dl_now = 5, dl_key = ''a'', dl_value = [1], dl_ttl = 0, dl_version = 3\<rparr>,
      \<lparr>dl_now = 6, dl_key = ''a'', dl_value = [2], dl_ttl = 9, dl_version = 4\<rparr>] (NewStore None))) =
   values_of (contents (deliver
     [\<lparr>dl_now = 7, dl_key = ''a'', dl_value = [2], dl_ttl = 8, dl_version = 4\<rparr>,
      \<lparr>dl_now = 8, dl_key = ''a'', dl_value = [1], dl_ttl = 0, dl_version = 3\<rparr>] (NewStore None)))"
  by (rule replicas_converge) (auto simp: NewStore_inv wal_ready_def deliverable_def write_of_def)

text \<open>
  C38. Deletes leave no tombstone, so they do not converge: for a key whose version is not
  above \<open>v\<close>, a write older than the deletion \<open>v\<close> is gone if it arrives first and is back if it
  arrives second.
\<close>

theorem delete_not_convergent:
  assumes "store_inv s" "contents s k = Some c" "Version c \<le> v" "Version e \<le> v"
  shows "contents (replica_remove k v (replica_put k e s)) k = None \<and>
    contents (replica_put k e (replica_remove k v s)) k = Some e"
  using store_replica.remove_last [OF assms] store_replica.remove_forgets [OF assms(1-3), of e] by simp

theorem delete_not_convergent_witness:
  "contents (replica_remove ''k'' 90 (replica_put ''k'' \<lparr>Value = [1], Version = 60, ExpiresAt = zero_time\<rparr> demo_store)) ''k'' \<noteq>
   contents (replica_put ''k'' \<lparr>Value = [1], Version = 60, ExpiresAt = zero_time\<rparr> (replica_remove ''k'' 90 demo_store)) ''k''"
  using delete_not_convergent [of demo_store "''k''" "\<lparr>Value = [7], Version = 50, ExpiresAt = zero_time\<rparr>" 90
      "\<lparr>Value = [1], Version = 60, ExpiresAt = zero_time\<rparr>"] by simp

end
