(* ===== verification/KV_Recovery.thy ===== *)
theory KV_Recovery
  imports KV_Snapshot KV_Lww
begin

text \<open>
  Start-up recovery as \<open>cmd/server/main.go\<close> does it: an empty store without a log, the
  snapshot, then the log replayed through \<open>Set\<close> and \<open>Delete\<close>, and only then the log linked
  to the store. Every \<open>log.Fatalf\<close> of the sequence is the error result of \<open>boot\<close>.
\<close>

section \<open>The code\<close>

text \<open>
  The replay callback. \<open>clk n\<close> holds the readings of \<open>time.Until\<close> and of \<open>Set\<close> (or
  \<open>Delete\<close>) for the \<open>n\<close>-th record; the state counts the records.
\<close>

definition replay_callback :: "(nat \<Rightarrow> gotime \<times> gotime) \<Rightarrow> wal_rec \<Rightarrow> nat \<times> Store \<Rightarrow>
  go_error option \<times> (nat \<times> Store)" where
  "replay_callback clk r = (\<lambda>(n, s).
     (let (t, t') = clk n in
      if rec_type r = RecordTypeSet then
        (let ttl = (if \<not> IsZero (rec_expires r) then time_Sub (rec_expires r) t else 0)
         in if \<not> IsZero (rec_expires r) \<and> ttl \<le> 0 then (None, (Suc n, s))
            else (case Set io_ok t' t' (rec_key r) (rec_value r) ttl (rec_version r) s of
                    (Inl e, s') \<Rightarrow> (Some e, (Suc n, s'))
                  | (Inr _, s') \<Rightarrow> (None, (Suc n, s'))))
      else if rec_type r = RecordTypeDelete then
        (case Delete io_ok t' (rec_key r) (rec_version r) s of
           (Inl e, s') \<Rightarrow> (Some e, (Suc n, s'))
         | (Inr _, s') \<Rightarrow> (None, (Suc n, s')))
      else (None, (Suc n, s))))"

record boot_env =
  env_snap_open :: bool
  env_snap_fault :: "nat option"
  env_wal_open :: bool
  env_wal_stat :: bool
  env_replay :: replay_io
  env_clock :: "nat \<Rightarrow> gotime \<times> gotime"

definition boot :: "boot_env \<Rightarrow> string \<Rightarrow> bytes option \<Rightarrow> bytes option \<Rightarrow> go_error + Store" where
  "boot env dataDir snap log =
     (case LoadSnapshot (env_snap_open env) (env_snap_fault env) snap (NewStore None) of
        (Inl e, _) \<Rightarrow> Inl e
      | (Inr _, s) \<Rightarrow>
          (case NewWAL (env_wal_open env) (env_wal_stat env) log dataDir ''wal.log'' of
             Inl e \<Rightarrow> Inl e
           | Inr w \<Rightarrow>
               (case Replay (env_replay env) (replay_callback (env_clock env)) w (0, s) of
                  (Some e, _) \<Rightarrow> Inl e
                | (None, (_, s')) \<Rightarrow> Inr (SetWAL w s'))))"

section \<open>The meaning of a log\<close>

definition rec_effect :: "wal_rec \<Rightarrow> shard \<Rightarrow> shard" where
  "rec_effect r m =
     (if rec_type r = RecordTypeSet then lww_put Version (rec_key r) (entry_of r) m
      else if rec_type r = RecordTypeDelete then lww_remove Version (rec_key r) (rec_version r) m
      else m)"

text \<open>A record that a recovery at time \<open>t\<close> does not skip as expired.\<close>

definition kept :: "gotime \<Rightarrow> wal_rec \<Rightarrow> bool" where
  "kept t r \<longleftrightarrow> rec_ok r \<and> rec_version r \<noteq> 0 \<and> (IsZero (rec_expires r) \<or> t < rec_expires r)"

text \<open>No fault, and a recovery that starts at time \<open>t\<close> and takes at most \<open>d\<close>.\<close>

definition calm :: "gotime \<Rightarrow> duration \<Rightarrow> boot_env \<Rightarrow> bool" where
  "calm t d env \<longleftrightarrow> 0 \<le> t \<and> env_snap_open env \<and> env_snap_fault env = None \<and> env_wal_open env \<and>
     env_wal_stat env \<and> env_replay env = rio_ok \<and>
     (\<forall>n. t \<le> fst (env_clock env n) \<and> fst (env_clock env n) \<le> snd (env_clock env n) \<and>
        snd (env_clock env n) \<le> t + d)"

text \<open>
  Replay adds the remaining time to a later clock reading than it took it from, so a rebuilt
  entry may expire up to \<open>d\<close> later than the original; value and version are the same.
\<close>

definition restored :: "duration \<Rightarrow> Entry \<Rightarrow> Entry \<Rightarrow> bool" where
  "restored d e e' \<longleftrightarrow> Value e' = Value e \<and> Version e' = Version e \<and>
     (if IsZero (ExpiresAt e) then IsZero (ExpiresAt e')
      else ExpiresAt e \<le> ExpiresAt e' \<and> ExpiresAt e' \<le> ExpiresAt e + d)"

definition restored_map :: "duration \<Rightarrow> shard \<Rightarrow> shard \<Rightarrow> bool" where
  "restored_map d m m' \<longleftrightarrow> (\<forall>k. rel_option (restored d) (m k) (m' k))"

lemma restored_refl: "0 \<le> d \<Longrightarrow> restored d e e"
  by (simp add: restored_def)

lemma restored_map_refl: "0 \<le> d \<Longrightarrow> restored_map d m m"
  by (auto simp: restored_map_def intro!: option.rel_refl restored_refl)

lemma restored_exact: "restored_map 0 m m' \<Longrightarrow> m' = m"
proof
  fix k
  assume "restored_map 0 m m'"
  then have "rel_option (restored 0) (m k) (m' k)" by (simp add: restored_map_def)
  then show "m' k = m k"
    by cases (auto simp: restored_def IsZero_def split: if_splits intro: Entry.equality)
qed

lemma restored_map_dom: "restored_map d m m' \<Longrightarrow> dom m' = dom m"
  by (auto simp: restored_map_def dom_def) (metis option.rel_distinct(1,2) option.exhaust)+

lemma restored_map_at: "restored_map d m m' \<Longrightarrow> rel_option (restored d) (m k) (m' k)"
  by (simp add: restored_map_def)

lemma restored_map_upd:
  "restored_map d m m' \<Longrightarrow> rel_option (restored d) x x' \<Longrightarrow> restored_map d (m(k := x)) (m'(k := x'))"
  by (simp add: restored_map_def)

lemma restored_Version: "restored d e e' \<Longrightarrow> Version e' = Version e"
  by (simp add: restored_def)

lemma lww_put_restored:
  assumes "restored_map d m m'" "restored d e e'"
  shows "restored_map d (lww_put Version k e m) (lww_put Version k e' m')"
  using restored_map_at [OF assms(1), of k] restored_map_upd [OF assms(1), of "Some e" "Some e'" k] assms
  by cases (simp_all add: lww_put_def restored_Version)

lemma lww_remove_restored:
  assumes "restored_map d m m'"
  shows "restored_map d (lww_remove Version k v m) (lww_remove Version k v m')"
  using restored_map_at [OF assms, of k] restored_map_upd [OF assms, of None None k] assms
  by cases (simp_all add: lww_remove_def restored_Version)

lemma expiry_restored:
  assumes "exp_ok x" "0 \<le> t" "\<not> IsZero x" "t < x" "t \<le> t'" "t' \<le> t + d"
  shows "0 < time_Sub x t \<and> x \<le> expiry_of t' (time_Sub x t) \<and> expiry_of t' (time_Sub x t) \<le> x + d"
  using assms by (auto simp: exp_ok_def expiry_of_def go_defs)

lemma expiry_none: "IsZero x \<Longrightarrow> expiry_of t 0 = x"
  by (simp add: expiry_of_def IsZero_def)

lemma replay_callback_step:
  assumes "kept (t + d) r" "0 \<le> t" "clk n = (a, b)" "t \<le> a" "a \<le> b" "b \<le> t + d"
    and "wal s = None" "store_inv s" "restored_map d m (contents s)"
  shows "\<exists>s'. replay_callback clk r (n, s) = (None, (Suc n, s')) \<and> wal s' = None \<and> store_inv s' \<and>
    restored_map d (rec_effect r m) (contents s')"
proof -
  define ttl where "ttl = (if \<not> IsZero (rec_expires r) then time_Sub (rec_expires r) a else 0)"
  have v: "rec_version r \<noteq> 0" using assms(1) by (simp add: kept_def)
  have run: "\<not> (\<not> IsZero (rec_expires r) \<and> ttl \<le> 0)"
    and entry: "restored d (entry_of r)
      \<lparr>Value = rec_value r, Version = rec_version r, ExpiresAt = expiry_of b ttl\<rparr>"
    using assms(1-6) expiry_restored [of "rec_expires r" a b d] expiry_none [of "rec_expires r" b]
    by (auto simp: ttl_def kept_def rec_ok_def restored_def entry_of_def exp_ok_def IsZero_def zero_time_def)
  have distinct: "RecordTypeSet \<noteq> RecordTypeDelete" by (simp add: RecordTypeSet_def RecordTypeDelete_def)
  show ?thesis
    unfolding replay_callback_def prod.case assms(3) Let_def ttl_def [symmetric] if_not_P [OF run]
      Set_without_wal [OF assms(7) v] Delete_without_wal [OF assms(7) v]
    using assms(7-9) distinct lww_put_restored [OF assms(9) entry, of "rec_key r"]
      lww_remove_restored [OF assms(9), of "rec_key r" "rec_version r"]
    by (auto simp: rec_effect_def Set_apply_inv Set_apply_contents Delete_apply_inv Delete_apply_contents)
qed

lemma replay_records:
  assumes "list_all (kept (t + d)) rs" "0 \<le> t"
    and clk: "\<And>n. t \<le> fst (clk n) \<and> fst (clk n) \<le> snd (clk n) \<and> snd (clk n) \<le> t + d"
    and "wal s = None" "store_inv s" "restored_map d m (contents s)"
  shows "\<exists>n' s'. run_records ApplyFailed (replay_callback clk) rs (n, s) = (None, (n', s')) \<and>
    store_inv s' \<and> restored_map d (fold rec_effect rs m) (contents s')"
  using assms(1,4-6)
proof (induction rs arbitrary: n s m)
  case (Cons r rs)
  then obtain s1 where "replay_callback clk r (n, s) = (None, (Suc n, s1))" "wal s1 = None" "store_inv s1"
    "restored_map d (rec_effect r m) (contents s1)"
    using replay_callback_step [of t d r clk n "fst (clk n)" "snd (clk n)" s m] assms(2) clk by auto
  with Cons.IH [of s1 "rec_effect r m" "Suc n"] Cons.prems show ?case by auto
qed simp

text \<open>
  What start-up computes from a snapshot and a log, the log possibly ending in a torn header.
\<close>

definition snap_image :: "wal_rec list option \<Rightarrow> bytes option" where
  "snap_image snaps = map_option (\<lambda>rs. snapshot_header @ concat (map encode rs)) snaps"

definition snap_contents :: "wal_rec list option \<Rightarrow> shard" where
  "snap_contents snaps = (case snaps of None \<Rightarrow> Map.empty | Some rs \<Rightarrow> fold load_effect rs Map.empty)"

lemma LoadSnapshot_image:
  assumes "pred_option (list_all rec_ok) snaps"
  shows "\<exists>b s. LoadSnapshot True None (snap_image snaps) (NewStore None) = (Inr b, s) \<and>
    wal s = None \<and> store_inv s \<and> versions_seen s \<and> contents s = snap_contents snaps"
proof (cases snaps)
  case None
  then show ?thesis
    using NewStore_inv [of None]
    by (auto simp: snap_image_def snap_contents_def LoadSnapshot_def versions_seen_def)
next
  case (Some rs)
  obtain r s where "LoadSnapshot True None (Some (snapshot_header @ concat (map encode rs) @ [])) (NewStore None) = (r, s)"
    by fastforce
  with Some assms LoadSnapshot_fresh [of rs "[]" None r s] show ?thesis
    by (auto simp: snap_image_def snap_contents_def)
qed

lemma calm_duration: "calm t d env \<Longrightarrow> 0 \<le> d"
  unfolding calm_def by (metis add_le_cancel_left add.right_neutral order_trans)

lemma boot_contents:
  assumes "calm t d env" "pred_option (list_all rec_ok) snaps" "list_all (kept (t + d)) rs" "length torn < 8"
  shows "\<exists>s. boot env dataDir (snap_image snaps) (Some (concat (map encode rs) @ torn)) = Inr s \<and>
    store_inv s \<and> restored_map d (fold rec_effect rs (snap_contents snaps)) (contents s)"
proof -
  obtain b s where load: "LoadSnapshot True None (snap_image snaps) (NewStore None) = (Inr b, s)"
    "wal s = None" "store_inv s" "contents s = snap_contents snaps"
    using LoadSnapshot_image [OF assms(2)] by blast
  have ok: "list_all rec_ok rs" using assms(3) by (auto simp: list_all_iff kept_def)
  have "0 \<le> t" using assms(1) by (simp add: calm_def)
  obtain n' s' where run: "run_records ApplyFailed (replay_callback (env_clock env)) rs (0, s) = (None, (n', s'))"
    "store_inv s'" "restored_map d (fold rec_effect rs (snap_contents snaps)) (contents s')"
    using replay_records [OF assms(3) \<open>0 \<le> t\<close>, of "env_clock env" s "snap_contents snaps" 0]
      restored_map_refl [OF calm_duration [OF assms(1)]] assms(1) load by (auto simp: calm_def)
  have "replay_loop None (concat (map encode rs) @ torn) (replay_callback (env_clock env)) 0 (0, s) = (None, (n', s'))"
    using wal_log.loop_log [OF ok assms(4), where xs = "[]" and
        applyFunc = "replay_callback (env_clock env)" and s = "(0, s)"] run by simp
  with assms(1) load run show ?thesis
    by (auto simp: boot_def calm_def NewWAL_def Replay_def rio_ok_def SetWAL_def)
qed

section \<open>Replaying twice\<close>

text \<open>
  If the log is not truncated after a snapshot (a crash or an error in between), its records
  are replayed over a state that already contains them. For one key, a record is a map on
  \<open>Entry option\<close>; the order puts \<open>None\<close> below every entry.
\<close>

definition key_effect :: "string \<Rightarrow> wal_rec \<Rightarrow> Entry option \<Rightarrow> Entry option" where
  "key_effect k r x = rec_effect r (\<lambda>_. x) k"

definition older :: "Entry option \<Rightarrow> Entry option \<Rightarrow> bool" where
  "older x y \<longleftrightarrow> (case x of None \<Rightarrow> True | Some a \<Rightarrow>
     (case y of None \<Rightarrow> False | Some b \<Rightarrow> Version a \<le> Version b))"

lemma rec_effect_key: "rec_effect r m k = key_effect k r (m k)"
  by (cases "rec_key r = k")
    (auto simp: rec_effect_def key_effect_def lww_put_def lww_remove_def split: option.split)

lemma fold_rec_effect_key: "fold rec_effect rs m k = fold (key_effect k) rs (m k)"
  by (induction rs arbitrary: m) (simp_all add: rec_effect_key)

lemma key_effect_cases:
  obtains (keep) "\<And>x. key_effect k r x = x"
  | (put) e where "\<And>x. key_effect k r x =
      (case x of Some c \<Rightarrow> if Version e < Version c then x else Some e | None \<Rightarrow> Some e)"
  | (del) v where "\<And>x. key_effect k r x =
      (case x of Some c \<Rightarrow> if v < Version c then x else None | None \<Rightarrow> None)"
proof -
  have "(\<forall>x. key_effect k r x = x) \<or>
      (\<forall>x. key_effect k r x = (case x of Some c \<Rightarrow> if Version (entry_of r) < Version c then x else Some (entry_of r)
        | None \<Rightarrow> Some (entry_of r))) \<or>
      (\<forall>x. key_effect k r x = (case x of Some c \<Rightarrow> if rec_version r < Version c then x else None | None \<Rightarrow> None))"
    by (auto simp: key_effect_def rec_effect_def lww_put_def lww_remove_def split: option.splits)
  with that show thesis by blast
qed

lemma key_effect_mono: "older x y \<Longrightarrow> older (key_effect k r x) (key_effect k r y)"
  by (cases k r rule: key_effect_cases) (auto simp: older_def split: option.splits)

lemma fold_key_effect_mono: "older x y \<Longrightarrow> older (fold (key_effect k) rs x) (fold (key_effect k) rs y)"
  by (induction rs arbitrary: x y) (auto intro: key_effect_mono)

text \<open>An entry that starts newer either survives the whole log or is forgotten without trace.\<close>

lemma survive_or_merge:
  "older x y \<Longrightarrow> fold (key_effect k) rs y = y \<or> fold (key_effect k) rs y = fold (key_effect k) rs x"
proof (induction rs arbitrary: x y)
  case (Cons r rs)
  have "key_effect k r y = y \<or> key_effect k r y = key_effect k r x"
    using Cons.prems by (cases k r rule: key_effect_cases) (auto simp: older_def split: option.splits)
  moreover have "older (key_effect k r x) y" if "key_effect k r y = y"
    using key_effect_mono [OF Cons.prems, of k r] that by simp
  ultimately show ?case using Cons.IH [of "key_effect k r x" y] by auto
qed simp

lemma fold_key_effect_idem: "fold (key_effect k) rs (fold (key_effect k) rs x) = fold (key_effect k) rs x"
proof (induction rs rule: rev_induct)
  case (snoc r rs)
  let ?F = "fold (key_effect k) rs"
  let ?c = "?F x"
  show ?case
  proof (cases k r rule: key_effect_cases)
    case keep
    with snoc show ?thesis by simp
  next
    case (put e)
    show ?thesis
    proof (cases "older ?c (Some e)")
      case True
      then have "?F (Some e) = Some e \<or> ?F (Some e) = ?c"
        using survive_or_merge [of ?c "Some e" k rs] snoc by simp
      with True put show ?thesis by (auto simp: older_def split: option.splits)
    qed (use snoc put in \<open>auto simp: older_def split: option.splits\<close>)
  next
    case (del v)
    have "older (?F None) ?c" using fold_key_effect_mono [of None ?c k rs] snoc by (simp add: older_def)
    with del snoc show ?thesis by (auto simp: older_def split: option.splits if_splits)
  qed
qed simp

lemma replay_idem: "fold rec_effect rs (fold rec_effect rs m) = fold rec_effect rs m"
  by (simp add: fun_eq_iff fold_rec_effect_key fold_key_effect_idem)

end
