(* ===== verification/KV_Durability.thy ===== *)
theory KV_Durability
  imports KV_Recovery
begin

text \<open>
  Durability of the sequential store: after any sequence of writes, deletes, reads, reaps and
  snapshots (the snapshots failing at any step), restarting from the files on disk rebuilds
  exactly the contents the store had. The hypothesis is that nothing written has expired when
  the restart happens; what goes wrong otherwise is shown at the end.
\<close>

section \<open>Sequences of operations\<close>

datatype store_op =
    DoSet gotime gotime string bytes duration uint64
  | DoDelete gotime string uint64
  | DoGet gotime gotime string
  | DoReap gotime "nat \<Rightarrow> string list"
  | DoSnapshot "snap_step \<Rightarrow> bool" gotime "nat \<Rightarrow> string list"

fun exec_op :: "store_op \<Rightarrow> Store \<times> disk \<Rightarrow> Store \<times> disk" where
  "exec_op (DoSet now now' key value ttl version) (s, d) =
     (snd (Set io_ok now now' key value ttl version s), d)"
| "exec_op (DoDelete now key version) (s, d) = (snd (Delete io_ok now key version s), d)"
| "exec_op (DoGet now now' key) (s, d) = (snd (Get now now' key s), d)"
| "exec_op (DoReap now order) (s, d) = (reap now order s, d)"
| "exec_op (DoSnapshot fails now order) (s, d) = snd (CreateSnapshot fails now order s d)"

text \<open>
  What the format can carry and what a restart at time \<open>t\<close> still keeps: payloads below 4 GiB,
  versions other than 0, expiries after \<open>t\<close>; the clock never passes \<open>t\<close> before the restart.
\<close>

definition lasting :: "gotime \<Rightarrow> gotime \<Rightarrow> bool" where
  "lasting t x \<longleftrightarrow> IsZero x \<or> (t < x \<and> x < 2 ^ 63)"

fun op_ok :: "gotime \<Rightarrow> Store \<Rightarrow> store_op \<Rightarrow> bool" where
  "op_ok t s (DoSet now now' key value ttl version) \<longleftrightarrow>
     19 + length key + length value < 2 ^ 32 \<and> fst (assign_version now' version s) \<noteq> 0 \<and>
     lasting t (expiry_of now ttl)"
| "op_ok t s (DoDelete now key version) \<longleftrightarrow> fst (assign_version now version s) \<noteq> 0"
| "op_ok t s (DoGet now now' key) \<longleftrightarrow> now \<le> t \<and> now' \<le> t"
| "op_ok t s (DoReap now order) \<longleftrightarrow> now \<le> t"
| "op_ok t s (DoSnapshot fails now order) \<longleftrightarrow> now \<le> t \<and> visits order s"

definition fresh_wal :: "string \<Rightarrow> WAL" where
  "fresh_wal dir = \<lparr>wal_file = [], wal_open = True, wal_path = (dir, ''wal.log''), wal_size = 0\<rparr>"

inductive runs :: "gotime \<Rightarrow> Store \<times> disk \<Rightarrow> bool" for t where
  start: "runs t (NewStore (Some (fresh_wal dir)), \<lparr>snap_file = None, snap_tmp = None\<rparr>)"
| step: "runs t (s, d) \<Longrightarrow> op_ok t s op \<Longrightarrow> runs t (exec_op op (s, d))"

section \<open>The invariant\<close>

text \<open>The files on disk determine the contents.\<close>

definition on_disk :: "gotime \<Rightarrow> Store \<Rightarrow> disk \<Rightarrow> wal_rec list \<Rightarrow> wal_rec list option \<Rightarrow> bool" where
  "on_disk t s d rs snaps \<longleftrightarrow>
     (\<exists>w. wal s = Some w \<and> wal_open w \<and> wal_file w = concat (map encode rs)) \<and>
     snap_file d = snap_image snaps \<and> pred_option (list_all rec_ok) snaps \<and> list_all (kept t) rs \<and>
     contents s = fold rec_effect rs (snap_contents snaps)"

definition durable :: "gotime \<Rightarrow> Store \<times> disk \<Rightarrow> bool" where
  "durable t \<sigma> \<longleftrightarrow> store_inv (fst \<sigma>) \<and>
     (\<forall>k e. contents (fst \<sigma>) k = Some e \<longrightarrow> rec_ok (set_rec k e) \<and> lasting t (ExpiresAt e)) \<and>
     (\<exists>rs snaps. on_disk t (fst \<sigma>) (snd \<sigma>) rs snaps)"

lemma lasting_not_expired: "lasting t (ExpiresAt e) \<Longrightarrow> now \<le> t \<Longrightarrow> \<not> IsExpired now e"
  by (auto simp: lasting_def IsExpired_def After_def)

lemma durable_live: "durable t (s, d) \<Longrightarrow> now \<le> t \<Longrightarrow> live now (contents s) = contents s"
  by (auto simp: durable_def live_def fun_eq_iff split: option.split dest: lasting_not_expired)

text \<open>A change that leaves contents, log and snapshot alone keeps the invariant.\<close>

lemma durable_same:
  assumes "durable t (s, d)" "store_inv s'" "contents s' = contents s" "wal s' = wal s"
    "snap_file d' = snap_file d"
  shows "durable t (s', d')"
  using assms by (auto simp: durable_def on_disk_def)

lemma durable_start: "durable t (NewStore (Some (fresh_wal dir)), \<lparr>snap_file = None, snap_tmp = None\<rparr>)"
proof -
  have "on_disk t (NewStore (Some (fresh_wal dir))) \<lparr>snap_file = None, snap_tmp = None\<rparr> [] None"
    by (simp add: on_disk_def fresh_wal_def snap_image_def snap_contents_def)
  then show ?thesis using NewStore_inv by (auto simp: durable_def)
qed

section \<open>Writes\<close>

text \<open>Logging a record and applying it to the map keeps disk and memory in step.\<close>

lemma durable_write:
  assumes dur: "durable t (s, d)" and r: "kept t r" "lasting t (rec_expires r)"
    and log: "log_append io_ok (rec_type r) (rec_key r) (rec_value r) (rec_version r) (rec_expires r) s = (None, s1)"
    and s': "store_inv s'" "contents s' = rec_effect r (contents s)" "wal s' = wal s1"
    and ok: "\<And>k e. rec_effect r (contents s) k = Some e \<Longrightarrow>
      contents s k = Some e \<or> (set_rec k e = r)"
  shows "durable t (s', d)"
proof -
  obtain w rs snaps where w: "wal s = Some w" "wal_open w" "wal_file w = concat (map encode rs)"
    and disk: "snap_file d = snap_image snaps" "pred_option (list_all rec_ok) snaps" "list_all (kept t) rs"
      "contents s = fold rec_effect rs (snap_contents snaps)"
    using dur by (auto simp: durable_def on_disk_def)
  obtain n where "wal s1 = Some (w\<lparr>wal_file := wal_file w @ encode r, wal_size := n\<rparr>)"
    using log w(1) Append_io_ok [OF w(2)] by (auto simp: log_append_def encode_def split: if_splits)
  then have "on_disk t s' d (rs @ [r]) snaps"
    using w disk s' r by (simp add: on_disk_def)
  moreover have "rec_ok (set_rec k e) \<and> lasting t (ExpiresAt e)" if "contents s' k = Some e" for k e
    using ok [of k e] that s'(2) dur r by (auto simp: durable_def kept_def set_rec_def)
  ultimately show ?thesis using s'(1) by (auto simp: durable_def)
qed

text \<open>A refused append (key too long) changes nothing.\<close>

lemma log_append_refused:
  assumes "durable t (s, d)" "log_append io_ok rt k v ver x s = (Some e, s1)"
  shows "durable t (s1, d)"
proof -
  obtain w where w: "wal s = Some w" "wal_open w" using assms(1) by (auto simp: durable_def on_disk_def)
  then have "wal s1 = wal s" "contents s1 = contents s" "store_inv s1 = store_inv s"
    using assms(2) Append_io_ok [OF w(2)] by (auto simp: log_append_def split: if_splits)
  with assms(1) show ?thesis by (intro durable_same [OF assms(1)]) (auto simp: durable_def)
qed

lemma log_append_accepted:
  assumes "durable t (s, d)" "log_append io_ok rt k v ver x s = (None, s1)"
  shows "length k \<le> 65535"
  using assms Append_io_ok by (auto simp: durable_def on_disk_def log_append_def split: if_splits)

lemma durable_assign: "durable t (s, d) \<Longrightarrow> durable t (snd (assign_version now v s), d)"
  by (rule durable_same) (auto simp: durable_def)

lemma durable_Set:
  assumes dur: "durable t (s, d)" and ok: "op_ok t s (DoSet now now' key val ttl version)" and t: "0 \<le> t"
  shows "durable t (snd (Set io_ok now now' key val ttl version s), d)"
proof -
  define v s0 where "v = fst (assign_version now' version s)" and "s0 = snd (assign_version now' version s)"
  let ?x = "expiry_of now ttl"
  have dur0: "durable t (s0, d)" using durable_assign [OF dur] by (simp add: s0_def)
  obtain e s1 where log: "log_append io_ok RecordTypeSet key val v ?x s0 = (e, s1)" by fastforce
  show ?thesis
  proof (cases e)
    case (Some err)
    with log_append_refused [OF dur0] log show ?thesis
      by (simp add: Set_unfold Let_def case_prod_beta flip: v_def s0_def)
  next
    case None
    let ?e = "\<lparr>Value = val, Version = v, ExpiresAt = ?x\<rparr>"
    let ?s' = "snd (Set_apply key val v ?x s1)"
    have inv: "store_inv s1" "contents s1 = contents s0"
      using dur0 log log_append_frame [of io_ok RecordTypeSet key val v ?x s0] by (auto simp: durable_def)
    have "durable t (?s', d)"
    proof (rule durable_write [OF dur0, where r = "set_rec key ?e"])
      show "kept t (set_rec key ?e)" "lasting t (rec_expires (set_rec key ?e))"
        using ok t log_append_accepted [OF dur0, of RecordTypeSet key val v ?x s1] log None
        by (auto simp: kept_def rec_ok_def set_rec_def lasting_def exp_ok_def v_def)
      show "store_inv ?s'" "wal ?s' = wal s1" using inv by (simp_all add: Set_apply_inv)
      show "contents ?s' = rec_effect (set_rec key ?e) (contents s0)"
        using inv by (simp add: Set_apply_contents rec_effect_def set_rec_def entry_of_def)
    qed (use log None in \<open>auto simp: set_rec_def rec_effect_def entry_of_def lww_put_def split: option.splits if_splits\<close>)
    with log None show ?thesis by (simp add: Set_unfold Let_def case_prod_beta flip: v_def s0_def)
  qed
qed

lemma durable_Delete:
  assumes dur: "durable t (s, d)" and ok: "op_ok t s (DoDelete now key version)"
  shows "durable t (snd (Delete io_ok now key version s), d)"
proof -
  define v s0 where "v = fst (assign_version now version s)" and "s0 = snd (assign_version now version s)"
  have dur0: "durable t (s0, d)" using durable_assign [OF dur] by (simp add: s0_def)
  obtain e s1 where log: "log_append io_ok RecordTypeDelete key [] v zero_time s0 = (e, s1)" by fastforce
  show ?thesis
  proof (cases e)
    case (Some err)
    with log_append_refused [OF dur0] log show ?thesis
      by (simp add: Delete_unfold Let_def case_prod_beta flip: v_def s0_def)
  next
    case None
    let ?r = "\<lparr>rec_type = RecordTypeDelete, rec_key = key, rec_value = [], rec_version = v, rec_expires = zero_time\<rparr>"
    let ?s' = "snd (Delete_apply key v s1)"
    have inv: "store_inv s1" "contents s1 = contents s0"
      using dur0 log log_append_frame [of io_ok RecordTypeDelete key "[]" v zero_time s0] by (auto simp: durable_def)
    have other: "RecordTypeDelete \<noteq> RecordTypeSet" by (simp add: RecordTypeSet_def RecordTypeDelete_def)
    have "durable t (?s', d)"
    proof (rule durable_write [OF dur0, where r = ?r])
      show "kept t ?r" "lasting t (rec_expires ?r)"
        using ok log_append_accepted [OF dur0, of RecordTypeDelete key "[]" v zero_time s1] log None
        by (auto simp: kept_def rec_ok_def lasting_def exp_ok_def v_def IsZero_def)
      show "store_inv ?s'" "wal ?s' = wal s1" using inv by (simp_all add: Delete_apply_inv)
      show "contents ?s' = rec_effect ?r (contents s0)"
        using inv other by (simp add: Delete_apply_contents rec_effect_def)
    qed (use log None other in \<open>auto simp: rec_effect_def lww_remove_def split: option.splits if_splits\<close>)
    with log None show ?thesis by (simp add: Delete_unfold Let_def case_prod_beta flip: v_def s0_def)
  qed
qed

section \<open>Reads, reaps and snapshots\<close>

lemma wal_Get [simp]: "wal (snd (Get now now' key s)) = wal s"
  by (auto simp: Get_def Get_reap_def add_keyCount_def split: option.split)

lemma durable_Get:
  assumes "durable t (s, d)" "now \<le> t" "now' \<le> t"
  shows "durable t (snd (Get now now' key s), d)"
proof (rule durable_same [OF assms(1)])
  show "contents (snd (Get now now' key s)) = contents s"
    using assms(1,2) by (auto simp: Get_def contents_def [of s key, symmetric] durable_def split: option.split
        dest: lasting_not_expired)
qed (use assms(1) Get_inv in \<open>auto simp: durable_def\<close>)

lemma durable_reap:
  assumes "durable t (s, d)" "now \<le> t"
  shows "durable t (reap now order s, d)"
proof (rule durable_same [OF assms(1)])
  have inv: "store_inv s" using assms(1) by (simp add: durable_def)
  then show "store_inv (reap now order s)" by (rule reap_inv)
  show "contents (reap now order s) = contents s"
    using reap_step [OF inv order_refl, of now order] durable_live [OF assms]
    by (simp add: reap_def fun_eq_iff)
qed simp_all

lemma durable_snapshot:
  assumes dur: "durable t (s, d)" and "now \<le> t" "visits order s"
  shows "durable t (snd (CreateSnapshot fails now order s d))"
proof -
  obtain e s' d' where snap: "CreateSnapshot fails now order s d = (e, s', d')" by (cases "CreateSnapshot fails now order s d")
  have inv: "store_inv s" using dur by (simp add: durable_def)
  let ?recs = "snapshot_recs now order s"
  have image: "snapshot_header @ concat (snapshot_records now order s) = snapshot_header @ concat (map encode ?recs)"
    using snapshot_records_encode [OF inv] by simp
  have recs: "list_all rec_ok ?recs" "fold load_effect ?recs Map.empty = contents s"
    using snapshot_recs_ok [OF inv assms(3)] snapshot_recs_load [OF inv assms(3)] durable_live [OF dur assms(2)] dur
    by (auto simp: entries_ok_def durable_def)
  obtain rs snaps where disk: "on_disk t s d rs snaps" using dur by (auto simp: durable_def)
  consider "s' = s" "snap_file d' = snap_file d"
    | "snap_file d' = snap_image (Some ?recs)" "s' = s"
    | w where "snap_file d' = snap_image (Some ?recs)" "s' = s\<lparr>wal := Some w\<rparr>" "wal_file w = []" "wal_open w"
    using CreateSnapshot_outcome [OF snap] image by (auto simp: snap_image_def)
  then have "durable t (s', d')"
  proof cases
    case 1
    with inv show ?thesis by (intro durable_same [OF dur]) auto
  next
    case 2
    have "fold rec_effect rs (contents s) = contents s"
      using disk replay_idem by (metis on_disk_def)
    with 2 disk recs have "on_disk t s' d' rs (Some ?recs)"
      by (simp add: on_disk_def snap_contents_def)
    with dur 2 show ?thesis by (auto simp: durable_def)
  next
    case 3
    with disk recs have "on_disk t s' d' [] (Some ?recs)"
      by (simp add: on_disk_def snap_contents_def)
    with dur 3 inv show ?thesis by (auto simp: durable_def)
  qed
  with snap show ?thesis by simp
qed

lemma runs_durable:
  assumes "runs t \<sigma>" "0 \<le> t"
  shows "durable t \<sigma>"
  using assms(1)
proof (induction rule: runs.induct)
  case (step s d op)
  then show ?case
    by (cases op) (use assms(2) in \<open>auto simp del: op_ok.simps(1,2) simp: durable_Set durable_Delete durable_Get durable_reap durable_snapshot\<close>)
qed (rule durable_start)

lemma durable_boot:
  assumes "durable (t + d) (s, dsk)" "calm t d env"
  shows "\<exists>s'. boot env dir (snap_file dsk) (map_option wal_file (wal s)) = Inr s' \<and> store_inv s' \<and>
    restored_map d (contents s) (contents s') \<and> Size s' = Size s"
proof -
  obtain w rs snaps where "wal s = Some w" "wal_file w = concat (map encode rs)"
    "snap_file dsk = snap_image snaps" "pred_option (list_all rec_ok) snaps" "list_all (kept (t + d)) rs"
    "contents s = fold rec_effect rs (snap_contents snaps)"
    using assms(1) by (auto simp: durable_def on_disk_def)
  then obtain s' where s': "boot env dir (snap_file dsk) (map_option wal_file (wal s)) = Inr s'" "store_inv s'"
    "restored_map d (contents s) (contents s')"
    using boot_contents [OF assms(2), of snaps rs "[]" dir] by auto
  moreover have "Size s' = Size s"
    using assms(1) s'(2) restored_map_dom [OF s'(3)] by (simp add: Size_def durable_def store_inv_def)
  ultimately show ?thesis by blast
qed

section \<open>Properties\<close>

definition demo_env :: boot_env where
  "demo_env = \<lparr>env_snap_open = True, env_snap_fault = None, env_wal_open = True, env_wal_stat = True,
     env_replay = rio_ok, env_clock = (\<lambda>_. (100, 103))\<rparr>"

lemma demo_env [simp]: "calm 100 3 demo_env"
  by (simp add: calm_def demo_env_def)

lemma demo_rec_ok [simp]: "rec_ok demo_rec" "kept t demo_rec"
  by (simp_all add: demo_rec_def kept_def rec_ok_def exp_ok_def IsZero_def)

definition no_files :: disk where
  "no_files = \<lparr>snap_file = None, snap_tmp = None\<rparr>"

text \<open>
  C1. Durability. Take any sequence of sets, deletes, reads, reaps and snapshots (each snapshot
  failing wherever it likes, log appends succeeding) whose values outlive the restart. A server that starts from the
  files left on disk at time \<open>t\<close>, and needs \<open>d\<close> to replay them, comes up without an error with
  exactly the keys, values and versions the store had and the same key count; an expiry time
  moves by at most \<open>d\<close>.
\<close>

theorem recovery_restores_store:
  assumes "runs (t + d) (s, dsk)" "calm t d env"
  shows "\<exists>s'. boot env dir (snap_file dsk) (map_option wal_file (wal s)) = Inr s' \<and> store_inv s' \<and>
    restored_map d (contents s) (contents s') \<and> Size s' = Size s"
proof -
  have "0 \<le> t + d" using assms(2) calm_duration [OF assms(2)] by (simp add: calm_def)
  with durable_boot [OF runs_durable [OF assms(1)] assms(2)] show ?thesis by blast
qed

theorem recovery_restores_store_witness:
  "\<exists>s s'. runs 103 (s, no_files) \<and> boot demo_env ''d'' None (map_option wal_file (wal s)) = Inr s' \<and> contents s' ''k'' \<noteq> None"
proof -
  define s where "s = snd (Set io_ok 10 10 ''k'' [7] 0 5 (NewStore (Some (fresh_wal ''d''))))"
  have run: "runs (100 + 3) (s, no_files)"
    using runs.step [OF runs.start [of "100 + 3" "''d''"], of "DoSet 10 10 ''k'' [7] 0 5"]
    by (simp add: s_def no_files_def assign_version_def lasting_def expiry_of_def IsZero_def)
  have "dom (contents s) = {''k''}"
    by (simp add: s_def Set_unfold assign_version_def log_append_def fresh_wal_def Append_io_ok Let_def Set_apply_contents
        NewStore_inv lww_put_def)
  moreover obtain s' where s': "boot demo_env ''d'' (snap_file no_files) (map_option wal_file (wal s)) = Inr s'"
    "restored_map 3 (contents s) (contents s')"
    using recovery_restores_store [OF run demo_env] by blast
  ultimately have "''k'' \<in> dom (contents s')" by (simp add: restored_map_dom)
  moreover have "boot demo_env ''d'' None (map_option wal_file (wal s)) = Inr s'"
    using s'(1) by (simp only: no_files_def disk.simps)
  moreover have "runs 103 (s, no_files)" using run by simp
  ultimately show ?thesis by blast
qed

text \<open>
  C29. A crash between the rename of a snapshot and the truncation of the log. The restart finds
  a snapshot that holds the effect of the log (on whatever the store was loaded with) and the
  whole log. If no record of the log has expired by the end of the recovery, which starts at \<open>t\<close>
  and takes at most \<open>d\<close>, replaying the log again changes nothing: the server comes up with the
  contents of the snapshot, an expiry moving by at most \<open>d\<close>. (With an expired record among them
  this fails: it is skipped, and does not overwrite what an earlier record puts back.)
\<close>

theorem replay_over_own_snapshot:
  assumes "calm t d env" "list_all rec_ok snap" "list_all (kept (t + d)) rs"
    and "fold load_effect snap Map.empty = fold rec_effect rs m"
  shows "\<exists>s. boot env dir (snap_image (Some snap)) (Some (concat (map encode rs))) = Inr s \<and> store_inv s \<and>
    restored_map d (fold load_effect snap Map.empty) (contents s)"
proof -
  obtain s where "boot env dir (snap_image (Some snap)) (Some (concat (map encode rs) @ [])) = Inr s" "store_inv s"
    "restored_map d (fold rec_effect rs (snap_contents (Some snap))) (contents s)"
    using boot_contents [OF assms(1), of "Some snap" rs "[]" dir] assms(2,3) by auto
  with assms(4) show ?thesis by (auto simp: snap_contents_def replay_idem)
qed

theorem replay_over_own_snapshot_witness:
  "\<exists>s. boot demo_env ''d'' (snap_image (Some [demo_rec])) (Some (encode demo_rec)) = Inr s \<and>
     restored_map 3 (load_effect demo_rec Map.empty) (contents s)"
proof -
  have "load_effect demo_rec Map.empty = rec_effect demo_rec Map.empty"
    by (simp add: load_effect_def rec_effect_def demo_rec_def lww_put_def)
  then show ?thesis
    using replay_over_own_snapshot [OF demo_env, of "[demo_rec]" "[demo_rec]" Map.empty "''d''"] by auto
qed

section \<open>What a restart gets wrong\<close>

lemma replay_callback_skips:
  assumes "rec_type r = RecordTypeSet" "\<not> IsZero (rec_expires r)" "rec_expires r \<le> fst (clk n)"
  shows "replay_callback clk r (n, s) = (None, (Suc n, s))"
  using assms by (auto simp: replay_callback_def Let_def case_prod_beta time_Sub_def)

text \<open>
  C36. Replay skips a SET record whose expiry has passed instead of letting it overwrite the
  older value of the key. If a value without expiry is overwritten by one that expires before
  the restart, the running store no longer returns the key, and the restarted server returns
  the overwritten value again.
\<close>

theorem restart_resurrects_overwritten:
  assumes "calm t d env" "rec_ok r1" "rec_ok r2" "rec_type r1 = RecordTypeSet" "rec_type r2 = RecordTypeSet"
    and "rec_key r1 = k" "rec_key r2 = k" "rec_version r1 \<noteq> 0" "rec_version r1 \<le> rec_version r2"
    and "IsZero (rec_expires r1)" "\<not> IsZero (rec_expires r2)" "rec_expires r2 < t"
  shows "live t (contents (replica_put k (entry_of r2) (replica_put k (entry_of r1) (NewStore None)))) k = None \<and>
    (\<exists>s'. boot env dir None (Some (encode r1 @ encode r2)) = Inr s' \<and>
       live t (contents s') k = Some (entry_of r1))"
proof -
  let ?clk = "env_clock env"
  have clk: "t \<le> fst (?clk n)" for n using assms(1) by (simp add: calm_def)
  have eff: "rec_effect r1 Map.empty = [k \<mapsto> entry_of r1]" using assms(4,6) by (simp add: rec_effect_def lww_put_def)
  obtain s1 where s1: "replay_callback ?clk r1 (0, NewStore None) = (None, (Suc 0, s1))"
    "restored_map d [k \<mapsto> entry_of r1] (contents s1)"
    using replay_callback_step [of t d r1 ?clk 0 "fst (?clk 0)" "snd (?clk 0)" "NewStore None" Map.empty]
      assms(1,2,8,10) NewStore_inv restored_map_refl [OF calm_duration [OF assms(1)]]
    by (auto simp: calm_def kept_def eff)
  have run: "run_records ApplyFailed (replay_callback ?clk) [r1, r2] (0, NewStore None) = (None, (Suc (Suc 0), s1))"
    using s1(1) replay_callback_skips [of r2 ?clk "Suc 0" s1] assms(5,11,12) clk [of "Suc 0"] by simp
  then have "boot env dir None (Some (encode r1 @ encode r2)) = Inr (SetWAL
      \<lparr>wal_file = encode r1 @ encode r2, wal_open = True, wal_path = (dir, ''wal.log''),
        wal_size = int (length (encode r1 @ encode r2))\<rparr> s1)"
    using wal_log.loop_log [of "[r1, r2]" "[]", where xs = "[]" and applyFunc = "replay_callback ?clk" and
        s = "(0, NewStore None)"] assms(1-3)
    by (simp add: boot_def LoadSnapshot_def NewWAL_def calm_def Replay_rio_ok)
  moreover have "contents s1 k = Some (entry_of r1)"
    using restored_map_at [OF s1(2), of k] assms(10)
    by (auto simp: rel_option_iff restored_def entry_of_def IsZero_def split: option.splits intro!: Entry.equality)
  moreover have "\<not> IsExpired t (entry_of r1)" using assms(10) by (simp add: IsExpired_def entry_of_def)
  moreover have "live t (contents (replica_put k (entry_of r2) (replica_put k (entry_of r1) (NewStore None)))) k = None"
    using assms(9,11,12) NewStore_inv
    by (simp add: store_replica.view_put store_replica.inv_put lww_put_def live_def)
      (simp add: IsExpired_def After_def entry_of_def not_less)
  ultimately show ?thesis by (simp add: live_def SetWAL_def)
qed

theorem restart_resurrects_overwritten_witness:
  "\<exists>s'. boot demo_env ''d'' None (Some (encode demo_rec @ encode (demo_rec\<lparr>rec_version := 6, rec_expires := 90\<rparr>))) = Inr s' \<and>
     live 100 (contents s') ''k'' = Some (entry_of demo_rec)"
proof -
  have "rec_ok (demo_rec\<lparr>rec_version := 6, rec_expires := 90\<rparr>)"
    by (simp add: demo_rec_def rec_ok_def exp_ok_def IsZero_def)
  moreover have "rec_type demo_rec = RecordTypeSet" "rec_key demo_rec = ''k''" "rec_version demo_rec = 5"
    "IsZero (rec_expires demo_rec)" "\<not> IsZero 90"
    by (simp_all add: demo_rec_def IsZero_def zero_time_def)
  ultimately show ?thesis
    using restart_resurrects_overwritten [OF demo_env, of demo_rec "demo_rec\<lparr>rec_version := 6, rec_expires := 90\<rparr>"
        "''k''" "''d''"]
    by simp
qed

end
