(* ===== verification/KV_Concurrent.thy ===== *)
theory KV_Concurrent
  imports KV_Durability
begin

text \<open>
  Interleavings of the store's operations. Each call is a small state machine whose steps are
  the sections the Go code runs under one lock: drawing a version (\<open>versionMu\<close>), appending to
  the log (the WAL's mutex), applying to the shard (the shard's mutex), looking up, lazily
  reaping, reaping one shard, and taking a snapshot (which holds the WAL's mutex and every
  shard's). Between two steps of one call any other call may take a step.
\<close>

section \<open>Threads and steps\<close>

datatype call =
    CSet string bytes duration uint64
  | CDelete string uint64
  | CGet string
  | CReap
  | CSnapshot

datatype outcome =
    RSet "go_error + uint64"
  | RDelete "go_error + uint64 \<times> bool"
  | RGet "(bytes \<times> uint64) option"
  | RReap
  | RSnapshot "go_error option"

datatype thread =
    Calling call
  | SetLog string bytes uint64 gotime
  | SetApply string bytes uint64 gotime
  | DelLog string uint64
  | DelApply string uint64
  | GetReap string
  | Reaping gotime nat
  | Returned outcome

record config =
  st :: Store
  dsk :: disk
  threads :: "thread list"

text \<open>What one section does to the store, the disk and the thread that runs it.\<close>

inductive section_step :: "thread \<Rightarrow> Store \<times> disk \<Rightarrow> thread \<Rightarrow> Store \<times> disk \<Rightarrow> bool" where
  set_begin: "assign_version now' ver s = (ver', s') \<Longrightarrow>
    section_step (Calling (CSet k v ttl ver)) (s, d) (SetLog k v ver' (expiry_of now ttl)) (s', d)"
| set_logged: "log_append io RecordTypeSet k v ver x s = (None, s') \<Longrightarrow>
    section_step (SetLog k v ver x) (s, d) (SetApply k v ver x) (s', d)"
| set_refused: "log_append io RecordTypeSet k v ver x s = (Some e, s') \<Longrightarrow>
    section_step (SetLog k v ver x) (s, d) (Returned (RSet (Inl e))) (s', d)"
| set_applied: "Set_apply k v ver x s = (r, s') \<Longrightarrow>
    section_step (SetApply k v ver x) (s, d) (Returned (RSet (Inr r))) (s', d)"
| del_begin: "assign_version now ver s = (ver', s') \<Longrightarrow>
    section_step (Calling (CDelete k ver)) (s, d) (DelLog k ver') (s', d)"
| del_logged: "log_append io RecordTypeDelete k [] ver zero_time s = (None, s') \<Longrightarrow>
    section_step (DelLog k ver) (s, d) (DelApply k ver) (s', d)"
| del_refused: "log_append io RecordTypeDelete k [] ver zero_time s = (Some e, s') \<Longrightarrow>
    section_step (DelLog k ver) (s, d) (Returned (RDelete (Inl e))) (s', d)"
| del_applied: "Delete_apply k ver s = (r, s') \<Longrightarrow>
    section_step (DelApply k ver) (s, d) (Returned (RDelete (Inr r))) (s', d)"
| get_absent: "getShard k s k = None \<Longrightarrow>
    section_step (Calling (CGet k)) (s, d) (Returned (RGet None)) (s, d)"
| get_found: "getShard k s k = Some e \<Longrightarrow> \<not> IsExpired now e \<Longrightarrow>
    section_step (Calling (CGet k)) (s, d) (Returned (RGet (Some (Value e, Version e)))) (s, d)"
| get_expired: "getShard k s k = Some e \<Longrightarrow> IsExpired now e \<Longrightarrow>
    section_step (Calling (CGet k)) (s, d) (GetReap k) (s, d)"
| get_reaped: "section_step (GetReap k) (s, d) (Returned (RGet None)) (Get_reap now k s, d)"
| reap_begin: "section_step (Calling CReap) (s, d) (Reaping now 0) (s, d)"
| reap_next: "i < ShardCount \<Longrightarrow>
    section_step (Reaping now i) (s, d) (Reaping now (Suc i)) (reap_shard now order i s, d)"
| reap_end: "section_step (Reaping now ShardCount) (s, d) (Returned RReap) (s, d)"
| snapshot: "CreateSnapshot fails now order s d = (e, s', d') \<Longrightarrow> visits order s \<Longrightarrow>
    section_step (Calling CSnapshot) (s, d) (Returned (RSnapshot e)) (s', d')"

text \<open>Any thread may take the next step.\<close>

inductive cstep :: "config \<Rightarrow> config \<Rightarrow> bool" where
  cstep: "i < length (threads c) \<Longrightarrow> section_step (threads c ! i) (st c, dsk c) t' (s', d') \<Longrightarrow>
    cstep c \<lparr>st = s', dsk = d', threads = (threads c)[i := t']\<rparr>"

inductive_cases cstepE: "cstep c c'"

text \<open>A call that has returned takes no further step.\<close>

inductive_simps returned_step [simp]: "section_step (Returned r) \<sigma> t \<sigma>'"

lemma returned_stays:
  assumes "cstep c c'" "i < length (threads c)" "threads c ! i = Returned r"
  shows "threads c' ! i = Returned r"
  using assms by (cases rule: cstep.cases) (auto simp: nth_list_update)

lemma cstep_thread:
  assumes "i < length ts" "section_step (ts ! i) (s, d) t' (s', d')"
  shows "cstep \<lparr>st = s, dsk = d, threads = ts\<rparr> \<lparr>st = s', dsk = d', threads = ts[i := t']\<rparr>"
  using cstep [of i "\<lparr>st = s, dsk = d, threads = ts\<rparr>" t' s' d'] assms by simp

section \<open>The invariant holds under every interleaving\<close>

lemma CreateSnapshot_inv: "CreateSnapshot fails now order s d = (e, s', d') \<Longrightarrow> store_inv s \<Longrightarrow> store_inv s'"
  using CreateSnapshot_outcome [of fails now order s d e s' d'] by auto

lemma section_step_inv:
  assumes "section_step t (s, d) t' (s', d')" "store_inv s"
  shows "store_inv s'"
  using assms
proof (cases rule: section_step.cases)
  case (set_begin now' ver ver' k v ttl now)
  then show ?thesis using assms(2) assign_version_frame(2) [of now' ver s] by simp
next
  case (set_logged io k v ver x)
  then show ?thesis using assms(2) log_append_frame(2) [of io RecordTypeSet k v ver x s] by simp
next
  case (set_refused io k v ver x e)
  then show ?thesis using assms(2) log_append_frame(2) [of io RecordTypeSet k v ver x s] by simp
next
  case (set_applied k v ver x r)
  then show ?thesis using Set_apply_inv [OF assms(2), of k v ver x] by simp
next
  case (del_begin now ver ver' k)
  then show ?thesis using assms(2) assign_version_frame(2) [of now ver s] by simp
next
  case (del_logged io k ver)
  then show ?thesis using assms(2) log_append_frame(2) [of io RecordTypeDelete k "[]" ver zero_time s] by simp
next
  case (del_refused io k ver e)
  then show ?thesis using assms(2) log_append_frame(2) [of io RecordTypeDelete k "[]" ver zero_time s] by simp
next
  case (del_applied k ver r)
  then show ?thesis using Delete_apply_inv [OF assms(2), of k ver] by simp
qed (use assms(2) Get_reap_inv reap_shard_step CreateSnapshot_inv in blast)+

lemma cstep_inv: "cstep c c' \<Longrightarrow> store_inv (st c) \<Longrightarrow> store_inv (st c')"
  by (erule cstepE) (auto dest: section_step_inv)

section \<open>Undisturbed calls\<close>

text \<open>The sequential operations, as atomic executions of a call.\<close>

inductive atomic :: "call \<Rightarrow> Store \<times> disk \<Rightarrow> outcome \<Rightarrow> Store \<times> disk \<Rightarrow> bool" where
  "Set io now now' k v ttl ver s = (r, s') \<Longrightarrow> atomic (CSet k v ttl ver) (s, d) (RSet r) (s', d)"
| "Delete io now k ver s = (r, s') \<Longrightarrow> atomic (CDelete k ver) (s, d) (RDelete r) (s', d)"
| "Get now now' k s = (r, s') \<Longrightarrow> atomic (CGet k) (s, d) (RGet r) (s', d)"
| "atomic CReap (s, d) RReap (reap now order s, d)"
| "CreateSnapshot fails now order s d = (e, s', d') \<Longrightarrow> visits order s \<Longrightarrow>
     atomic CSnapshot (s, d) (RSnapshot e) (s', d')"

text \<open>A thread that takes several steps in a row, the others standing still.\<close>

inductive undisturbed :: "thread \<Rightarrow> Store \<times> disk \<Rightarrow> thread \<Rightarrow> Store \<times> disk \<Rightarrow> bool" where
  undisturbed_refl: "undisturbed t \<sigma> t \<sigma>"
| undisturbed_step: "section_step t \<sigma> t' \<sigma>' \<Longrightarrow> undisturbed t' \<sigma>' t'' \<sigma>'' \<Longrightarrow> undisturbed t \<sigma> t'' \<sigma>''"

lemma undisturbed_csteps:
  assumes "undisturbed t \<sigma> t' \<sigma>'" "i < length ts" "ts ! i = t"
  shows "cstep\<^sup>*\<^sup>* \<lparr>st = fst \<sigma>, dsk = snd \<sigma>, threads = ts\<rparr>
    \<lparr>st = fst \<sigma>', dsk = snd \<sigma>', threads = ts[i := t']\<rparr>"
  using assms
proof (induction arbitrary: ts rule: undisturbed.induct)
  case (undisturbed_refl t \<sigma>)
  then show ?case by (auto simp: list_update_same_conv)
next
  case (undisturbed_step t \<sigma> t' \<sigma>' t'' \<sigma>'')
  have "cstep \<lparr>st = fst \<sigma>, dsk = snd \<sigma>, threads = ts\<rparr> \<lparr>st = fst \<sigma>', dsk = snd \<sigma>', threads = ts[i := t']\<rparr>"
    using undisturbed_step by (intro cstep_thread) simp_all
  with undisturbed_step.IH [of "ts[i := t']"] undisturbed_step.prems show ?case
    by (simp add: converse_rtranclp_into_rtranclp)
qed

lemmas one_step = undisturbed_step [OF _ undisturbed_refl]

lemma Set_undisturbed:
  assumes "Set io now now' k v ttl ver s = (r, s')"
  shows "undisturbed (Calling (CSet k v ttl ver)) (s, d) (Returned (RSet r)) (s', d)"
proof -
  obtain ver' s0 where v: "assign_version now' ver s = (ver', s0)" by fastforce
  obtain e s1 where l: "log_append io RecordTypeSet k v ver' (expiry_of now ttl) s0 = (e, s1)" by fastforce
  obtain r' s2 where a: "Set_apply k v ver' (expiry_of now ttl) s1 = (r', s2)" by fastforce
  show ?thesis
  proof (cases e)
    case None
    with assms v l a have "r = Inr r'" "s' = s2" by (simp_all add: Set_unfold Let_def)
    then show ?thesis
      using undisturbed_step [OF set_begin [OF v] undisturbed_step [OF set_logged one_step [OF set_applied [OF a]]]] l None
      by blast
  next
    case (Some x)
    with assms v l have "r = Inl x" "s' = s1" by (simp_all add: Set_unfold Let_def)
    then show ?thesis
      using undisturbed_step [OF set_begin [OF v] one_step [OF set_refused]] l Some by blast
  qed
qed

lemma Delete_undisturbed:
  assumes "Delete io now k ver s = (r, s')"
  shows "undisturbed (Calling (CDelete k ver)) (s, d) (Returned (RDelete r)) (s', d)"
proof -
  obtain ver' s0 where v: "assign_version now ver s = (ver', s0)" by fastforce
  obtain e s1 where l: "log_append io RecordTypeDelete k [] ver' zero_time s0 = (e, s1)" by fastforce
  obtain r' s2 where a: "Delete_apply k ver' s1 = (r', s2)" by fastforce
  show ?thesis
  proof (cases e)
    case None
    with assms v l a have "r = Inr r'" "s' = s2" by (simp_all add: Delete_unfold Let_def)
    then show ?thesis
      using undisturbed_step [OF del_begin [OF v] undisturbed_step [OF del_logged one_step [OF del_applied [OF a]]]] l None
      by blast
  next
    case (Some x)
    with assms v l have "r = Inl x" "s' = s1" by (simp_all add: Delete_unfold Let_def)
    then show ?thesis
      using undisturbed_step [OF del_begin [OF v] one_step [OF del_refused]] l Some by blast
  qed
qed

lemma Get_undisturbed:
  assumes "Get now now' k s = (r, s')"
  shows "undisturbed (Calling (CGet k)) (s, d) (Returned (RGet r)) (s', d)"
proof (cases "getShard k s k")
  case None
  with assms show ?thesis by (auto simp: Get_def intro!: one_step get_absent)
next
  case (Some e)
  with assms show ?thesis
    using one_step [OF get_found [OF Some]] undisturbed_step [OF get_expired [OF Some] one_step [OF get_reaped]]
    by (cases "IsExpired now e") (auto simp: Get_def)
qed

lemma reap_undisturbed:
  "undisturbed (Calling CReap) (s, d) (Returned RReap) (reap now order s, d)"
proof -
  have "undisturbed (Reaping now (ShardCount - n)) (s, d) (Returned RReap)
      (fold (reap_shard now order) [ShardCount - n..<ShardCount] s, d)" if "n \<le> ShardCount" for n s
    using that
  proof (induction n arbitrary: s)
    case 0
    then show ?case using one_step [OF reap_end] by simp
  next
    case (Suc n)
    let ?i = "ShardCount - Suc n"
    have i: "?i < ShardCount" "Suc ?i = ShardCount - n" using Suc.prems by auto
    show ?case
      using undisturbed_step [OF reap_next [OF i(1)]] Suc.IH [of "reap_shard now order ?i s"] Suc.prems i
      by (simp add: upt_conv_Cons)
  qed
  from this [of ShardCount s] show ?thesis
    using undisturbed_step [OF reap_begin] by (simp add: reap_def)
qed

text \<open>
  The sequential operations are executions of the concurrent system: a call that runs
  without interference takes its thread from the call to the result that \<open>Set\<close>, \<open>Delete\<close>,
  \<open>Get\<close>, \<open>reap\<close> or \<open>CreateSnapshot\<close> computes, with the same effect on store and files.
\<close>

lemma atomic_call_is_interleaving:
  assumes "atomic call (s, d) r (s', d')" "i < length ts" "ts ! i = Calling call"
  shows "cstep\<^sup>*\<^sup>* \<lparr>st = s, dsk = d, threads = ts\<rparr> \<lparr>st = s', dsk = d', threads = ts[i := Returned r]\<rparr>"
proof -
  have "undisturbed (Calling call) (s, d) (Returned r) (s', d')"
    using assms(1)
    by (cases rule: atomic.cases)
      (auto intro: Set_undisturbed Delete_undisturbed Get_undisturbed reap_undisturbed one_step [OF snapshot])
  from undisturbed_csteps [OF this assms(2,3)] show ?thesis by simp
qed

section \<open>Durable interleavings\<close>

text \<open>
  Sets without a time to live, reads and reaps, in any interleaving, where a log write that
  fails puts down the whole record or nothing. \<open>W\<close> is the set of writes (key, value, version) that
  reach the log; versions there are not 0.
\<close>

definition logged :: "Store \<Rightarrow> bytes" where
  "logged s = (case wal s of None \<Rightarrow> [] | Some w \<Rightarrow> wal_file w)"

definition write_rec :: "string \<Rightarrow> bytes \<Rightarrow> uint64 \<Rightarrow> gotime \<Rightarrow> wal_rec" where
  "write_rec k v ver x = set_rec k \<lparr>Value = v, Version = ver, ExpiresAt = x\<rparr>"

fun whole_write :: "(string \<times> bytes \<times> uint64) set \<Rightarrow> thread \<Rightarrow> Store \<Rightarrow> Store \<Rightarrow> bool" where
  "whole_write W (SetLog k v ver x) s s' \<longleftrightarrow> logged s' = logged s \<or>
     (logged s' = logged s @ encode (write_rec k v ver x) \<and> rec_ok (write_rec k v ver x) \<and> ver \<noteq> 0 \<and> (k, v, ver) \<in> W)"
| "whole_write W t s s' \<longleftrightarrow> True"

inductive wstep :: "(string \<times> bytes \<times> uint64) set \<Rightarrow> config \<Rightarrow> config \<Rightarrow> bool" for W where
  wstep: "i < length (threads c) \<Longrightarrow> section_step (threads c ! i) (st c, dsk c) t' (s', d') \<Longrightarrow>
    whole_write W (threads c ! i) (st c) s' \<Longrightarrow>
    wstep W c \<lparr>st = s', dsk = d', threads = (threads c)[i := t']\<rparr>"

fun lasting_call :: "thread \<Rightarrow> bool" where
  "lasting_call (Calling (CSet k v ttl ver)) \<longleftrightarrow> ttl = 0"
| "lasting_call (Calling (CGet k)) \<longleftrightarrow> True"
| "lasting_call (Calling CReap) \<longleftrightarrow> True"
| "lasting_call t \<longleftrightarrow> False"

text \<open>What a thread in the middle of a call has done to the log.\<close>

fun thread_ok :: "wal_rec set \<Rightarrow> thread \<Rightarrow> bool" where
  "thread_ok R (Calling (CSet k v ttl ver)) \<longleftrightarrow> ttl = 0"
| "thread_ok R (Calling (CDelete k ver)) \<longleftrightarrow> False"
| "thread_ok R (Calling CSnapshot) \<longleftrightarrow> False"
| "thread_ok R (SetLog k v ver x) \<longleftrightarrow> x = zero_time"
| "thread_ok R (SetApply k v ver x) \<longleftrightarrow> x = zero_time \<and> write_rec k v ver x \<in> R"
| "thread_ok R (DelLog k ver) \<longleftrightarrow> False"
| "thread_ok R (DelApply k ver) \<longleftrightarrow> False"
| "thread_ok R t \<longleftrightarrow> True"

definition log_rec :: "(string \<times> bytes \<times> uint64) set \<Rightarrow> wal_rec \<Rightarrow> bool" where
  "log_rec W r \<longleftrightarrow> rec_ok r \<and> rec_version r \<noteq> 0 \<and> rec_type r = RecordTypeSet \<and> rec_expires r = zero_time \<and>
     (rec_key r, rec_value r, rec_version r) \<in> W"

text \<open>Every logged write is applied, about to be, or was refused.\<close>

definition covered :: "config \<Rightarrow> wal_rec \<Rightarrow> bool" where
  "covered c r \<longleftrightarrow> SetApply (rec_key r) (rec_value r) (rec_version r) (rec_expires r) \<in> set (threads c) \<or>
     older (Some (entry_of r)) (contents (st c) (rec_key r)) \<or> (\<exists>e. Returned (RSet (Inl e)) \<in> set (threads c))"

definition wal_covers :: "(string \<times> bytes \<times> uint64) set \<Rightarrow> config \<Rightarrow> wal_rec list \<Rightarrow> bool" where
  "wal_covers W c rs \<longleftrightarrow> store_inv (st c) \<and> wal (st c) \<noteq> None \<and> logged (st c) = concat (map encode rs) \<and>
     (\<forall>r \<in> set rs. log_rec W r \<and> covered c r) \<and>
     (\<forall>k e. contents (st c) k = Some e \<longrightarrow> ExpiresAt e = zero_time \<and> set_rec k e \<in> set rs) \<and>
     (\<forall>t \<in> set (threads c). thread_ok (set rs) t)"

lemma Append_file:
  "Append io rt k v ver x w = (e, w') \<Longrightarrow>
     (e = None \<longrightarrow> wal_file w' = wal_file w @ record_buf rt k v ver x)"
  by (auto simp: Append_def Let_def split: if_splits option.splits)

lemma encode_write: "encode (write_rec k v ver x) = record_buf RecordTypeSet k v ver x"
  by (simp add: encode_def write_rec_def set_rec_def)

lemma log_append_logged:
  assumes "log_append io RecordTypeSet k v ver x s = (e, s')" "wal s \<noteq> None"
  shows "wal s' \<noteq> None" "e = None \<Longrightarrow> logged s' = logged s @ encode (write_rec k v ver x)"
  using assms Append_file by (auto simp: log_append_def logged_def encode_write split: prod.splits)

lemma encode_nonempty: "encode r \<noteq> []"
  by (metis encode_layout length_frame add_is_0 list.size(3) zero_neq_numeral)

lemma older_trans: "older x y \<Longrightarrow> older y z \<Longrightarrow> older x z"
  by (auto simp: older_def split: option.splits)

lemma older_refl: "older x x"
  by (simp add: older_def split: option.split)

lemma thread_ok_mono: "thread_ok R t \<Longrightarrow> R \<subseteq> R' \<Longrightarrow> thread_ok R' t"
  by (induction R t rule: thread_ok.induct) auto

lemma set_update_other: "x \<in> set xs \<Longrightarrow> x \<noteq> xs ! i \<Longrightarrow> x \<in> set (xs[i := y])"
  by (metis in_set_conv_nth length_list_update nth_list_update_neq)

text \<open>
  What a step has to show: the log grows by records of its own, entries come from the log and
  grow newer, and a write leaves its thread only into the store.
\<close>

lemma wal_covers_step:
  assumes inv: "wal_covers W c rs" and i: "i < length (threads c)"
    and s': "store_inv s'" "wal s' \<noteq> None" "logged s' = concat (map encode rs')" "set rs \<subseteq> set rs'"
    and t': "thread_ok (set rs') t'"
    and new: "\<And>r. r \<in> set rs' \<Longrightarrow> r \<notin> set rs \<Longrightarrow> log_rec W r \<and>
      (SetApply (rec_key r) (rec_value r) (rec_version r) (rec_expires r) = t' \<or> (\<exists>e. t' = Returned (RSet (Inl e))))"
    and entries: "\<And>k e. contents s' k = Some e \<Longrightarrow> contents (st c) k = Some e \<or> (ExpiresAt e = zero_time \<and> set_rec k e \<in> set rs')"
    and newer: "\<And>k. older (contents (st c) k) (contents s' k)"
    and applied: "\<And>k v ver x. threads c ! i = SetApply k v ver x \<Longrightarrow> older (Some \<lparr>Value = v, Version = ver, ExpiresAt = x\<rparr>) (contents s' k)"
    and running: "\<And>r. threads c ! i \<noteq> Returned r"
  shows "wal_covers W \<lparr>st = s', dsk = d', threads = (threads c)[i := t']\<rparr> rs'"
proof -
  let ?c' = "\<lparr>st = s', dsk = d', threads = (threads c)[i := t']\<rparr>"
  have t'_in: "t' \<in> set ((threads c)[i := t'])" using i by (rule set_update_memI)
  have "covered ?c' r" if r: "r \<in> set rs" for r
  proof -
    consider "SetApply (rec_key r) (rec_value r) (rec_version r) (rec_expires r) \<in> set (threads c)"
      | "older (Some (entry_of r)) (contents (st c) (rec_key r))" | e where "Returned (RSet (Inl e)) \<in> set (threads c)"
      using inv r by (auto simp: wal_covers_def covered_def)
    then show ?thesis
    proof cases
      case 1
      then show ?thesis
        using set_update_other [OF 1, of i t'] applied [of "rec_key r" "rec_value r" "rec_version r" "rec_expires r"]
        by (cases "SetApply (rec_key r) (rec_value r) (rec_version r) (rec_expires r) = threads c ! i")
          (simp_all add: covered_def entry_of_def)
    next
      case 2
      with newer older_trans show ?thesis by (fastforce simp: covered_def)
    next
      case 3
      with running [of "RSet (Inl e)"] set_update_other [OF 3, of i t'] show ?thesis by (auto simp: covered_def)
    qed
  qed
  moreover have "covered ?c' r" if "r \<in> set rs'" "r \<notin> set rs" for r
    using new [OF that] t'_in by (auto simp: covered_def)
  moreover have "thread_ok (set rs') t" if "t \<in> set ((threads c)[i := t'])" for t
    using that t' inv thread_ok_mono [OF _ s'(4)] set_update_subset_insert [of "threads c" i t'] by (auto simp: wal_covers_def)
  moreover have "ExpiresAt e = zero_time \<and> set_rec k e \<in> set rs'" if "contents s' k = Some e" for k e
    using entries [OF that] inv s'(4) by (auto simp: wal_covers_def)
  moreover have "log_rec W r" if "r \<in> set rs'" for r
    using new [OF that] inv by (cases "r \<in> set rs") (auto simp: wal_covers_def)
  ultimately show ?thesis using s' by (auto simp: wal_covers_def)
qed

lemma wal_covers_same:
  assumes "wal_covers W c rs" "i < length (threads c)" "store_inv s'" "wal s' = wal (st c)" "contents s' = contents (st c)"
    and "thread_ok (set rs) t'" "\<And>k v ver x. threads c ! i \<noteq> SetApply k v ver x" "\<And>r. threads c ! i \<noteq> Returned r"
  shows "wal_covers W \<lparr>st = s', dsk = d', threads = (threads c)[i := t']\<rparr> rs"
  using assms by (intro wal_covers_step [OF assms(1,2)]) (auto simp: wal_covers_def logged_def older_refl)

lemma wal_covers_thread: "wal_covers W c rs \<Longrightarrow> i < length (threads c) \<Longrightarrow> thread_ok (set rs) (threads c ! i)"
  using nth_mem by (auto simp: wal_covers_def)

lemma wal_covers_live: "wal_covers W c rs \<Longrightarrow> live now (contents (st c)) = contents (st c)"
  by (auto simp: wal_covers_def live_def IsExpired_def IsZero_def fun_eq_iff split: option.split)

lemma rec_of_write [simp]:
  "rec_key (write_rec k v ver x) = k" "rec_value (write_rec k v ver x) = v" "rec_version (write_rec k v ver x) = ver"
  "rec_expires (write_rec k v ver x) = x" "rec_type (write_rec k v ver x) = RecordTypeSet"
  by (simp_all add: write_rec_def set_rec_def)

lemma wal_covers_logged:
  assumes inv: "wal_covers W c rs" and i: "i < length (threads c)" "threads c ! i = SetLog k v ver x"
    and log: "log_append io RecordTypeSet k v ver x (st c) = (e, s')" and whole: "whole_write W (SetLog k v ver x) (st c) s'"
    and t': "t' = (case e of None \<Rightarrow> SetApply k v ver x | Some err \<Rightarrow> Returned (RSet (Inl err)))"
  shows "\<exists>rs'. wal_covers W \<lparr>st = s', dsk = d', threads = (threads c)[i := t']\<rparr> rs'"
proof -
  let ?r = "write_rec k v ver x"
  have x: "x = zero_time" using wal_covers_thread [OF inv i(1)] i(2) by simp
  have s': "store_inv s'" "contents s' = contents (st c)" "wal s' \<noteq> None"
    using inv log log_append_frame [of io RecordTypeSet k v ver x "st c"] log_append_logged(1) [OF log]
    by (auto simp: wal_covers_def)
  show ?thesis
  proof (cases "logged s' = logged (st c)")
    case True
    then obtain err where "e = Some err"
      using log_append_logged(2) [OF log] inv encode_nonempty by (cases e) (auto simp: wal_covers_def)
    with True s' i inv t' have "wal_covers W \<lparr>st = s', dsk = d', threads = (threads c)[i := t']\<rparr> rs"
      by (intro wal_covers_step [OF inv i(1)]) (auto simp: wal_covers_def older_refl)
    then show ?thesis ..
  next
    case False
    with whole have grown: "logged s' = logged (st c) @ encode ?r" "log_rec W ?r"
      using x by (auto simp: log_rec_def)
    have "wal_covers W \<lparr>st = s', dsk = d', threads = (threads c)[i := t']\<rparr> (rs @ [?r])"
      using grown s' i inv t' x
      by (intro wal_covers_step [OF inv i(1)]) (auto simp: wal_covers_def older_refl split: option.split)
    then show ?thesis ..
  qed
qed

lemma wal_covers_applied:
  assumes inv: "wal_covers W c rs" and i: "i < length (threads c)" "threads c ! i = SetApply k v ver x"
    and app: "Set_apply k v ver x (st c) = (r, s')"
  shows "wal_covers W \<lparr>st = s', dsk = d', threads = (threads c)[i := Returned (RSet (Inr r))]\<rparr> rs"
proof (rule wal_covers_step [OF inv i(1)])
  let ?e = "\<lparr>Value = v, Version = ver, ExpiresAt = x\<rparr>"
  have ok: "store_inv (st c)" "x = zero_time" "write_rec k v ver x \<in> set rs"
    using wal_covers_thread [OF inv i(1)] i(2) inv by (auto simp: wal_covers_def)
  have put: "contents s' = lww_put Version k ?e (contents (st c))"
    using Set_apply_contents [OF ok(1), of k v ver x] app by simp
  show "store_inv s'" using Set_apply_inv [OF ok(1), of k v ver x] app by simp
  have "wal s' = wal (st c)" using apply_frame(1) [of k v ver x "st c"] app by simp
  then show "wal s' \<noteq> None" "logged s' = concat (map encode rs)" using inv by (simp_all add: wal_covers_def logged_def)
  show "contents (st c) k' = Some e \<or> (ExpiresAt e = zero_time \<and> set_rec k' e \<in> set rs)" if "contents s' k' = Some e" for k' e
    using that ok put by (auto simp: lww_put_def write_rec_def split: option.splits if_splits)
  show "older (contents (st c) k') (contents s' k')" for k'
    by (auto simp: put lww_put_def older_def not_less split: option.split)
  show "older (Some \<lparr>Value = v', Version = ver', ExpiresAt = x'\<rparr>) (contents s' k')"
    if "threads c ! i = SetApply k' v' ver' x'" for k' v' ver' x'
    using that i(2) by (auto simp: put lww_put_def older_def split: option.split)
qed (use i in simp_all)

lemma wal_covers_wstep:
  assumes "wstep W c c'" "wal_covers W c rs"
  shows "\<exists>rs'. wal_covers W c' rs'"
  using assms(1)
proof (cases rule: wstep.cases)
  case (wstep i t' s' d')
  have inv: "store_inv (st c)" and ok: "thread_ok (set rs) (threads c ! i)"
    using assms(2) nth_mem [OF wstep(2)] by (auto simp: wal_covers_def)
  note same = exI [of "wal_covers W c'" rs, OF wal_covers_same [OF assms(2) wstep(2), of s' t' d', folded wstep(1)]]
  from wstep(3) show ?thesis
  proof (cases rule: section_step.cases)
    case (set_begin now' ver ver' k v ttl now)
    with ok assign_version_frame [of now' ver "st c"] inv show ?thesis
      by (intro same) (simp_all add: expiry_of_def)
  next
    case (set_logged io k v ver x)
    with wal_covers_logged [OF assms(2) wstep(2) _ set_logged(4)] wstep show ?thesis by simp
  next
    case (set_refused io k v ver x e)
    with wal_covers_logged [OF assms(2) wstep(2) _ set_refused(4)] wstep show ?thesis by simp
  next
    case (set_applied k v ver x r)
    with wal_covers_applied [OF assms(2) wstep(2)] show ?thesis unfolding wstep(1) by blast
  next
    case (get_reaped k now)
    with Get_reap_contents [OF inv, of now k] wal_covers_live [OF assms(2), of now] Get_reap_inv [OF inv, of now k]
    show ?thesis
      by (intro same) (auto simp: Get_reap_def add_keyCount_def live_def fun_eq_iff split: option.splits if_splits)
  next
    case (reap_next j now order)
    with reap_shard_step [OF inv, of j now order] wal_covers_live [OF assms(2), of now] show ?thesis
      by (intro same) auto
  qed (use ok inv same in simp_all)
qed

text \<open>A log of SET records: what replaying it leaves under a key.\<close>

lemma set_effect_newer:
  assumes "\<And>r. r \<in> set rs \<Longrightarrow> rec_type r = RecordTypeSet"
  shows "older (m k) (fold rec_effect rs m k)"
  using assms
proof (induction rs arbitrary: m)
  case (Cons r rs)
  have "older (m k) (rec_effect r m k)"
    using Cons.prems [of r] by (auto simp: rec_effect_def lww_put_def older_def not_less split: option.split)
  moreover have "older (rec_effect r m k) (fold rec_effect rs (rec_effect r m) k)" using Cons by simp
  ultimately show ?case using older_trans by simp
qed (simp add: older_refl)

lemma replayed_newest:
  assumes "r \<in> set rs" "\<And>r. r \<in> set rs \<Longrightarrow> rec_type r = RecordTypeSet"
  shows "older (Some (entry_of r)) (fold rec_effect rs m (rec_key r))"
proof -
  obtain xs ys where rs: "rs = xs @ r # ys" using split_list [OF assms(1)] by blast
  let ?m = "fold rec_effect xs m"
  have "older (Some (entry_of r)) (rec_effect r ?m (rec_key r))"
    using assms(2) [OF assms(1)] by (auto simp: rec_effect_def lww_put_def older_def split: option.split)
  moreover have "older (rec_effect r ?m (rec_key r)) (fold rec_effect ys (rec_effect r ?m) (rec_key r))"
    using assms(2) rs by (intro set_effect_newer) simp
  ultimately show ?thesis using older_trans by (simp add: rs)
qed

lemma replayed_logged:
  assumes "fold rec_effect rs m k = Some e" "\<And>r. r \<in> set rs \<Longrightarrow> rec_type r = RecordTypeSet"
  shows "m k = Some e \<or> (\<exists>r \<in> set rs. rec_key r = k \<and> e = entry_of r)"
  using assms
proof (induction rs arbitrary: m)
  case (Cons r rs)
  from Cons.IH [of "rec_effect r m"] Cons.prems show ?case
    by (auto simp: rec_effect_def lww_put_def split: if_splits option.splits)
qed simp

definition one_value :: "(string \<times> bytes \<times> uint64) set \<Rightarrow> bool" where
  "one_value W \<longleftrightarrow> (\<forall>(k, v, n) \<in> W. \<forall>(k', v', n') \<in> W. k = k' \<longrightarrow> n = n' \<longrightarrow> v = v')"

lemma one_valueD: "one_value W \<Longrightarrow> (k, v, n) \<in> W \<Longrightarrow> (k, v', n) \<in> W \<Longrightarrow> v = v'"
  by (auto simp: one_value_def)

lemma replay_ahead:
  assumes inv: "wal_covers W c rs" and tie: "one_value W"
    and "values_of (contents (st c)) k = Some (v, n)"
  shows "\<exists>v' n'. values_of (fold rec_effect rs Map.empty) k = Some (v', n') \<and> (n < n' \<or> (v', n') = (v, n))"
proof -
  have recs: "log_rec W r" if "r \<in> set rs" for r using inv that by (simp add: wal_covers_def)
  then have types: "rec_type r = RecordTypeSet" if "r \<in> set rs" for r using that by (simp add: log_rec_def)
  obtain e where e: "contents (st c) k = Some e" "v = Value e" "n = Version e" using assms(3) by (auto simp: values_of_def)
  have mem: "set_rec k e \<in> set rs" using inv e(1) by (auto simp: wal_covers_def)
  obtain e' where e': "fold rec_effect rs Map.empty k = Some e'" "Version e \<le> Version e'"
    using replayed_newest [OF mem types, of Map.empty]
    by (auto simp: older_def set_rec_def entry_of_def split: option.splits)
  then obtain r where r: "r \<in> set rs" "rec_key r = k" "e' = entry_of r" using replayed_logged [of rs Map.empty k e'] types by auto
  have "Value e' = Value e" if "Version e' = Version e"
    using one_valueD [OF tie, of k "Value e'" "Version e'" "Value e"] recs [OF r(1)] recs [OF mem] r that
    by (auto simp: log_rec_def set_rec_def entry_of_def)
  with e e' show ?thesis by (auto simp: values_of_def)
qed

lemma replay_exact:
  assumes inv: "wal_covers W c rs" and tie: "one_value W"
    and quiet: "\<And>k v n x. SetApply k v n x \<notin> set (threads c)" "\<And>e. Returned (RSet (Inl e)) \<notin> set (threads c)"
  shows "values_of (fold rec_effect rs Map.empty) = values_of (contents (st c))"
proof
  fix k
  have types: "rec_type r = RecordTypeSet" if "r \<in> set rs" for r using inv that by (auto simp: wal_covers_def log_rec_def)
  show "values_of (fold rec_effect rs Map.empty) k = values_of (contents (st c)) k"
  proof (cases "fold rec_effect rs Map.empty k")
    case None
    then show ?thesis
      using replay_ahead [OF inv tie, of k] by (cases "contents (st c) k") (auto simp: values_of_def)
  next
    case (Some e')
    then obtain r where r: "r \<in> set rs" "rec_key r = k" "e' = entry_of r" using replayed_logged [of rs Map.empty k e'] types by auto
    with inv quiet have "older (Some e') (contents (st c) k)" by (auto simp: wal_covers_def covered_def)
    then obtain e where e: "contents (st c) k = Some e" "Version e' \<le> Version e" by (auto simp: older_def split: option.splits)
    with replay_ahead [OF inv tie, of k "Value e" "Version e"] Some show ?thesis by (auto simp: values_of_def)
  qed
qed

lemma restored_values: "restored_map d m m' \<Longrightarrow> values_of m' = values_of m"
proof
  fix k
  assume "restored_map d m m'"
  from restored_map_at [OF this, of k] show "values_of m' k = values_of m k"
    by cases (auto simp: values_of_def restored_def)
qed

section \<open>Versions drawn\<close>

text \<open>
  The version a step draws from \<open>NextVersion\<close>, and the versions drawn along an interleaving in
  which none is drawn while the counter stands at the largest 64-bit number.
\<close>

fun draw_of :: "thread \<Rightarrow> thread \<Rightarrow> uint64 list" where
  "draw_of (Calling (CSet k v ttl ver)) (SetLog k' v' ver' x) = (if ver = 0 then [ver'] else [])"
| "draw_of (Calling (CDelete k ver)) (DelLog k' ver') = (if ver = 0 then [ver'] else [])"
| "draw_of t t' = []"

inductive draws :: "config \<Rightarrow> uint64 list \<Rightarrow> config \<Rightarrow> bool" for c where
  no_draw: "draws c [] c"
| draw_step: "draws c vs c' \<Longrightarrow> i < length (threads c') \<Longrightarrow> section_step (threads c' ! i) (st c', dsk c') t' (s', d') \<Longrightarrow>
    vs' = draw_of (threads c' ! i) t' \<Longrightarrow> (vs' \<noteq> [] \<longrightarrow> lastVersion (st c') \<noteq> - 1) \<Longrightarrow>
    draws c (vs @ vs') \<lparr>st = s', dsk = d', threads = (threads c')[i := t']\<rparr>"

lemma section_draw:
  assumes "section_step t (s, d) t' (s', d')" "draw_of t t' \<noteq> [] \<Longrightarrow> lastVersion s \<noteq> - 1"
  shows "(draw_of t t' = [] \<and> lastVersion s' = lastVersion s) \<or> (draw_of t t' = [lastVersion s'] \<and> lastVersion s < lastVersion s')"
  using assms(1)
proof (cases rule: section_step.cases)
  case (set_begin now' ver ver' k v ttl now)
  with assms(2) NextVersion_increases [of s now'] NextVersion_last [of now' s] show ?thesis
    by (cases "ver = 0") (auto simp: assign_version_def)
next
  case (del_begin now ver ver' k)
  with assms(2) NextVersion_increases [of s now] NextVersion_last [of now s] show ?thesis
    by (cases "ver = 0") (auto simp: assign_version_def)
next
  case (set_logged io k v ver x)
  with log_append_frame(3) [of io RecordTypeSet k v ver x s] show ?thesis by simp
next
  case (set_refused io k v ver x e)
  with log_append_frame(3) [of io RecordTypeSet k v ver x s] show ?thesis by simp
next
  case (set_applied k v ver x r)
  with apply_frame(3) [of k v ver x s] show ?thesis by simp
next
  case (del_logged io k ver)
  with log_append_frame(3) [of io RecordTypeDelete k "[]" ver zero_time s] show ?thesis by simp
next
  case (del_refused io k ver e)
  with log_append_frame(3) [of io RecordTypeDelete k "[]" ver zero_time s] show ?thesis by simp
next
  case (del_applied k ver r)
  with apply_frame(4) [of k ver s] show ?thesis by simp
next
  case (snapshot fails now order e)
  with CreateSnapshot_outcome [of fails now order s d e s' d'] show ?thesis by auto
qed simp_all

lemma draws_increase:
  assumes "draws c vs c'"
  shows "sorted_wrt (<) (lastVersion (st c) # vs) \<and> (\<forall>v \<in> set (lastVersion (st c) # vs). v \<le> lastVersion (st c'))"
  using assms
proof (induction rule: draws.induct)
  case (draw_step vs c' i t' s' d' vs')
  from section_draw [OF draw_step(3)] draw_step(4,5)
  have "(vs' = [] \<and> lastVersion s' = lastVersion (st c')) \<or> (vs' = [lastVersion s'] \<and> lastVersion (st c') < lastVersion s')" by simp
  with draw_step.IH show ?case by (auto simp: sorted_wrt_append dest: le_less_trans)
qed simp

section \<open>Properties\<close>

text \<open>
  C8. However the calls are interleaved, the store stays well formed: every key is in its own
  shard and \<open>Size\<close> is the number of keys present (as an \<open>int64\<close>).
\<close>

theorem interleaving_keeps_invariant:
  assumes "cstep\<^sup>*\<^sup>* c c'" "store_inv (st c)"
  shows "store_inv (st c') \<and> Size (st c') = wrap64 (int (card (dom (contents (st c')))))"
proof -
  have "store_inv (st c')" using assms by (induction rule: rtranclp_induct) (auto intro: cstep_inv)
  then show ?thesis by (simp add: Size_def store_inv_def)
qed

theorem interleaving_keeps_invariant_witness:
  "store_inv (st \<lparr>st = reap 5 demo_order demo_store, dsk = no_files, threads = [Returned RReap]\<rparr>)"
proof -
  have "cstep\<^sup>*\<^sup>* \<lparr>st = demo_store, dsk = no_files, threads = [Calling CReap]\<rparr>
      \<lparr>st = reap 5 demo_order demo_store, dsk = no_files, threads = [Returned RReap]\<rparr>"
    using undisturbed_csteps [OF reap_undisturbed [of demo_store no_files 5 demo_order], of 0 "[Calling CReap]"] by simp
  from interleaving_keeps_invariant [OF this] show ?thesis by simp
qed

text \<open>
  C9. Durability of concurrent writes. Let sets without a time to live, reads and reaps run in any
  interleaving on a new store, with log writes that may fail but leave no partial record (each
  of a size the log can carry, under a version other than 0), and let no two writes of a key
  carry one version with different values. At any moment a restart from
  the log comes up without an error, and has every key that can be read, with the value and
  version that can be read or a newer one. Once no call stands between its log append and its
  update of the store, and no append has failed, the restart has exactly the keys, values and
  versions of the store.
\<close>

theorem concurrent_writes_durable:
  assumes "(wstep W)\<^sup>*\<^sup>* \<lparr>st = NewStore (Some (fresh_wal dir)), dsk = no_files, threads = ts\<rparr> c" "list_all lasting_call ts"
    and "one_value W" "calm t d env"
  shows "\<exists>s'. boot env dir None (map_option wal_file (wal (st c))) = Inr s' \<and> store_inv s' \<and>
    (\<forall>k v n. values_of (contents (st c)) k = Some (v, n) \<longrightarrow>
       (\<exists>v' n'. values_of (contents s') k = Some (v', n') \<and> (n < n' \<or> (v', n') = (v, n)))) \<and>
    ((\<forall>k v n x. SetApply k v n x \<notin> set (threads c)) \<longrightarrow> (\<forall>e. Returned (RSet (Inl e)) \<notin> set (threads c)) \<longrightarrow>
       values_of (contents s') = values_of (contents (st c)))"
proof -
  let ?c = "\<lparr>st = NewStore (Some (fresh_wal dir)), dsk = no_files, threads = ts\<rparr>"
  have "thread_ok {} th" if "lasting_call th" for th using that by (cases th rule: lasting_call.cases) simp_all
  then have "wal_covers W ?c []"
    using assms(2) NewStore_inv by (auto simp: wal_covers_def logged_def fresh_wal_def list_all_iff)
  with assms(1) obtain rs where rs: "wal_covers W c rs"
    by (induction arbitrary: thesis rule: rtranclp_induct) (blast dest: wal_covers_wstep)+
  let ?m = "fold rec_effect rs Map.empty"
  have logged: "map_option wal_file (wal (st c)) = Some (concat (map encode rs) @ [])"
    and recs: "\<And>r. r \<in> set rs \<Longrightarrow> log_rec W r"
    using rs by (auto simp: wal_covers_def logged_def)
  have "list_all (kept (t + d)) rs" using recs by (auto simp: list_all_iff log_rec_def kept_def IsZero_def)
  then obtain s' where s': "boot env dir None (map_option wal_file (wal (st c))) = Inr s'" "store_inv s'"
    "restored_map d ?m (contents s')"
    using boot_contents [OF assms(4), of None rs "[]" dir] unfolding logged by (auto simp: snap_image_def snap_contents_def)
  have ahead: "\<exists>v' n'. values_of ?m k = Some (v', n') \<and> (n < n' \<or> (v', n') = (v, n))"
    if "values_of (contents (st c)) k = Some (v, n)" for k v n
    by (rule replay_ahead [OF rs assms(3) that])
  moreover have "values_of ?m = values_of (contents (st c))"
    if "\<forall>k v n x. SetApply k v n x \<notin> set (threads c)" "\<forall>e. Returned (RSet (Inl e)) \<notin> set (threads c)"
    using replay_exact [OF rs assms(3)] that by blast
  ultimately show ?thesis using s' restored_values [OF s'(3)] by auto
qed

lemma wstep_thread:
  assumes "i < length ts" "section_step (ts ! i) (s, d) t' (s', d')" "whole_write W (ts ! i) s s'"
  shows "wstep W \<lparr>st = s, dsk = d, threads = ts\<rparr> \<lparr>st = s', dsk = d', threads = ts[i := t']\<rparr>"
  using wstep [of i "\<lparr>st = s, dsk = d, threads = ts\<rparr>" t' s' d'] assms by simp

theorem concurrent_writes_durable_witness:
  "\<exists>c s'. (wstep {(''k'', [7], 5)})\<^sup>*\<^sup>* \<lparr>st = NewStore (Some (fresh_wal ''d'')), dsk = no_files,
       threads = [Calling CReap, Calling (CSet ''k'' [7] 0 5)]\<rparr> c \<and> threads c ! 1 = Returned (RSet (Inr 5)) \<and>
     boot demo_env ''d'' None (map_option wal_file (wal (st c))) = Inr s' \<and> values_of (contents s') ''k'' = Some ([7], 5)"
proof -
  let ?W = "{(''k'', [7 :: byte], 5 :: uint64)}" and ?s = "NewStore (Some (fresh_wal ''d''))"
  obtain s1 where log: "log_append io_ok RecordTypeSet ''k'' [7] 5 zero_time ?s = (None, s1)"
    by (auto simp: log_append_def Append_io_ok fresh_wal_def)
  have s1: "store_inv s1" "contents s1 = Map.empty"
    using log_append_frame [of io_ok RecordTypeSet "''k''" "[7]" 5 zero_time ?s] log NewStore_inv by simp_all
  have app: "Set_apply ''k'' [7] 5 zero_time s1 = (5, snd (Set_apply ''k'' [7] 5 zero_time s1))"
    using Set_apply_result [of "''k''" "[7]" 5 zero_time s1] s1(2) by (simp add: prod_eq_iff)
  let ?c = "\<lparr>st = snd (Set_apply ''k'' [7] 5 zero_time s1), dsk = no_files, threads = [Calling CReap, Returned (RSet (Inr 5))]\<rparr>"
  have begin': "section_step (Calling (CSet ''k'' [7] 0 5)) (?s, no_files) (SetLog ''k'' [7] 5 zero_time) (?s, no_files)"
    using set_begin [of 0 5 ?s 5 ?s "''k''" "[7]" 0 no_files 0] by (simp add: assign_version_def expiry_of_def)
  have "whole_write ?W (SetLog ''k'' [7] 5 zero_time) ?s s1"
    using log_append_logged(2) [OF log] by (simp add: rec_ok_def exp_ok_def IsZero_def)
  note steps = wstep_thread [of 1 "[Calling CReap, Calling (CSet ''k'' [7] 0 5)]" ?s no_files "SetLog ''k'' [7] 5 zero_time" ?s no_files ?W]
    wstep_thread [of 1 "[Calling CReap, SetLog ''k'' [7] 5 zero_time]" ?s no_files "SetApply ''k'' [7] 5 zero_time" s1 no_files ?W]
    wstep_thread [of 1 "[Calling CReap, SetApply ''k'' [7] 5 zero_time]" s1 no_files "Returned (RSet (Inr 5))" "st ?c" no_files ?W]
  have run: "(wstep ?W)\<^sup>*\<^sup>* \<lparr>st = ?s, dsk = no_files, threads = [Calling CReap, Calling (CSet ''k'' [7] 0 5)]\<rparr> ?c"
    using steps begin' set_logged [OF log, of no_files] set_applied [OF app, of no_files] \<open>whole_write ?W _ ?s s1\<close>
    by (simp add: converse_rtranclp_into_rtranclp)
  have one: "one_value ?W" by (simp add: one_value_def)
  obtain s' where "boot demo_env ''d'' None (map_option wal_file (wal (st ?c))) = Inr s'"
    "values_of (contents s') = values_of (contents (st ?c))"
    using concurrent_writes_durable [OF run _ one demo_env] by auto
  moreover have "values_of (contents (st ?c)) ''k'' = Some ([7], 5)"
    using s1 by (simp add: Set_apply_contents values_of_def lww_put_def)
  ultimately show ?thesis using run by (intro exI [of _ ?c] exI [of _ s']) simp
qed

text \<open>
  C32. Versions are drawn in order. Take a store loaded from any snapshot file, and any
  interleaving of calls on it, with any readings of the clock, steps back included, and any
  failures of the log. As long as the counter does not reach the largest 64-bit number, the
  versions drawn by sets and deletes that bring none of their own are strictly increasing (so
  no two calls draw the same one), and each is above every version loaded from the file.
\<close>

theorem drawn_versions_increase:
  assumes "LoadSnapshot open_ok fault content (NewStore w) = (r, s)" "draws \<lparr>st = s, dsk = d, threads = ts\<rparr> vs c"
  shows "sorted_wrt (<) vs \<and> (\<forall>v \<in> set vs. \<forall>k e. contents s k = Some e \<longrightarrow> Version e < v)"
proof -
  have "sorted_wrt (<) (lastVersion s # vs)" using draws_increase [OF assms(2)] by simp
  then show ?thesis using LoadSnapshot_seen [OF assms(1)] by (fastforce simp: versions_seen_def dest: le_less_trans)
qed

theorem drawn_versions_increase_witness:
  "\<exists>vs c. draws \<lparr>st = NewStore None, dsk = no_files, threads = [Calling (CDelete ''k'' 0), Calling (CDelete ''k'' 0)]\<rparr> vs c \<and>
     length vs = 2 \<and> sorted_wrt (<) vs"
proof -
  let ?s = "NewStore None" and ?t = "Calling (CDelete ''k'' 0)"
  have load: "LoadSnapshot True None None ?s = (Inr False, ?s)" by (simp add: LoadSnapshot_def)
  have first: "section_step ?t (?s, no_files) (DelLog ''k'' 9) (?s\<lparr>lastVersion := 9\<rparr>, no_files)"
    using del_begin [of 9 0 ?s 9 "?s\<lparr>lastVersion := 9\<rparr>" "''k''" no_files]
    by (simp add: assign_version_def NextVersion_def NewStore_def UnixNano_def Let_def wrap64_def)
  have second: "section_step ?t (?s\<lparr>lastVersion := 9\<rparr>, no_files) (DelLog ''k'' 10) (?s\<lparr>lastVersion := 10\<rparr>, no_files)"
    using del_begin [of 4 0 "?s\<lparr>lastVersion := 9\<rparr>" 10 "?s\<lparr>lastVersion := 10\<rparr>" "''k''" no_files]
    by (simp add: assign_version_def NextVersion_def NewStore_def UnixNano_def Let_def wrap64_def)
  let ?c = "\<lparr>st = ?s, dsk = no_files, threads = [?t, ?t]\<rparr>"
  have "draws ?c ([] @ [9]) \<lparr>st = ?s\<lparr>lastVersion := 9\<rparr>, dsk = no_files, threads = [DelLog ''k'' 9, ?t]\<rparr>"
    using draw_step [OF no_draw [of ?c], of 0 "DelLog ''k'' 9" "?s\<lparr>lastVersion := 9\<rparr>" no_files] first
    by (simp add: NewStore_def)
  from draw_step [OF this, of 1 "DelLog ''k'' 10" "?s\<lparr>lastVersion := 10\<rparr>" no_files] second
  have "draws ?c [9, 10] \<lparr>st = ?s\<lparr>lastVersion := 10\<rparr>, dsk = no_files, threads = [DelLog ''k'' 9, DelLog ''k'' 10]\<rparr>" by simp
  then obtain vs c where vs: "draws ?c vs c" "length vs = 2" by fastforce
  with drawn_versions_increase [OF load vs(1)] show ?thesis by blast
qed

lemma cstep_first:
  "section_step t (s, d) t' (s', d') \<Longrightarrow>
     cstep \<lparr>st = s, dsk = d, threads = [t, u]\<rparr> \<lparr>st = s', dsk = d', threads = [t', u]\<rparr>"
  using cstep_thread [of 0 "[t, u]"] by simp

lemma cstep_second:
  "section_step u (s, d) u' (s', d') \<Longrightarrow>
     cstep \<lparr>st = s, dsk = d, threads = [t, u]\<rparr> \<lparr>st = s', dsk = d', threads = [t, u']\<rparr>"
  using cstep_thread [of 1 "[t, u]"] by simp

text \<open>A snapshot of an empty store: an empty image, and the log emptied.\<close>

lemma snapshot_of_empty:
  assumes "contents s = Map.empty" "store_inv s" "wal s = Some w" "wal_open w"
  shows "section_step (Calling CSnapshot) (s, no_files) (Returned (RSnapshot None))
    (s\<lparr>wal := Some (w\<lparr>wal_file := [], wal_size := 0\<rparr>)\<rparr>, \<lparr>snap_file = snap_image (Some []), snap_tmp = None\<rparr>)"
proof (rule snapshot)
  show "visits (\<lambda>_. []) s" using assms(1,2) by (simp add: visits_contents)
  have "snapshot_records 0 (\<lambda>_. []) s = []" by (simp add: snapshot_records_def)
  with assms(3,4) show "CreateSnapshot (\<lambda>_. False) 0 (\<lambda>_. []) s no_files =
      (None, s\<lparr>wal := Some (w\<lparr>wal_file := [], wal_size := 0\<rparr>)\<rparr>, \<lparr>snap_file = snap_image (Some []), snap_tmp = None\<rparr>)"
    by (simp add: CreateSnapshot_def no_files_def snap_image_def)
qed

text \<open>
  C35. An acknowledged write can be lost: a snapshot that falls between the log append and the
  update of the shard writes a file without the entry and then empties the log that held it.
  The call returns success, and a restart from the files does not know the key.
\<close>

theorem acknowledged_write_lost:
  assumes "length k \<le> 65535" "ver \<noteq> 0" "calm t d env"
  shows "\<exists>c. cstep\<^sup>*\<^sup>* \<lparr>st = NewStore (Some (fresh_wal dir)), dsk = no_files,
      threads = [Calling (CSet k v 0 ver), Calling CSnapshot]\<rparr> c \<and>
    threads c = [Returned (RSet (Inr ver)), Returned (RSnapshot None)] \<and>
    contents (st c) k = Some \<lparr>Value = v, Version = ver, ExpiresAt = zero_time\<rparr> \<and>
    (\<exists>s'. boot env dir (snap_file (dsk c)) (map_option wal_file (wal (st c))) = Inr s' \<and> contents s' k = None)"
proof -
  let ?s = "NewStore (Some (fresh_wal dir))"
  obtain s1 where log: "log_append io_ok RecordTypeSet k v ver zero_time ?s = (None, s1)"
    using assms(1) by (auto simp: log_append_def Append_io_ok fresh_wal_def)
  obtain w1 where w1: "wal s1 = Some w1" "wal_open w1"
    using log by (auto simp: log_append_def Append_io_ok fresh_wal_def split: if_splits)
  have s1: "store_inv s1" "contents s1 = Map.empty"
    using log_append_frame [of io_ok RecordTypeSet k v ver zero_time ?s] log NewStore_inv by simp_all
  define s2 where "s2 = s1\<lparr>wal := Some (w1\<lparr>wal_file := [], wal_size := 0\<rparr>)\<rparr>"
  define s3 where "s3 = snd (Set_apply k v ver zero_time s2)"
  have s2: "store_inv s2" "contents s2 = Map.empty" using s1 by (simp_all add: s2_def)
  have app: "Set_apply k v ver zero_time s2 = (ver, s3)"
    using s2(2) by (auto simp: s3_def Set_apply_def Let_def contents_def fun_eq_iff split: option.split)
  let ?d = "\<lparr>snap_file = snap_image (Some []), snap_tmp = None\<rparr>"
  let ?c = "\<lparr>st = s3, dsk = ?d, threads = [Returned (RSet (Inr ver)), Returned (RSnapshot None)]\<rparr>"
  have "section_step (Calling (CSet k v 0 ver)) (?s, no_files) (SetLog k v ver zero_time) (?s, no_files)"
    using set_begin [of 0 ver ?s ver ?s k v 0 no_files 0] assms(2) by (simp add: assign_version_def expiry_of_def)
  note steps = cstep_first [OF this, of "Calling CSnapshot"]
    cstep_first [OF set_logged [OF log, of no_files], of "Calling CSnapshot"]
    cstep_second [OF snapshot_of_empty [OF s1(2,1) w1, folded s2_def], of "SetApply k v ver zero_time"]
    cstep_first [OF set_applied [OF app, of ?d], of "Returned (RSnapshot None)"]
  have path: "cstep\<^sup>*\<^sup>* \<lparr>st = ?s, dsk = no_files, threads = [Calling (CSet k v 0 ver), Calling CSnapshot]\<rparr> ?c"
    using steps by (meson converse_rtranclp_into_rtranclp r_into_rtranclp)
  have mem: "contents s3 k = Some \<lparr>Value = v, Version = ver, ExpiresAt = zero_time\<rparr>"
    using s2 by (simp add: s3_def Set_apply_contents lww_put_def)
  have log_empty: "map_option wal_file (wal s3) = Some (concat (map encode []) @ [])"
    by (simp add: s3_def s2_def)
  obtain s' where "boot env dir (snap_image (Some [])) (map_option wal_file (wal s3)) = Inr s'"
    "restored_map d (snap_contents (Some [])) (contents s')"
    using boot_contents [OF assms(3), of "Some []" "[]" "[]" dir] unfolding log_empty by auto
  moreover from this(2) have "contents s' k = None"
    using restored_map_at [of d _ "contents s'" k] by (fastforce simp: snap_contents_def)
  ultimately show ?thesis using path mem by (intro exI [of _ ?c]) auto
qed

theorem acknowledged_write_lost_witness:
  "\<exists>(c :: config) s'. threads c = [Returned (RSet (Inr 5)), Returned (RSnapshot None)] \<and> contents (st c) ''k'' \<noteq> None \<and>
     boot demo_env ''d'' (snap_file (dsk c)) (map_option wal_file (wal (st c))) = Inr s' \<and> contents s' ''k'' = None"
proof -
  have ok: "length ''k'' \<le> 65535" "(5 :: uint64) \<noteq> 0" by simp_all
  obtain c :: config and s' where "threads c = [Returned (RSet (Inr 5)), Returned (RSnapshot None)]"
    "contents (st c) ''k'' = Some \<lparr>Value = [7], Version = 5, ExpiresAt = zero_time\<rparr>"
    "boot demo_env ''d'' (snap_file (dsk c)) (map_option wal_file (wal (st c))) = Inr s'" "contents s' ''k'' = None"
    using acknowledged_write_lost [OF ok demo_env, of "''d''" "[7]"] by (elim exE conjE) (rule that)
  then show ?thesis by (metis option.distinct(1))
qed

end
