(* ===== verification/KV_Peer.thy ===== *)
theory KV_Peer
  imports KV_Prelude
begin

text \<open>
  The membership table of \<open>internal/cluster/peer.go\<close>: a map from node ids to peers behind one
  lock. States are strings, as on the wire. Clock readings and the order in which \<open>range\<close>
  visits the map are arguments.
\<close>

section \<open>The code\<close>

definition StateAlive :: string where "StateAlive = ''alive''"

definition StateSuspect :: string where "StateSuspect = ''suspect''"

definition StateDead :: string where "StateDead = ''dead''"

record Peer =
  NodeID :: string
  Address :: string
  State :: string
  LastSeen :: gotime
  RTT :: duration
  ReplicationLag :: int
  SuspiciousAt :: gotime

type_synonym PeerManager = "string \<rightharpoonup> Peer"

definition NewPeerManager :: PeerManager where
  "NewPeerManager = Map.empty"

text \<open>A \<open>Peer\<close> literal with the other fields at their zero values.\<close>

definition new_peer :: "string \<Rightarrow> string \<Rightarrow> Peer" where
  "new_peer nodeID address = \<lparr>NodeID = nodeID, Address = address, State = [], LastSeen = zero_time,
     RTT = 0, ReplicationLag = 0, SuspiciousAt = zero_time\<rparr>"

text \<open>The two clock readings are for \<open>LastSeen\<close> and, for a suspect, for \<open>SuspiciousAt\<close>.\<close>

definition AddOrUpdate :: "gotime \<times> gotime \<Rightarrow> string \<Rightarrow> string \<Rightarrow> string \<Rightarrow> PeerManager \<Rightarrow> PeerManager" where
  "AddOrUpdate now nodeID address state pm =
     (let p = (case pm nodeID of None \<Rightarrow> new_peer nodeID address | Some p \<Rightarrow> p);
          p = p\<lparr>State := state, LastSeen := fst now\<rparr>;
          p = (if state = StateSuspect then p\<lparr>SuspiciousAt := snd now\<rparr> else p)
      in pm(nodeID \<mapsto> p))"

definition pm_Get :: "string \<Rightarrow> PeerManager \<Rightarrow> Peer option" where
  "pm_Get nodeID pm = pm nodeID"

definition GetAll :: "string list \<Rightarrow> PeerManager \<Rightarrow> Peer list" where
  "GetAll order pm = List.map_filter pm order"

definition UpdateRTT :: "gotime \<Rightarrow> string \<Rightarrow> duration \<Rightarrow> PeerManager \<Rightarrow> PeerManager" where
  "UpdateRTT now nodeID rtt pm =
     (case pm nodeID of None \<Rightarrow> pm | Some p \<Rightarrow> pm(nodeID \<mapsto> p\<lparr>RTT := rtt, LastSeen := now\<rparr>))"

definition UpdateLag :: "string \<Rightarrow> int \<Rightarrow> PeerManager \<Rightarrow> PeerManager" where
  "UpdateLag nodeID lag pm =
     (case pm nodeID of None \<Rightarrow> pm | Some p \<Rightarrow> pm(nodeID \<mapsto> p\<lparr>ReplicationLag := lag\<rparr>))"

section \<open>The invariant\<close>

text \<open>Every peer is filed under its own id; the order of a \<open>range\<close> visits every key once.\<close>

definition keyed :: "PeerManager \<Rightarrow> bool" where
  "keyed pm \<longleftrightarrow> (\<forall>k p. pm k = Some p \<longrightarrow> NodeID p = k)"

definition ranges :: "string list \<Rightarrow> PeerManager \<Rightarrow> bool" where
  "ranges order pm \<longleftrightarrow> distinct order \<and> set order = dom pm"

lemma states_distinct [simp]:
  "StateAlive \<noteq> StateSuspect" "StateSuspect \<noteq> StateAlive" "StateAlive \<noteq> StateDead"
  "StateDead \<noteq> StateAlive" "StateSuspect \<noteq> StateDead" "StateDead \<noteq> StateSuspect"
  by (simp_all add: StateAlive_def StateSuspect_def StateDead_def)

lemma AddOrUpdate_other [simp]: "k \<noteq> nodeID \<Longrightarrow> AddOrUpdate now nodeID address state pm k = pm k"
  by (simp add: AddOrUpdate_def Let_def)

lemma AddOrUpdate_same:
  "\<exists>p. AddOrUpdate now nodeID address state pm nodeID = Some p \<and> State p = state \<and> LastSeen p = fst now \<and>
     NodeID p = (case pm nodeID of None \<Rightarrow> nodeID | Some q \<Rightarrow> NodeID q) \<and>
     Address p = (case pm nodeID of None \<Rightarrow> address | Some q \<Rightarrow> Address q) \<and>
     SuspiciousAt p = (if state = StateSuspect then snd now else
       case pm nodeID of None \<Rightarrow> zero_time | Some q \<Rightarrow> SuspiciousAt q)"
  by (auto simp: AddOrUpdate_def Let_def new_peer_def split: option.split)

lemma AddOrUpdate_keyed: "keyed pm \<Longrightarrow> keyed (AddOrUpdate now nodeID address state pm)"
  by (auto simp: keyed_def AddOrUpdate_def Let_def new_peer_def split: option.splits if_splits)

lemma UpdateRTT_keyed: "keyed pm \<Longrightarrow> keyed (UpdateRTT now nodeID rtt pm)"
  by (auto simp: keyed_def UpdateRTT_def split: option.splits)

lemma UpdateLag_keyed: "keyed pm \<Longrightarrow> keyed (UpdateLag nodeID lag pm)"
  by (auto simp: keyed_def UpdateLag_def split: option.splits)

lemma dom_AddOrUpdate [simp]: "dom (AddOrUpdate now nodeID address state pm) = insert nodeID (dom pm)"
  by (simp add: AddOrUpdate_def Let_def)

lemma dom_UpdateRTT [simp]: "dom (UpdateRTT now nodeID rtt pm) = dom pm"
  by (auto simp: UpdateRTT_def split: option.splits)

lemma dom_UpdateLag [simp]: "dom (UpdateLag nodeID lag pm) = dom pm"
  by (auto simp: UpdateLag_def split: option.splits)

lemma GetAll_set:
  assumes "keyed pm" "ranges order pm"
  shows "set (GetAll order pm) = {p. pm (NodeID p) = Some p}"
proof -
  have "p \<in> set (GetAll order pm) \<longleftrightarrow> (\<exists>k \<in> set order. pm k = Some p)" for p
    by (induction order) (auto simp: GetAll_def List.map_filter_simps split: option.split)
  moreover have "(\<exists>k \<in> set order. pm k = Some p) \<longleftrightarrow> pm (NodeID p) = Some p" for p
    using assms unfolding keyed_def ranges_def by (metis domI)
  ultimately show ?thesis by blast
qed

lemma GetAll_ids:
  assumes "keyed pm" "ranges order pm"
  shows "map NodeID (GetAll order pm) = order"
proof -
  have "set order \<subseteq> dom pm" using assms(2) by (simp add: ranges_def)
  then show ?thesis using assms(1)
    by (induction order) (auto simp: GetAll_def List.map_filter_simps keyed_def)
qed

lemma GetAll_count:
  assumes "keyed pm" "ranges order pm"
  shows "length (filter P (GetAll order pm)) = card {k. \<exists>p. pm k = Some p \<and> P p}"
proof -
  have "map NodeID (GetAll order pm) = order" using GetAll_ids [OF assms] .
  then have dist: "distinct (map NodeID (filter P (GetAll order pm)))"
    using assms(2) by (metis distinct_map_filter ranges_def)
  have "set (map NodeID (filter P (GetAll order pm))) = {k. \<exists>p. pm k = Some p \<and> P p}"
    using GetAll_set [OF assms] assms(1) by (auto simp: keyed_def image_iff)
  with distinct_card [OF dist] show ?thesis by simp
qed

end
