(* ===== verification/KV_Gossip.thy ===== *)
theory KV_Gossip
  imports KV_Peer
begin

text \<open>
  Failure detection by gossip (\<open>internal/cluster/gossip.go\<close>): the choice of a peer to ping, the
  treatment of the answer, the merging of membership lists, and the promotion of suspects to
  dead. The HTTP exchange of a ping is an argument (\<open>ping_result\<close>); goroutines started by the
  code are returned as targets. Clock readings taken inside loops are indexed by the iteration.
\<close>

section \<open>The code\<close>

record GossipManager =
  gm_nodeID :: string
  gm_address :: string
  gm_seedAddr :: string
  gm_gossipInterval :: duration
  gm_pingTimeout :: duration
  gm_suspicionWindow :: duration
  gm_stopped :: bool

definition NewGossipManager ::
  "string \<Rightarrow> string \<Rightarrow> string \<Rightarrow> duration \<Rightarrow> duration \<Rightarrow> duration \<Rightarrow> GossipManager" where
  "NewGossipManager nodeID address seedAddr gossipInterval pingTimeout suspicionWindow =
     \<lparr>gm_nodeID = nodeID, gm_address = address, gm_seedAddr = seedAddr, gm_gossipInterval = gossipInterval,
      gm_pingTimeout = pingTimeout, gm_suspicionWindow = suspicionWindow, gm_stopped = False\<rparr>"

text \<open>
  One tick: the peers that may be pinged, and the one the clock selects. Go's \<open>%\<close> takes the
  sign of the dividend, and a negative index panics (\<open>Inl ()\<close>).
\<close>

definition candidates :: "GossipManager \<Rightarrow> Peer list \<Rightarrow> Peer list" where
  "candidates gm peers = filter (\<lambda>p. \<not> (NodeID p = gm_nodeID gm \<or> State p = StateDead)) peers"

definition go_rem :: "int \<Rightarrow> int \<Rightarrow> int" where
  "go_rem a b = (if a \<ge> 0 then a mod \<bar>b\<bar> else - ((- a) mod \<bar>b\<bar>))"

definition tick :: "GossipManager \<Rightarrow> gotime \<Rightarrow> string list \<Rightarrow> PeerManager \<Rightarrow> unit + Peer option" where
  "tick gm now order pm =
     (let cs = candidates gm (GetAll order pm) in
      if length cs = 0 then Inr None
      else
        (let idx = go_rem (UnixNano now) (int (length cs))
         in if idx < 0 then Inl () else Inr (Some (cs ! nat idx))))"

text \<open>Merging one entry of a remote list; \<open>now\<close> holds the clock readings of \<open>AddOrUpdate\<close>.\<close>

definition merge_peer :: "GossipManager \<Rightarrow> gotime \<times> gotime \<Rightarrow> Peer \<Rightarrow> PeerManager \<Rightarrow> PeerManager" where
  "merge_peer gm now rp pm =
     (if NodeID rp = gm_nodeID gm then pm
      else
        (case pm_Get (NodeID rp) pm of
           None \<Rightarrow>
             (if State rp \<noteq> StateDead then AddOrUpdate now (NodeID rp) (Address rp) (State rp) pm else pm)
         | Some localPeer \<Rightarrow>
             (if State localPeer = StateDead then pm
              else if State rp = StateDead then AddOrUpdate now (NodeID rp) (Address rp) StateDead pm
              else if State rp = StateSuspect \<and> State localPeer = StateAlive
              then AddOrUpdate now (NodeID rp) (Address rp) StateSuspect pm
              else if State rp = StateAlive \<and> State localPeer = StateSuspect then
                (if After (LastSeen rp) (time_Add (LastSeen localPeer) (gm_suspicionWindow gm))
                 then AddOrUpdate now (NodeID rp) (Address rp) StateAlive pm else pm)
              else pm)))"

definition MergePeers :: "GossipManager \<Rightarrow> (nat \<Rightarrow> gotime \<times> gotime) \<Rightarrow> Peer list \<Rightarrow> PeerManager \<Rightarrow> PeerManager" where
  "MergePeers gm clk remotePeers pm = fold (\<lambda>(n, rp). merge_peer gm (clk n) rp) (enumerate 0 remotePeers) pm"

text \<open>What came back from a ping.\<close>

datatype ping_result =
    BadUrl
  | Unreachable
  | PingStatus nat
  | BodyUnreadable
  | BodyNotJson
  | PeerList "Peer list"

text \<open>Readings of the clock: start, after the exchange, updates of the pinged peer, merging.\<close>

record ping_clock =
  pc_start :: gotime
  pc_done :: gotime
  pc_update :: "gotime \<times> gotime"
  pc_rtt :: gotime
  pc_merge :: "nat \<Rightarrow> gotime \<times> gotime"

definition ping_failed :: "ping_clock \<Rightarrow> Peer \<Rightarrow> PeerManager \<Rightarrow> PeerManager" where
  "ping_failed pc p pm =
     (if State p = StateAlive \<or> NodeID p = ''seed''
      then AddOrUpdate (pc_update pc) (NodeID p) (Address p) StateSuspect pm else pm)"

definition pingPeer :: "GossipManager \<Rightarrow> ping_clock \<Rightarrow> Peer \<Rightarrow> ping_result \<Rightarrow> PeerManager \<Rightarrow> PeerManager" where
  "pingPeer gm pc p result pm =
     (let rtt = time_Sub (pc_done pc) (pc_start pc) in
      case result of
        BadUrl \<Rightarrow> pm
      | Unreachable \<Rightarrow> ping_failed pc p pm
      | PingStatus code \<Rightarrow> (if code \<noteq> 200 then ping_failed pc p pm else pm)
      | BodyUnreadable \<Rightarrow> pm
      | BodyNotJson \<Rightarrow> pm
      | PeerList remotePeers \<Rightarrow>
          (let (actualNodeID, pm) =
                 (if NodeID p = ''seed'' then
                    (case find (\<lambda>rp. Address rp = Address p) remotePeers of
                       None \<Rightarrow> (NodeID p, pm)
                     | Some rp \<Rightarrow> (NodeID rp, pm(''seed'' := None)))
                  else (NodeID p, pm));
               pm = AddOrUpdate (pc_update pc) actualNodeID (Address p) StateAlive pm;
               pm = UpdateRTT (pc_rtt pc) actualNodeID rtt pm
           in MergePeers gm (pc_merge pc) remotePeers pm))"

definition bootstrap :: "GossipManager \<Rightarrow> gotime \<times> gotime \<Rightarrow> ping_clock \<Rightarrow> ping_result \<Rightarrow> PeerManager \<Rightarrow> PeerManager" where
  "bootstrap gm now pc result pm =
     pingPeer gm pc (new_peer ''seed'' (gm_seedAddr gm)) result
       (AddOrUpdate now ''seed'' (gm_seedAddr gm) StateAlive pm)"

text \<open>One entry of the list that \<open>checkSuspicious\<close> copied, then the whole loop.\<close>

definition check_peer :: "GossipManager \<Rightarrow> gotime \<Rightarrow> gotime \<times> gotime \<Rightarrow> Peer \<Rightarrow> PeerManager \<Rightarrow> PeerManager" where
  "check_peer gm now reading p pm =
     (if State p = StateSuspect then
        (if time_Sub now (SuspiciousAt p) \<ge> gm_suspicionWindow gm
         then AddOrUpdate reading (NodeID p) (Address p) StateDead pm else pm)
      else pm)"

definition checkSuspicious ::
  "GossipManager \<Rightarrow> gotime \<Rightarrow> (nat \<Rightarrow> gotime \<times> gotime) \<Rightarrow> string list \<Rightarrow> PeerManager \<Rightarrow> PeerManager" where
  "checkSuspicious gm now clk order pm =
     fold (\<lambda>(n, p). check_peer gm now (clk n) p) (enumerate 0 (GetAll order pm)) pm"

text \<open>\<open>Stop\<close> closes the channel; a second call panics (\<open>None\<close>).\<close>

definition gm_Stop :: "GossipManager \<Rightarrow> GossipManager option" where
  "gm_Stop gm = (if gm_stopped gm then None else Some (gm\<lparr>gm_stopped := True\<rparr>))"

section \<open>The membership table as the gossip code uses it\<close>

text \<open>
  One turn of the loops over peer lists: look up the entry, decide on a new state, update.
\<close>

definition guarded :: "('t \<Rightarrow> 'id \<Rightarrow> 'a \<Rightarrow> 's \<Rightarrow> 'm \<Rightarrow> 'm) \<Rightarrow> ('id \<Rightarrow> 'm \<Rightarrow> 'p option) \<Rightarrow> ('x \<Rightarrow> 'id) \<Rightarrow>
  ('x \<Rightarrow> 'p option \<Rightarrow> ('t \<times> 'a \<times> 's) option) \<Rightarrow> 'x \<Rightarrow> 'm \<Rightarrow> 'm" where
  "guarded upd get key decide x m =
     (case decide x (get (key x) m) of None \<Rightarrow> m | Some (t, a, s) \<Rightarrow> upd t (key x) a s m)"

locale membership =
  fixes upd :: "'t \<Rightarrow> 'id \<Rightarrow> 'a \<Rightarrow> 's \<Rightarrow> 'm \<Rightarrow> 'm"
    and get :: "'id \<Rightarrow> 'm \<Rightarrow> 'p option"
    and state_of :: "'p \<Rightarrow> 's"
  assumes get_other: "k \<noteq> n \<Longrightarrow> get k (upd t n a s m) = get k m"
    and get_same: "\<exists>p. get n (upd t n a s m) = Some p \<and> state_of p = s"
    and get_local: "get n m = get n m' \<Longrightarrow> get n (upd t n a s m) = get n (upd t n a s m')"
begin

text \<open>Known peers are never forgotten.\<close>

lemma guarded_known: "get k m \<noteq> None \<Longrightarrow> get k (fold (guarded upd get key decide) xs m) \<noteq> None"
proof (induction xs arbitrary: m)
  case (Cons x xs)
  have "get k (guarded upd get key decide x m) \<noteq> None"
    using Cons.prems get_same [of "key x"]
    by (cases "k = key x") (fastforce simp: guarded_def get_other split: option.split)+
  with Cons.IH show ?case by simp
qed simp

text \<open>An entry the decision never moves stays as it is.\<close>

lemma guarded_stuck:
  assumes "get k m = e" "\<And>x. x \<in> set xs \<Longrightarrow> key x = k \<Longrightarrow> decide x e = None"
  shows "get k (fold (guarded upd get key decide) xs m) = e"
  using assms
proof (induction xs arbitrary: m)
  case (Cons x xs)
  have "get k (guarded upd get key decide x m) = e"
    using Cons.prems by (cases "k = key x") (auto simp: guarded_def get_other split: option.split)
  with Cons show ?case by simp
qed simp

text \<open>If the list names an entry once, only that turn matters for it.\<close>

lemma guarded_once:
  assumes "distinct (map key xs)" "x \<in> set xs"
  shows "get (key x) (fold (guarded upd get key decide) xs m) = get (key x) (guarded upd get key decide x m)"
  using assms
proof (induction xs arbitrary: m)
  case (Cons y ys)
  show ?case
  proof (cases "x = y")
    case True
    then have "\<And>z. z \<in> set ys \<Longrightarrow> key z \<noteq> key x" using Cons.prems by (auto simp: image_iff)
    then have "get (key x) (fold (guarded upd get key decide) ys m') = get (key x) m'" for m'
      by (intro guarded_stuck) auto
    with True show ?thesis by simp
  next
    case False
    then have x: "x \<in> set ys" "key x \<noteq> key y" using Cons.prems by (auto simp: image_iff)
    have same: "get (key x) (guarded upd get key decide y m) = get (key x) m"
      using x(2) by (auto simp: guarded_def get_other split: option.split)
    then have "get (key x) (guarded upd get key decide x (guarded upd get key decide y m)) =
        get (key x) (guarded upd get key decide x m)"
      using get_local [OF same] by (simp add: guarded_def [of _ _ _ _ x] split: option.split)
    with Cons.IH [OF _ x(1)] Cons.prems(1) show ?thesis by simp
  qed
qed simp

end

interpretation peers: membership AddOrUpdate pm_Get State
proof
  fix k n t a s and m :: PeerManager
  show "k \<noteq> n \<Longrightarrow> pm_Get k (AddOrUpdate t n a s m) = pm_Get k m" by (simp add: pm_Get_def)
  show "\<exists>p. pm_Get n (AddOrUpdate t n a s m) = Some p \<and> State p = s"
    using AddOrUpdate_same [of t n a s m] by (auto simp: pm_Get_def)
next
  fix n t a s and m m' :: PeerManager
  assume "pm_Get n m = pm_Get n m'"
  then show "pm_Get n (AddOrUpdate t n a s m) = pm_Get n (AddOrUpdate t n a s m')"
    by (simp add: pm_Get_def AddOrUpdate_def Let_def)
qed

section \<open>Merging and checking as guarded updates\<close>

definition merge_decide :: "GossipManager \<Rightarrow> (nat \<Rightarrow> gotime \<times> gotime) \<Rightarrow> nat \<times> Peer \<Rightarrow> Peer option \<Rightarrow>
  ((gotime \<times> gotime) \<times> string \<times> string) option" where
  "merge_decide gm clk = (\<lambda>(n, rp) local.
     (let to = (\<lambda>s. Some (clk n, Address rp, s)) in
      if NodeID rp = gm_nodeID gm then None
      else (case local of
              None \<Rightarrow> if State rp \<noteq> StateDead then to (State rp) else None
            | Some p \<Rightarrow>
                if State p = StateDead then None
                else if State rp = StateDead then to StateDead
                else if State rp = StateSuspect \<and> State p = StateAlive then to StateSuspect
                else if State rp = StateAlive \<and> State p = StateSuspect \<and>
                    After (LastSeen rp) (time_Add (LastSeen p) (gm_suspicionWindow gm)) then to StateAlive
                else None)))"

definition check_decide :: "GossipManager \<Rightarrow> gotime \<Rightarrow> (nat \<Rightarrow> gotime \<times> gotime) \<Rightarrow> nat \<times> Peer \<Rightarrow> Peer option \<Rightarrow>
  ((gotime \<times> gotime) \<times> string \<times> string) option" where
  "check_decide gm now clk = (\<lambda>(n, p) _.
     if State p = StateSuspect \<and> time_Sub now (SuspiciousAt p) \<ge> gm_suspicionWindow gm
     then Some (clk n, Address p, StateDead) else None)"

definition entry_id :: "nat \<times> Peer \<Rightarrow> string" where
  "entry_id x = NodeID (snd x)"

lemma merge_peer_guarded:
  "merge_peer gm (clk n) rp pm = guarded AddOrUpdate pm_Get entry_id (merge_decide gm clk) (n, rp) pm"
  by (cases "pm_Get (NodeID rp) pm") (auto simp: guarded_def merge_decide_def merge_peer_def entry_id_def Let_def)

lemma MergePeers_guarded:
  "MergePeers gm clk rps = fold (guarded AddOrUpdate pm_Get entry_id (merge_decide gm clk)) (enumerate 0 rps)"
proof -
  have "(\<lambda>(n, rp). merge_peer gm (clk n) rp) = guarded AddOrUpdate pm_Get entry_id (merge_decide gm clk)"
    by (rule ext)+ (simp add: case_prod_beta merge_peer_guarded)
  then show ?thesis by (intro ext) (simp only: MergePeers_def)
qed

lemma check_peer_guarded:
  "check_peer gm now (clk n) p pm = guarded AddOrUpdate pm_Get entry_id (check_decide gm now clk) (n, p) pm"
  by (simp add: guarded_def check_decide_def check_peer_def entry_id_def)

lemma checkSuspicious_guarded:
  "checkSuspicious gm now clk order pm =
     fold (guarded AddOrUpdate pm_Get entry_id (check_decide gm now clk)) (enumerate 0 (GetAll order pm)) pm"
proof -
  have "(\<lambda>(n, p). check_peer gm now (clk n) p) = guarded AddOrUpdate pm_Get entry_id (check_decide gm now clk)"
    by (rule ext)+ (simp add: case_prod_beta check_peer_guarded)
  then show ?thesis by (simp add: checkSuspicious_def)
qed

lemma enumerate_member: "x \<in> set xs \<Longrightarrow> \<exists>n. (n, x) \<in> set (enumerate m xs)"
  by (induction xs arbitrary: m) auto

lemma enumerate_snd: "(n, x) \<in> set (enumerate m xs) \<Longrightarrow> x \<in> set xs"
  by (induction xs arbitrary: m) auto

lemma entry_ids: "map entry_id (enumerate n ps) = map NodeID ps"
  by (induction ps arbitrary: n) (simp_all add: entry_id_def)

lemma merge_decide_dead: "State p = StateDead \<Longrightarrow> merge_decide gm clk x (Some p) = None"
  by (simp add: merge_decide_def case_prod_beta)

text \<open>Entries that no merge step moves.\<close>

lemma merge_keeps_alive:
  assumes "pm k = Some e" "State e = StateAlive" "\<And>rp. rp \<in> set rps \<Longrightarrow> NodeID rp = k \<Longrightarrow> State rp = StateAlive"
  shows "MergePeers gm clk rps pm k = Some e"
proof -
  have "merge_decide gm clk x (Some e) = None" if "x \<in> set (enumerate 0 rps)" "entry_id x = k" for x
    using assms(2) assms(3) [of "snd x"] that enumerate_snd [of "fst x" "snd x" 0 rps]
    by (auto simp: merge_decide_def entry_id_def case_prod_beta)
  then have "pm_Get k (MergePeers gm clk rps pm) = Some e"
    unfolding MergePeers_guarded using assms(1) by (intro peers.guarded_stuck) (simp_all add: pm_Get_def)
  then show ?thesis by (simp add: pm_Get_def)
qed

lemma merge_keeps_dead: "pm k = Some e \<Longrightarrow> State e = StateDead \<Longrightarrow> MergePeers gm clk rps pm k = Some e"
  using peers.guarded_stuck [of k pm "Some e" "enumerate 0 rps" entry_id "merge_decide gm clk"]
  by (simp add: MergePeers_guarded pm_Get_def merge_decide_dead)

lemma merge_unnamed:
  assumes "\<And>rp. rp \<in> set rps \<Longrightarrow> NodeID rp \<noteq> k"
  shows "MergePeers gm clk rps pm k = pm k"
proof -
  have "entry_id x \<noteq> k" if "x \<in> set (enumerate 0 rps)" for x
    using assms [of "snd x"] that enumerate_snd [of "fst x" "snd x" 0 rps] by (simp add: entry_id_def)
  then have "pm_Get k (MergePeers gm clk rps pm) = pm k"
    unfolding MergePeers_guarded by (intro peers.guarded_stuck) (auto simp: pm_Get_def)
  then show ?thesis by (simp add: pm_Get_def)
qed

section \<open>The invariant\<close>

lemma merge_peer_keyed: "keyed pm \<Longrightarrow> keyed (merge_peer gm now rp pm)"
  by (auto simp: merge_peer_def AddOrUpdate_keyed split: option.split)

lemma MergePeers_keyed: "keyed pm \<Longrightarrow> keyed (MergePeers gm clk rps pm)"
proof -
  have "keyed pm \<Longrightarrow> keyed (fold (\<lambda>(n, rp). merge_peer gm (clk n) rp) xs pm)" for xs
    by (induction xs arbitrary: pm) (auto simp: merge_peer_keyed)
  then show "keyed pm \<Longrightarrow> keyed (MergePeers gm clk rps pm)" by (simp add: MergePeers_def)
qed

lemma checkSuspicious_keyed: "keyed pm \<Longrightarrow> keyed (checkSuspicious gm now clk order pm)"
proof -
  have "keyed pm \<Longrightarrow> keyed (fold (\<lambda>(n, p). check_peer gm now (clk n) p) xs pm)" for xs
    by (induction xs arbitrary: pm) (auto simp: check_peer_def AddOrUpdate_keyed)
  then show "keyed pm \<Longrightarrow> keyed (checkSuspicious gm now clk order pm)" by (simp add: checkSuspicious_def)
qed

lemma ping_failed_keyed: "keyed pm \<Longrightarrow> keyed (ping_failed pc p pm)"
  by (simp add: ping_failed_def AddOrUpdate_keyed)

lemma keyed_delete: "keyed pm \<Longrightarrow> keyed (pm(k := None))"
  by (auto simp: keyed_def split: if_splits)

lemma pingPeer_keyed: "keyed pm \<Longrightarrow> keyed (pingPeer gm pc p result pm)"
  by (auto simp: pingPeer_def Let_def ping_failed_keyed keyed_delete
      intro!: MergePeers_keyed UpdateRTT_keyed AddOrUpdate_keyed split: ping_result.split option.split)

section \<open>Properties\<close>

text \<open>
  Merging a remote membership list never forgets a peer, never changes the entry of a peer
  that is already considered dead, and never touches the node's own entry, whatever the list says.
\<close>

theorem MergePeers_respects_local:
  "(pm k \<noteq> None \<longrightarrow> MergePeers gm clk rps pm k \<noteq> None) \<and>
   (\<forall>p. pm k = Some p \<and> State p = StateDead \<longrightarrow> MergePeers gm clk rps pm k = Some p) \<and>
   MergePeers gm clk rps pm (gm_nodeID gm) = pm (gm_nodeID gm)"
proof (intro conjI allI impI)
  show "MergePeers gm clk rps pm k \<noteq> None" if "pm k \<noteq> None"
    using peers.guarded_known [of k pm entry_id "merge_decide gm clk" "enumerate 0 rps"] that
    by (simp add: MergePeers_guarded pm_Get_def)
  show "MergePeers gm clk rps pm k = Some p" if "pm k = Some p \<and> State p = StateDead" for p
    using merge_keeps_dead that by blast
  have "merge_decide gm clk x e = None" if "entry_id x = gm_nodeID gm" for x e
    using that by (simp add: merge_decide_def entry_id_def case_prod_beta Let_def)
  then show "MergePeers gm clk rps pm (gm_nodeID gm) = pm (gm_nodeID gm)"
    using peers.guarded_stuck [of "gm_nodeID gm" pm "pm (gm_nodeID gm)" "enumerate 0 rps" entry_id "merge_decide gm clk"]
    by (simp add: MergePeers_guarded pm_Get_def)
qed

definition demo_gm :: GossipManager where
  "demo_gm = NewGossipManager ''a'' ''a:1'' [] 1000 200 5000"

definition demo_peer :: "string \<Rightarrow> Peer" where
  "demo_peer s = (new_peer ''b'' ''b:1'')\<lparr>State := s, LastSeen := 10, SuspiciousAt := 10\<rparr>"

lemma demo_peer [simp]: "NodeID (demo_peer s) = ''b''" "State (demo_peer s) = s" "SuspiciousAt (demo_peer s) = 10"
  "LastSeen (demo_peer s) = 10" "gm_nodeID demo_gm = ''a''" "gm_suspicionWindow demo_gm = 5000"
  by (simp_all add: demo_peer_def new_peer_def demo_gm_def NewGossipManager_def)

theorem MergePeers_respects_local_witness:
  "MergePeers demo_gm (\<lambda>_. (20, 20)) [demo_peer StateAlive] [''b'' \<mapsto> demo_peer StateDead] ''b'' = Some (demo_peer StateDead)"
  using MergePeers_respects_local [of "[''b'' \<mapsto> demo_peer StateDead]" "''b''" demo_gm "\<lambda>_. (20, 20)" "[demo_peer StateAlive]"]
  by simp

definition priority :: "string \<Rightarrow> nat" where
  "priority s = (if s = StateDead then 2 else if s = StateSuspect then 1 else 0)"

definition refuted :: "GossipManager \<Rightarrow> Peer \<Rightarrow> Peer \<Rightarrow> bool" where
  "refuted gm p rp \<longleftrightarrow> State p = StateSuspect \<and> State rp = StateAlive \<and>
     LastSeen p + gm_suspicionWindow gm < LastSeen rp"

text \<open>
  C21. Conflict resolution. If the remote list names a known peer once, and both views are one of
  the three states, the merged state is the one of higher priority (dead over suspect over
  alive), except that a suspect is cleared when the remote saw the peer alive more than a
  suspicion window after the local node did.
\<close>

theorem MergePeers_resolves_conflicts:
  assumes "distinct (map NodeID rps)" "rp \<in> set rps" "NodeID rp \<noteq> gm_nodeID gm" "pm (NodeID rp) = Some p"
    and "State p \<in> {StateAlive, StateSuspect, StateDead}" "State rp \<in> {StateAlive, StateSuspect, StateDead}"
  shows "map_option State (MergePeers gm clk rps pm (NodeID rp)) =
    Some (if refuted gm p rp then StateAlive
          else if priority (State p) < priority (State rp) then State rp else State p)"
proof -
  obtain n where n: "(n, rp) \<in> set (enumerate 0 rps)"
    using enumerate_member [OF assms(2)] by blast
  let ?g = "guarded AddOrUpdate pm_Get entry_id (merge_decide gm clk)"
  have "MergePeers gm clk rps pm (NodeID rp) = ?g (n, rp) pm (NodeID rp)"
    using peers.guarded_once [of entry_id "enumerate 0 rps" "(n, rp)" "merge_decide gm clk" pm] n assms(1)
    by (simp add: MergePeers_guarded entry_ids pm_Get_def) (simp add: entry_id_def)
  moreover have "map_option State (AddOrUpdate t (NodeID rp) a s pm (NodeID rp)) = Some s" for t a s
    using AddOrUpdate_same [of t "NodeID rp" a s pm] by auto
  ultimately show ?thesis
    using assms(3-6)
    by (auto simp: guarded_def entry_id_def pm_Get_def merge_decide_def Let_def priority_def refuted_def
        After_def time_Add_def)
qed

theorem MergePeers_resolves_conflicts_witness:
  "map_option State (MergePeers demo_gm (\<lambda>_. (20, 20)) [demo_peer StateDead] [''b'' \<mapsto> demo_peer StateSuspect] ''b'') = Some StateDead"
  using MergePeers_resolves_conflicts [of "[demo_peer StateDead]" "demo_peer StateDead" demo_gm
      "[''b'' \<mapsto> demo_peer StateSuspect]" "demo_peer StateSuspect" "\<lambda>_. (20, 20)"]
  by (simp add: refuted_def priority_def)

lemma checked_entry:
  assumes "keyed pm" "ranges order pm"
  shows "map_option State (checkSuspicious gm now clk order pm k) =
      map_option (\<lambda>p. if State p = StateSuspect \<and> gm_suspicionWindow gm \<le> time_Sub now (SuspiciousAt p)
        then StateDead else State p) (pm k) \<and>
    (\<forall>p. pm k = Some p \<and> \<not> (State p = StateSuspect \<and> gm_suspicionWindow gm \<le> time_Sub now (SuspiciousAt p)) \<longrightarrow>
      checkSuspicious gm now clk order pm k = Some p)"
proof (cases "pm k")
  case None
  let ?xs = "enumerate 0 (GetAll order pm)"
  have "entry_id x \<noteq> k" if "x \<in> set ?xs" for x
  proof
    assume "entry_id x = k"
    moreover have "snd x \<in> {p. pm (NodeID p) = Some p}"
      using that enumerate_snd [of "fst x" "snd x" 0 "GetAll order pm"] GetAll_set [OF assms] by simp
    ultimately show False using None by (simp add: entry_id_def)
  qed
  then have "pm_Get k (checkSuspicious gm now clk order pm) = None"
    unfolding checkSuspicious_guarded by (intro peers.guarded_stuck) (auto simp: None pm_Get_def)
  with None show ?thesis by (simp add: pm_Get_def)
next
  case (Some p)
  have id: "NodeID p = k" using assms(1) Some by (simp add: keyed_def)
  then obtain n where n: "(n, p) \<in> set (enumerate 0 (GetAll order pm))"
    using GetAll_set [OF assms] Some enumerate_member [of p "GetAll order pm" 0] by auto
  have dist: "distinct (map entry_id (enumerate 0 (GetAll order pm)))"
    using GetAll_ids [OF assms] assms(2) by (simp add: entry_ids ranges_def)
  have "checkSuspicious gm now clk order pm k =
      guarded AddOrUpdate pm_Get entry_id (check_decide gm now clk) (n, p) pm k"
    using peers.guarded_once [OF dist n, of "check_decide gm now clk" pm] id
    by (simp add: checkSuspicious_guarded pm_Get_def) (simp add: entry_id_def)
  with Some id AddOrUpdate_same [of "clk n" k "Address p" StateDead pm] show ?thesis
    by (auto simp: guarded_def check_decide_def entry_id_def)
qed

lemmas checked_state = checked_entry [THEN conjunct1]

text \<open>
  C22. The suspicion check declares dead exactly the peers that have been suspect for at least the
  suspicion window, in whatever order the table is visited; every other entry is unchanged.
\<close>

theorem checkSuspicious_exact:
  assumes "keyed pm" "ranges order pm"
  shows "map_option State (checkSuspicious gm now clk order pm k) =
      map_option (\<lambda>p. if State p = StateSuspect \<and> gm_suspicionWindow gm \<le> time_Sub now (SuspiciousAt p)
        then StateDead else State p) (pm k) \<and>
    (\<forall>p. pm k = Some p \<and> \<not> (State p = StateSuspect \<and> gm_suspicionWindow gm \<le> time_Sub now (SuspiciousAt p)) \<longrightarrow>
      checkSuspicious gm now clk order pm k = Some p)"
  using checked_entry [OF assms] .

theorem checkSuspicious_exact_witness:
  "map_option State (checkSuspicious demo_gm 6000 (\<lambda>_. (6001, 6001)) [''b''] [''b'' \<mapsto> demo_peer StateSuspect] ''b'') = Some StateDead"
  using checkSuspicious_exact [of "[''b'' \<mapsto> demo_peer StateSuspect]" "[''b'']" demo_gm 6000 "\<lambda>_. (6001, 6001)" "''b''"]
  by (simp add: keyed_def ranges_def time_Sub_def split: if_splits)

lemma candidates_set: "p \<in> set (candidates gm ps) \<longleftrightarrow> p \<in> set ps \<and> NodeID p \<noteq> gm_nodeID gm \<and> State p \<noteq> StateDead"
  by (auto simp: candidates_def)

text \<open>
  For any instant from 1970 on that fits 64 bits, a gossip tick does not panic; it pings
  nobody exactly when every known peer is dead or the node itself, and otherwise a peer that is
  in the table, is not the node itself and is not dead.
\<close>

theorem tick_picks_candidate:
  assumes "keyed pm" "ranges order pm" "0 \<le> now" "now < 2 ^ 63"
  shows "\<exists>target. tick gm now order pm = Inr target \<and>
    (target = None \<longleftrightarrow> (\<forall>k p. pm k = Some p \<longrightarrow> k = gm_nodeID gm \<or> State p = StateDead)) \<and>
    (\<forall>p. target = Some p \<longrightarrow> pm (NodeID p) = Some p \<and> NodeID p \<noteq> gm_nodeID gm \<and> State p \<noteq> StateDead)"
proof -
  let ?cs = "candidates gm (GetAll order pm)"
  have mem: "p \<in> set ?cs \<longleftrightarrow> pm (NodeID p) = Some p \<and> NodeID p \<noteq> gm_nodeID gm \<and> State p \<noteq> StateDead" for p
    using GetAll_set [OF assms(1,2)] by (auto simp: candidates_set)
  have empty: "?cs = [] \<longleftrightarrow> (\<forall>k p. pm k = Some p \<longrightarrow> k = gm_nodeID gm \<or> State p = StateDead)"
    using mem assms(1) unfolding keyed_def by (metis last_in_set list.set(1) empty_iff)
  show ?thesis
  proof (cases "?cs = []")
    case True
    with empty show ?thesis by (simp add: tick_def)
  next
    case False
    let ?i = "go_rem (UnixNano now) (int (length ?cs))"
    have "UnixNano now = now" using assms(3,4) by (simp add: UnixNano_def wrap64_id)
    then have i: "0 \<le> ?i" "nat ?i < length ?cs" using assms(3) False by (simp_all add: go_rem_def nat_less_iff)
    then have "tick gm now order pm = Inr (Some (?cs ! nat ?i))" using False by (simp add: tick_def Let_def)
    moreover have "?cs ! nat ?i \<in> set ?cs" using i(2) by simp
    ultimately show ?thesis using mem empty False by auto
  qed
qed

lemma demo_table [simp]: "keyed [''b'' \<mapsto> demo_peer s]" "ranges [''b''] [''b'' \<mapsto> demo_peer s]"
  by (auto simp: keyed_def ranges_def split: if_splits)

theorem tick_picks_candidate_witness:
  "\<exists>target. tick demo_gm 7 [''b''] [''b'' \<mapsto> demo_peer StateAlive] = Inr target \<and>
     (\<forall>p. target = Some p \<longrightarrow> [''b'' \<mapsto> demo_peer StateAlive] (NodeID p) = Some p)"
  using tick_picks_candidate [of "[''b'' \<mapsto> demo_peer StateAlive]" "[''b'']" 7 demo_gm]
  by (simp del: fun_upd_apply) blast

definition demo_pc :: ping_clock where
  "demo_pc = \<lparr>pc_start = 20, pc_done = 30, pc_update = (31, 31), pc_rtt = 32, pc_merge = (\<lambda>_. (33, 33))\<rparr>"

end
