(* ===== verification/KV_Replication.thy ===== *)
theory KV_Replication
  imports KV_Peer
begin

text \<open>
  Asynchronous replication (\<open>internal/cluster/replication.go\<close>): who is sent a write, what is
  sent, and how the replication lag of a peer is accounted for. \<open>Replicate\<close> starts one
  goroutine per peer; the model returns the list of requests they carry, and the completion of
  a request is a step of its own (\<open>replicateToPeer_done\<close>) that may happen at any later time.
\<close>

section \<open>The code\<close>

record ReplicateRequest =
  rq_Key :: string
  rq_Value :: bytes
  rq_Version :: uint64
  rq_ExpiresAt :: int
  rq_Action :: string

record Replicator =
  rp_nodeID :: string
  rp_timeout :: duration
  rp_lastServed :: uint64

definition NewReplicator :: "string \<Rightarrow> duration \<Rightarrow> Replicator" where
  "NewReplicator nodeID timeout = \<lparr>rp_nodeID = nodeID, rp_timeout = timeout, rp_lastServed = 0\<rparr>"

definition UpdateLastServed :: "uint64 \<Rightarrow> Replicator \<Rightarrow> Replicator" where
  "UpdateLastServed version r = (if version > rp_lastServed r then r\<lparr>rp_lastServed := version\<rparr> else r)"

definition replicate_request :: "string \<Rightarrow> bytes \<Rightarrow> uint64 \<Rightarrow> gotime \<Rightarrow> string \<Rightarrow> ReplicateRequest" where
  "replicate_request key value version expiresAt action =
     (let expNano = (if \<not> IsZero expiresAt then UnixNano expiresAt else 0)
      in \<lparr>rq_Key = key, rq_Value = value, rq_Version = version, rq_ExpiresAt = expNano, rq_Action = action\<rparr>)"

definition Replicate :: "string list \<Rightarrow> string \<Rightarrow> bytes \<Rightarrow> uint64 \<Rightarrow> gotime \<Rightarrow> string \<Rightarrow> PeerManager \<Rightarrow>
  Replicator \<Rightarrow> (Peer \<times> ReplicateRequest) list \<times> Replicator" where
  "Replicate order key value version expiresAt action pm r =
     (let r = UpdateLastServed version r;
          peers = GetAll order pm;
          targets = filter (\<lambda>p. \<not> (NodeID p = rp_nodeID r \<or> State p = StateDead)) peers
      in (map (\<lambda>p. (p, replicate_request key value version expiresAt action)) targets, r))"

text \<open>What became of the request: it could not be built or encoded, it failed, or was answered.\<close>

datatype send_result = NotSent | SendFailed | Answered nat

definition lag_of :: "Replicator \<Rightarrow> uint64 \<Rightarrow> int" where
  "lag_of r version = wrap64 (sint (rp_lastServed r) - sint version)"

definition replicateToPeer_done :: "Peer \<Rightarrow> uint64 \<Rightarrow> send_result \<Rightarrow> Replicator \<Rightarrow> PeerManager \<Rightarrow> PeerManager" where
  "replicateToPeer_done p version result r pm =
     (case result of
        NotSent \<Rightarrow> pm
      | SendFailed \<Rightarrow> UpdateLag (NodeID p) (lag_of r version) pm
      | Answered code \<Rightarrow>
          (if code = 200 then
             (let lag = lag_of r version;
                  lag = (if lag < 0 then 0 else lag)
              in UpdateLag (NodeID p) lag pm)
           else UpdateLag (NodeID p) (lag_of r version) pm))"

section \<open>Lemmas\<close>

lemma UpdateLastServed_max: "rp_lastServed (UpdateLastServed v r) = max v (rp_lastServed r)"
  by (auto simp: UpdateLastServed_def max_def)

lemma UpdateLastServed_nodeID [simp]: "rp_nodeID (UpdateLastServed v r) = rp_nodeID r"
  by (simp add: UpdateLastServed_def)

lemma sint_small: "uint v < 2 ^ 63 \<Longrightarrow> sint v = uint v" for v :: uint64
proof -
  assume "uint v < 2 ^ 63"
  moreover have "- (2 ^ 63) \<le> uint v" by (rule order_trans [OF _ uint_ge_0]) simp
  ultimately have "wrap64 (uint v) = uint v" by (intro wrap64_id)
  then show ?thesis by (simp add: sint_uint wrap64_def)
qed

section \<open>Properties\<close>

text \<open>
  Fan-out: a write is sent exactly once to every known peer that is neither dead nor the node
  itself, to nobody else, and always with the same request; \<open>lastServed\<close> becomes the highest
  version replicated so far.
\<close>

theorem Replicate_fans_out:
  assumes "keyed pm" "ranges order pm" "Replicate order key value version x action pm r = (msgs, r')"
  shows "distinct (map (NodeID \<circ> fst) msgs) \<and>
    fst ` set msgs = {p. pm (NodeID p) = Some p \<and> NodeID p \<noteq> rp_nodeID r \<and> State p \<noteq> StateDead} \<and>
    snd ` set msgs \<subseteq> {replicate_request key value version x action} \<and>
    rp_lastServed r' = max version (rp_lastServed r)"
proof -
  let ?live = "filter (\<lambda>p. \<not> (NodeID p = rp_nodeID r \<or> State p = StateDead)) (GetAll order pm)"
  have msgs: "msgs = map (\<lambda>p. (p, replicate_request key value version x action)) ?live"
    and r': "r' = UpdateLastServed version r"
    using assms(3) by (auto simp: Replicate_def Let_def)
  have "distinct (map NodeID (GetAll order pm))"
    using GetAll_ids [OF assms(1,2)] assms(2) by (simp add: ranges_def)
  then have "distinct (map NodeID ?live)" by (rule distinct_map_filter)
  moreover have "fst ` set msgs = set ?live" by (auto simp: msgs image_image)
  moreover have "set ?live = {p. pm (NodeID p) = Some p \<and> NodeID p \<noteq> rp_nodeID r \<and> State p \<noteq> StateDead}"
    unfolding set_filter GetAll_set [OF assms(1,2)] by blast
  ultimately show ?thesis by (auto simp: msgs r' UpdateLastServed_max o_def)
qed

definition demo_remote :: "string \<Rightarrow> PeerManager" where
  "demo_remote s = [''b'' \<mapsto> (new_peer ''b'' ''b:1'')\<lparr>State := s\<rparr>]"

lemma demo_remote [simp]: "keyed (demo_remote s)" "ranges [''b''] (demo_remote s)"
  by (auto simp: keyed_def ranges_def demo_remote_def new_peer_def split: if_splits)

theorem Replicate_fans_out_witness:
  "rp_lastServed (snd (Replicate [''b''] ''k'' [7] 5 zero_time ''SET'' (demo_remote StateAlive) (NewReplicator ''a'' 500))) = 5"
  using Replicate_fans_out [of "demo_remote StateAlive" "[''b'']" "''k''" "[7]" 5 zero_time "''SET''" "NewReplicator ''a'' 500"
      "fst (Replicate [''b''] ''k'' [7] 5 zero_time ''SET'' (demo_remote StateAlive) (NewReplicator ''a'' 500))"
      "snd (Replicate [''b''] ''k'' [7] 5 zero_time ''SET'' (demo_remote StateAlive) (NewReplicator ''a'' 500))"]
  by (simp add: NewReplicator_def)

text \<open>
  Lag accounting: when a peer has acknowledged a write, its recorded lag is the distance from
  that write to the newest version replicated, and never negative; for versions below \<open>2 ^ 63\<close>
  (clock readings) nothing wraps. Other peers' entries are untouched.
\<close>

theorem acknowledged_lag:
  assumes "pm (NodeID p) = Some q" "uint (rp_lastServed r) < 2 ^ 63" "uint version < 2 ^ 63"
  shows "replicateToPeer_done p version (Answered 200) r pm =
    pm(NodeID p \<mapsto> q\<lparr>ReplicationLag := max 0 (uint (rp_lastServed r) - uint version)\<rparr>)"
proof -
  have "wrap64 (uint (rp_lastServed r) - uint version) = uint (rp_lastServed r) - uint version"
    using assms(2,3) uint_ge_0 [of "rp_lastServed r"] uint_ge_0 [of version] by (intro wrap64_id) linarith+
  then have "lag_of r version = uint (rp_lastServed r) - uint version"
    by (simp add: lag_of_def sint_small [OF assms(2)] sint_small [OF assms(3)])
  with assms(1) show ?thesis by (simp add: replicateToPeer_done_def UpdateLag_def Let_def max_def)
qed

theorem acknowledged_lag_witness:
  "map_option ReplicationLag (replicateToPeer_done ((new_peer ''b'' ''b:1'')\<lparr>State := StateAlive\<rparr>) 5 (Answered 200)
     (UpdateLastServed 9 (NewReplicator ''a'' 500)) (demo_remote StateAlive) ''b'') = Some 4"
  using acknowledged_lag [of "demo_remote StateAlive" "(new_peer ''b'' ''b:1'')\<lparr>State := StateAlive\<rparr>"
      "(new_peer ''b'' ''b:1'')\<lparr>State := StateAlive\<rparr>" "UpdateLastServed 9 (NewReplicator ''a'' 500)" 5]
  by (simp add: demo_remote_def new_peer_def UpdateLastServed_max NewReplicator_def)

end
