(* ===== verification/KV_Metrics.thy ===== *)
theory KV_Metrics
  imports KV_Prelude
begin

text \<open>
  The metrics collector of \<open>internal/metrics/metrics.go\<close>: request counters, the latency
  histogram and the samples \<open>WritePrometheus\<close> emits. Counters are 64-bit and wrap. The bucket
  limits are given in nanoseconds: \<open>Duration.Seconds\<close> divides by \<open>10 ^ 9\<close> with correct
  rounding and each limit is the double nearest to its decimal value, so that the comparison of
  the doubles agrees with the comparison of the nanosecond counts.
\<close>

section \<open>The code\<close>

definition LatencyBuckets :: "duration list" where
  "LatencyBuckets = [100000, 500000, 1000000, 5000000, 10000000, 50000000, 100000000, 500000000,
     1000000000, 5000000000]"

record requestKey =
  rk_method :: string
  rk_path :: string
  rk_status :: string

record histogramKey =
  hk_method :: string
  hk_path :: string

record bucketCounters =
  bc_counts :: "uint64 list"
  bc_inf :: uint64
  bc_sum :: uint64
  bc_count :: uint64

record MetricsCollector =
  reqCounts :: "requestKey \<rightharpoonup> uint64"
  histograms :: "histogramKey \<rightharpoonup> bucketCounters"
  startTime :: gotime

definition NewMetricsCollector :: "gotime \<Rightarrow> MetricsCollector" where
  "NewMetricsCollector now = \<lparr>reqCounts = Map.empty, histograms = Map.empty, startTime = now\<rparr>"

definition Uptime :: "gotime \<Rightarrow> MetricsCollector \<Rightarrow> duration" where
  "Uptime now mc = time_Sub now (startTime mc)"

definition RecordRequest :: "string \<Rightarrow> string \<Rightarrow> string \<Rightarrow> MetricsCollector \<Rightarrow> MetricsCollector" where
  "RecordRequest method path status mc =
     (let key = \<lparr>rk_method = method, rk_path = path, rk_status = status\<rparr>;
          counter = (case reqCounts mc key of None \<Rightarrow> 0 | Some c \<Rightarrow> c)
      in mc\<lparr>reqCounts := (reqCounts mc)(key \<mapsto> counter + 1)\<rparr>)"

definition empty_hist :: bucketCounters where
  "empty_hist = \<lparr>bc_counts = replicate 10 0, bc_inf = 0, bc_sum = 0, bc_count = 0\<rparr>"

text \<open>The loop over the limits: the index of the first bucket that takes the duration.\<close>

fun bucket_index :: "duration \<Rightarrow> nat \<Rightarrow> duration list \<Rightarrow> nat option" where
  "bucket_index d i [] = None"
| "bucket_index d i (limit # limits) = (if d \<le> limit then Some i else bucket_index d (Suc i) limits)"

definition observe :: "duration \<Rightarrow> bucketCounters \<Rightarrow> bucketCounters" where
  "observe duration hist =
     (let hist = hist\<lparr>bc_count := bc_count hist + 1\<rparr>;
          hist = hist\<lparr>bc_sum := bc_sum hist + word_of_int duration\<rparr>
      in case bucket_index duration 0 LatencyBuckets of
           Some i \<Rightarrow> hist\<lparr>bc_counts := (bc_counts hist)[i := bc_counts hist ! i + 1]\<rparr>
         | None \<Rightarrow> hist\<lparr>bc_inf := bc_inf hist + 1\<rparr>)"

definition RecordLatency :: "string \<Rightarrow> string \<Rightarrow> duration \<Rightarrow> MetricsCollector \<Rightarrow> MetricsCollector" where
  "RecordLatency method path duration mc =
     (let key = \<lparr>hk_method = method, hk_path = path\<rparr>;
          hist = (case histograms mc key of None \<Rightarrow> empty_hist | Some h \<Rightarrow> h)
      in mc\<lparr>histograms := (histograms mc)(key \<mapsto> observe duration hist)\<rparr>)"

text \<open>
  The samples written, without their text form: a bucket carries the index of its limit, the
  last one (\<open>None\<close>) is \<open>+Inf\<close>; the sum is in nanoseconds.
\<close>

datatype sample =
    RequestsTotal requestKey uint64
  | DurationBucket histogramKey "nat option" uint64
  | DurationSum histogramKey uint64
  | DurationCount histogramKey uint64
  | StoreSizeKeys int
  | WalSizeBytes int
  | ClusterPeers string int

fun cumulate :: "uint64 \<Rightarrow> uint64 list \<Rightarrow> uint64 list" where
  "cumulate acc [] = []"
| "cumulate acc (c # cs) = (acc + c) # cumulate (acc + c) cs"

definition write_histogram :: "histogramKey \<Rightarrow> bucketCounters \<Rightarrow> sample list" where
  "write_histogram k hist =
     (let cumulative = cumulate 0 (bc_counts hist)
      in map (\<lambda>(i, c). DurationBucket k (Some i) c) (enumerate 0 cumulative) @
         [DurationBucket k None ((if cumulative = [] then 0 else last cumulative) + bc_inf hist),
          DurationSum k (bc_sum hist), DurationCount k (bc_count hist)])"

text \<open>The three callbacks are \<open>nil\<close> (\<open>None\<close>) or return a value; the orders are those of \<open>range\<close>.\<close>

definition WritePrometheus :: "requestKey list \<Rightarrow> histogramKey list \<Rightarrow> int option \<Rightarrow> int option \<Rightarrow>
  (string \<times> int) list option \<Rightarrow> MetricsCollector \<Rightarrow> sample list" where
  "WritePrometheus reqOrder histOrder storeSize walSize peerCounts mc =
     List.map_filter (\<lambda>k. map_option (RequestsTotal k) (reqCounts mc k)) reqOrder @
     concat (List.map_filter (\<lambda>k. map_option (write_histogram k) (histograms mc k)) histOrder) @
     (case storeSize of None \<Rightarrow> [] | Some n \<Rightarrow> [StoreSizeKeys n]) @
     (case walSize of None \<Rightarrow> [] | Some n \<Rightarrow> [WalSizeBytes n]) @
     (case peerCounts of None \<Rightarrow> [] | Some cs \<Rightarrow> map (\<lambda>(state, count). ClusterPeers state count) cs)"

section \<open>The histogram\<close>

lemma LatencyBuckets_sorted [simp]: "sorted LatencyBuckets" "length LatencyBuckets = 10"
  by (simp_all add: LatencyBuckets_def)

lemma bucket_index_offset: "bucket_index d (Suc i) ls = map_option Suc (bucket_index d i ls)"
  by (induction ls arbitrary: i) auto

lemma bucket_index_bound: "bucket_index d 0 ls = Some j \<Longrightarrow> j < length ls"
  by (induction ls arbitrary: j) (auto simp: bucket_index_offset split: if_splits)

text \<open>With ascending limits, the first bucket that fits is at most \<open>i\<close> iff bucket \<open>i\<close> fits.\<close>

lemma bucket_index_le:
  "sorted ls \<Longrightarrow> i < length ls \<Longrightarrow> d \<le> ls ! i \<longleftrightarrow> (\<exists>j \<le> i. bucket_index d 0 ls = Some j)"
proof (induction ls arbitrary: i)
  case (Cons l ls)
  show ?case
  proof (cases "d \<le> l")
    case True
    then have "d \<le> (l # ls) ! i" using Cons.prems by (cases i) (auto intro: order_trans)
    with True show ?thesis by simp
  next
    case False
    then show ?thesis
      using Cons by (cases i) (auto simp: bucket_index_offset Suc_le_eq less_Suc_eq_le)
  qed
qed simp

lemma cumulate_nth: "i < length cs \<Longrightarrow> cumulate acc cs ! i = acc + sum_list (take (Suc i) cs)"
  by (induction cs arbitrary: acc i) (auto simp: nth_Cons add.assoc split: nat.split)

lemma length_cumulate [simp]: "length (cumulate acc cs) = length cs"
  by (induction cs arbitrary: acc) auto

lemma sum_list_take_update:
  "j < length cs \<Longrightarrow> sum_list (take n (cs[j := cs ! j + 1])) = sum_list (take n cs) + (if j < n then 1 else 0)"
  for cs :: "uint64 list"
proof (induction cs arbitrary: j n)
  case (Cons c cs)
  then show ?case by (cases j; cases n) (auto simp: ac_simps)
qed simp

text \<open>What the histogram of a list of observations holds.\<close>

definition observed :: "duration list \<Rightarrow> bucketCounters" where
  "observed ds = fold observe ds empty_hist"

definition hist_ok :: "duration list \<Rightarrow> bucketCounters \<Rightarrow> bool" where
  "hist_ok ds h \<longleftrightarrow> length (bc_counts h) = 10 \<and> bc_count h = of_nat (length ds) \<and>
     bc_sum h = word_of_int (sum_list ds) \<and>
     sum_list (bc_counts h) + bc_inf h = of_nat (length ds) \<and>
     (\<forall>i < 10. sum_list (take (Suc i) (bc_counts h)) =
        of_nat (length (filter (\<lambda>d. d \<le> LatencyBuckets ! i) ds)))"

lemma hist_ok_observe:
  assumes "hist_ok ds h"
  shows "hist_ok (ds @ [d]) (observe d h)"
proof (cases "bucket_index d 0 LatencyBuckets")
  case None
  have "\<not> d \<le> LatencyBuckets ! i" if "i < 10" for i
    using bucket_index_le [of LatencyBuckets i d] that None by simp
  with assms None show ?thesis by (auto simp: hist_ok_def observe_def Let_def ac_simps)
next
  case (Some j)
  then have j: "j < 10" using bucket_index_bound by fastforce
  have fit: "d \<le> LatencyBuckets ! i \<longleftrightarrow> j \<le> i" if "i < 10" for i
    using bucket_index_le [of LatencyBuckets i d] that Some by simp
  have len: "length (bc_counts h) = 10" using assms by (simp add: hist_ok_def)
  define cs where "cs = (bc_counts h)[j := bc_counts h ! j + 1]"
  have total: "sum_list cs = sum_list (bc_counts h) + 1" and lcs: "length cs = 10"
    using sum_list_take_update [of j "bc_counts h" 10] j len by (simp_all add: cs_def)
  have pre: "sum_list (take (Suc i) cs) = sum_list (take (Suc i) (bc_counts h)) + (if j \<le> i then 1 else 0)" for i
    using sum_list_take_update [of j "bc_counts h" "Suc i"] j len by (simp add: less_Suc_eq_le cs_def)
  have obs: "observe d h = h\<lparr>bc_count := bc_count h + 1, bc_sum := bc_sum h + word_of_int d, bc_counts := cs\<rparr>"
    by (simp add: observe_def Let_def Some cs_def)
  show ?thesis
    using assms len lcs fit by (auto simp: hist_ok_def obs total pre ac_simps)
qed

lemma hist_ok_observed: "hist_ok ds (observed ds)"
proof (induction ds rule: rev_induct)
  case Nil
  have "sum_list (take n (replicate m (0 :: uint64))) = 0" for n m by (induction m arbitrary: n) (auto simp: take_Cons')
  then show ?case by (simp add: hist_ok_def observed_def empty_hist_def del: take_replicate) (simp add: eval_nat_numeral)
next
  case (snoc d ds)
  then show ?case using hist_ok_observe by (simp add: observed_def)
qed

section \<open>The collector\<close>

definition record_latencies :: "(string \<times> string \<times> duration) list \<Rightarrow> MetricsCollector \<Rightarrow> MetricsCollector" where
  "record_latencies calls = fold (\<lambda>(m, p, d). RecordLatency m p d) calls"

definition record_requests :: "requestKey list \<Rightarrow> MetricsCollector \<Rightarrow> MetricsCollector" where
  "record_requests calls = fold (\<lambda>k. RecordRequest (rk_method k) (rk_path k) (rk_status k)) calls"

definition durations_of :: "histogramKey \<Rightarrow> (string \<times> string \<times> duration) list \<Rightarrow> duration list" where
  "durations_of k calls = map (\<lambda>(m, p, d). d) (filter (\<lambda>(m, p, d). m = hk_method k \<and> p = hk_path k) calls)"

lemma histograms_recorded:
  "histograms (record_latencies calls (NewMetricsCollector t)) k =
     (if durations_of k calls = [] then None else Some (observed (durations_of k calls)))"
proof (induction calls rule: rev_induct)
  case (snoc c calls)
  obtain m p d where c: "c = (m, p, d)" by (cases c)
  have key: "\<lparr>hk_method = m, hk_path = p\<rparr> = k \<longleftrightarrow> m = hk_method k \<and> p = hk_path k" by (cases k) auto
  have step: "record_latencies (calls @ [c]) (NewMetricsCollector t) =
      RecordLatency m p d (record_latencies calls (NewMetricsCollector t))"
    by (simp add: record_latencies_def c)
  have ds: "durations_of k (calls @ [c]) =
      durations_of k calls @ (if \<lparr>hk_method = m, hk_path = p\<rparr> = k then [d] else [])"
    by (simp add: durations_of_def c key)
  show ?case
    using snoc.IH unfolding step ds by (auto simp: RecordLatency_def Let_def observed_def)
qed (simp add: record_latencies_def NewMetricsCollector_def durations_of_def)

lemma write_histogram_counts:
  assumes "hist_ok ds h"
  shows "write_histogram k h =
    map (\<lambda>i. DurationBucket k (Some i) (of_nat (length (filter (\<lambda>d. d \<le> LatencyBuckets ! i) ds)))) [0..<10] @
    [DurationBucket k None (of_nat (length ds)), DurationSum k (word_of_int (sum_list ds)),
     DurationCount k (of_nat (length ds))]"
proof -
  let ?c = "cumulate 0 (bc_counts h)"
  have len: "length (bc_counts h) = 10" using assms by (simp add: hist_ok_def)
  have nth: "?c ! i = of_nat (length (filter (\<lambda>d. d \<le> LatencyBuckets ! i) ds))" if "i < 10" for i
    using assms that len by (simp add: cumulate_nth hist_ok_def)
  then have "map (\<lambda>(i, c). DurationBucket k (Some i) c) (enumerate 0 ?c) =
      map (\<lambda>i. DurationBucket k (Some i) (of_nat (length (filter (\<lambda>d. d \<le> LatencyBuckets ! i) ds)))) [0..<10]"
    by (intro nth_equalityI) (simp_all add: len nth_enumerate_eq)
  moreover have "last ?c = sum_list (bc_counts h)" "?c \<noteq> []"
  proof -
    show ne: "?c \<noteq> []" using len by (metis length_cumulate length_0_conv zero_neq_numeral)
    show "last ?c = sum_list (bc_counts h)"
      using cumulate_nth [of 9 "bc_counts h" 0] len ne by (simp add: last_conv_nth)
  qed
  ultimately show ?thesis using assms by (simp add: write_histogram_def Let_def hist_ok_def)
qed

section \<open>Properties\<close>

text \<open>
  C23. The exported latency histogram is right: after any sequence of recorded latencies, the
  bucket of each limit is the number of latencies of that method and path not above the limit,
  the \<open>+Inf\<close> bucket and the count are the number of all of them, and the sum is their sum (all
  modulo \<open>2 ^ 64\<close>, as the counters are 64-bit).
\<close>

theorem latency_histogram_correct:
  assumes "ds = durations_of k calls" "ds \<noteq> []"
  shows "\<exists>h. histograms (record_latencies calls (NewMetricsCollector t)) k = Some h \<and>
    write_histogram k h =
      map (\<lambda>i. DurationBucket k (Some i) (of_nat (length (filter (\<lambda>d. d \<le> LatencyBuckets ! i) ds)))) [0..<10] @
      [DurationBucket k None (of_nat (length ds)), DurationSum k (word_of_int (sum_list ds)),
       DurationCount k (of_nat (length ds))]"
  using write_histogram_counts [OF hist_ok_observed, of k ds] assms by (simp add: histograms_recorded)

theorem latency_histogram_correct_witness:
  "\<exists>h. histograms (record_latencies [(''GET'', ''/a'', 200000), (''PUT'', ''/a'', 7), (''GET'', ''/a'', 50)]
      (NewMetricsCollector 0)) \<lparr>hk_method = ''GET'', hk_path = ''/a''\<rparr> = Some h \<and>
    DurationCount \<lparr>hk_method = ''GET'', hk_path = ''/a''\<rparr> 2 \<in> set (write_histogram \<lparr>hk_method = ''GET'', hk_path = ''/a''\<rparr> h)"
proof -
  let ?k = "\<lparr>hk_method = ''GET'', hk_path = ''/a''\<rparr>"
  let ?calls = "[(''GET'', ''/a'', 200000), (''PUT'', ''/a'', 7), (''GET'', ''/a'', 50)]"
  have "[200000, 50] = durations_of ?k ?calls" by (simp add: durations_of_def)
  from latency_histogram_correct [OF this, of 0] show ?thesis by auto
qed

text \<open>
  Each combination of method, path and status counts exactly the requests recorded for it,
  and a combination that never occurred has no counter.
\<close>

theorem request_counters_correct:
  "reqCounts (record_requests calls (NewMetricsCollector t)) k =
     (let n = length (filter (\<lambda>c. c = k) calls) in if n = 0 then None else Some (of_nat n))"
proof (induction calls rule: rev_induct)
  case (snoc c calls)
  have key: "\<lparr>rk_method = rk_method c, rk_path = rk_path c, rk_status = rk_status c\<rparr> = c" by simp
  have step: "record_requests (calls @ [c]) (NewMetricsCollector t) =
      RecordRequest (rk_method c) (rk_path c) (rk_status c) (record_requests calls (NewMetricsCollector t))"
    by (simp add: record_requests_def)
  show ?case
    using snoc.IH unfolding step RecordRequest_def Let_def key by (auto simp: add.commute)
qed (simp add: record_requests_def NewMetricsCollector_def)

end
