(* ===== verification/KV_Config.thy ===== *)
theory KV_Config
  imports KV_Prelude
begin

text \<open>
  Configuration (\<open>internal/config/config.go\<close>): environment variables, command-line flags and
  defaults. The environment, the flags that were given, the host name and the creation of the
  data directory are arguments. The decimal conversions of \<open>strconv\<close> and \<open>fmt\<close> are written out.
\<close>

section \<open>Decimal numbers\<close>

fun show_digits :: "nat \<Rightarrow> string" where
  "show_digits n = (if n < 10 then [char_of (48 + n)] else show_digits (n div 10) @ [char_of (48 + n mod 10)])"

declare show_digits.simps [simp del]

definition Itoa :: "int \<Rightarrow> string" where
  "Itoa i = (if i < 0 then CHR ''-'' # show_digits (nat (- i)) else show_digits (nat i))"

definition is_digit :: "char \<Rightarrow> bool" where
  "is_digit c \<longleftrightarrow> 48 \<le> (of_char c :: nat) \<and> (of_char c :: nat) \<le> 57"

definition digits_value :: "string \<Rightarrow> nat" where
  "digits_value ds = fold (\<lambda>c n. 10 * n + (of_char c - 48)) ds 0"

definition Atoi :: "string \<Rightarrow> int option" where
  "Atoi s =
     (let (neg, ds) = (case s of
            [] \<Rightarrow> (False, [])
          | c # cs \<Rightarrow> if c = CHR ''-'' then (True, cs) else if c = CHR ''+'' then (False, cs) else (False, s));
          v = (if neg then - int (digits_value ds) else int (digits_value ds))
      in if ds = [] \<or> \<not> list_all is_digit ds then None
         else if - (2 ^ 63) \<le> v \<and> v < 2 ^ 63 then Some v else None)"

section \<open>The code\<close>

record Config =
  cfg_NodeID :: string
  cfg_Port :: int
  cfg_DataDir :: string
  cfg_SeedAddress :: string
  cfg_GossipInterval :: duration
  cfg_PingTimeout :: duration
  cfg_SuspicionWindow :: duration
  cfg_ReplicationTimeout :: duration
  cfg_ReapInterval :: duration
  cfg_AdvertiseAddr :: string

type_synonym env = "string \<rightharpoonup> string"

definition getEnv :: "env \<Rightarrow> string \<Rightarrow> string \<Rightarrow> string" where
  "getEnv env key fallback = (case env key of Some val \<Rightarrow> val | None \<Rightarrow> fallback)"

definition getEnvInt :: "env \<Rightarrow> string \<Rightarrow> int \<Rightarrow> int" where
  "getEnvInt env key fallback =
     (case env key of
        Some val \<Rightarrow> (case Atoi val of Some i \<Rightarrow> i | None \<Rightarrow> fallback)
      | None \<Rightarrow> fallback)"

text \<open>The flags given on the command line, by name; \<open>flag.Parse\<close> puts them over the defaults.\<close>

record flags =
  flag_str :: "string \<rightharpoonup> string"
  flag_int :: "string \<rightharpoonup> int"

definition StringVar :: "flags \<Rightarrow> string \<Rightarrow> string \<Rightarrow> string" where
  "StringVar fl name fallback = (case flag_str fl name of Some v \<Rightarrow> v | None \<Rightarrow> fallback)"

definition IntVar :: "flags \<Rightarrow> string \<Rightarrow> int \<Rightarrow> int" where
  "IntVar fl name fallback = (case flag_int fl name of Some v \<Rightarrow> v | None \<Rightarrow> fallback)"

definition time_Second :: duration where "time_Second = 1000000000"

definition time_Millisecond :: duration where "time_Millisecond = 1000000"

text \<open>\<open>hostname\<close> is the result of \<open>os.Hostname\<close>, \<open>mkdir_ok\<close> that of \<open>os.MkdirAll\<close>.\<close>

definition Load :: "env \<Rightarrow> flags \<Rightarrow> string option \<Rightarrow> (string \<Rightarrow> bool) \<Rightarrow> Config option" where
  "Load env fl hostname mkdir_ok =
     (let nodeID = StringVar fl ''node-id'' (getEnv env ''KV_NODE_ID'' []);
          port = IntVar fl ''port'' (getEnvInt env ''KV_PORT'' 8080);
          dataDir = StringVar fl ''data-dir'' (getEnv env ''KV_DATA_DIR'' ''./data'');
          seedAddr = StringVar fl ''seed-addr'' (getEnv env ''KV_SEED_ADDR'' []);
          advertiseAddr = StringVar fl ''advertise-addr'' (getEnv env ''KV_ADVERTISE_ADDR'' []);
          gossipSec = IntVar fl ''gossip-interval-sec'' (getEnvInt env ''KV_GOSSIP_INTERVAL_SEC'' 1);
          pingMs = IntVar fl ''ping-timeout-ms'' (getEnvInt env ''KV_PING_TIMEOUT_MS'' 200);
          suspSec = IntVar fl ''suspicion-window-sec'' (getEnvInt env ''KV_SUSPICION_WINDOW_SEC'' 5);
          replMs = IntVar fl ''replication-timeout-ms'' (getEnvInt env ''KV_REPLICATION_TIMEOUT_MS'' 500);
          reapSec = IntVar fl ''reap-interval-sec'' (getEnvInt env ''KV_REAP_INTERVAL_SEC'' 5);
          nodeID = (if nodeID = [] then
                      (case hostname of Some h \<Rightarrow> h | None \<Rightarrow> ''node-'' @ Itoa port)
                    else nodeID);
          advertiseAddr = (if advertiseAddr = [] then
                      (case hostname of Some h \<Rightarrow> h @ '':'' @ Itoa port | None \<Rightarrow> ''localhost:'' @ Itoa port)
                    else advertiseAddr)
      in if \<not> mkdir_ok dataDir then None
         else Some \<lparr>cfg_NodeID = nodeID, cfg_Port = port, cfg_DataDir = dataDir, cfg_SeedAddress = seedAddr,
                cfg_GossipInterval = wrap64 (gossipSec * time_Second),
                cfg_PingTimeout = wrap64 (pingMs * time_Millisecond),
                cfg_SuspicionWindow = wrap64 (suspSec * time_Second),
                cfg_ReplicationTimeout = wrap64 (replMs * time_Millisecond),
                cfg_ReapInterval = wrap64 (reapSec * time_Second),
                cfg_AdvertiseAddr = advertiseAddr\<rparr>)"

section \<open>Decimal round trip\<close>

lemma digits_value_snoc: "digits_value (ds @ [c]) = 10 * digits_value ds + (of_char c - 48)"
  by (simp add: digits_value_def)

lemma of_char_digit: "n < 10 \<Longrightarrow> (of_char (char_of (48 + n :: nat)) :: nat) = 48 + n"
  by (simp add: of_char_of)

lemma show_digits_ok: "show_digits n \<noteq> [] \<and> list_all is_digit (show_digits n) \<and> digits_value (show_digits n) = n"
proof (induction n rule: show_digits.induct)
  case (1 n)
  show ?case
  proof (cases "n < 10")
    case True
    then show ?thesis by (simp add: show_digits.simps [of n] of_char_digit is_digit_def digits_value_def)
  next
    case False
    then have m: "n mod 10 < 10" "10 * (n div 10) + n mod 10 = n" by simp_all
    have eq: "show_digits n = show_digits (n div 10) @ [char_of (48 + n mod 10)]"
      using False by (simp add: show_digits.simps [of n])
    show ?thesis using 1 False m of_char_digit [OF m(1)]
      unfolding eq digits_value_snoc by (simp add: is_digit_def)
  qed
qed

lemma digit_not_sign: "is_digit c \<Longrightarrow> c \<noteq> CHR ''-'' \<and> c \<noteq> CHR ''+''"
  by (auto simp: is_digit_def)

lemma Atoi_Itoa:
  assumes "- (2 ^ 63) \<le> i" "i < 2 ^ 63"
  shows "Atoi (Itoa i) = Some i"
proof (cases "i < 0")
  case True
  then show ?thesis using assms show_digits_ok [of "nat (- i)"] by (simp add: Itoa_def Atoi_def)
next
  case False
  let ?ds = "show_digits (nat i)"
  obtain c cs where c: "?ds = c # cs" using show_digits_ok [of "nat i"] by (cases ?ds) auto
  then have "c \<noteq> CHR ''-'' \<and> c \<noteq> CHR ''+''" using show_digits_ok [of "nat i"] digit_not_sign by fastforce
  with False c assms show_digits_ok [of "nat i"] show ?thesis by (simp add: Itoa_def Atoi_def)
qed

definition no_flags :: flags where
  "no_flags = \<lparr>flag_str = Map.empty, flag_int = Map.empty\<rparr>"

end
