(* ===== verification/KV_Api.thy ===== *)
theory KV_Api
  imports KV_Scan KV_Lww KV_Gossip KV_Replication KV_Metrics KV_Config
begin

text \<open>
  The HTTP API (\<open>internal/api/handlers.go\<close>, \<open>router.go\<close>, \<open>middleware.go\<close>). A handler takes what
  \<open>net/http\<close> and \<open>encoding/json\<close> made of the request (path value, query values, decoded body or
  a decoding failure) and returns a status and a body as values, the requests handed to the
  replicator, and the node. \<open>dispatch\<close> runs the handler of a decoded request; which handler a
  URL reaches is the subject of theory \<open>KV_Router\<close>.
\<close>

section \<open>Types\<close>

record API =
  api_store :: Store
  api_pm :: PeerManager
  api_gossip :: GossipManager
  api_replicator :: Replicator
  api_metrics :: MetricsCollector
  api_cfg :: Config

definition NewAPI :: "Store \<Rightarrow> PeerManager \<Rightarrow> GossipManager \<Rightarrow> Replicator \<Rightarrow> MetricsCollector \<Rightarrow> Config \<Rightarrow> API" where
  "NewAPI s pm gossip replicator mc cfg = \<lparr>api_store = s, api_pm = pm, api_gossip = gossip,
     api_replicator = replicator, api_metrics = mc, api_cfg = cfg\<rparr>"

record PutRequest =
  put_Value :: string
  put_TTLSeconds :: "int option"

record ClusterStatusResponse =
  cs_NodeID :: string
  cs_Role :: string
  cs_Uptime :: duration
  cs_StoreSize :: int
  cs_WALSizeBytes :: int
  cs_PeersCount :: int

datatype body =
    ErrorMessage string
  | ErrorOf go_error
  | GetResponse string uint64
  | PutResponse uint64
  | DeleteResponse uint64 bool
  | KeysResponse "string list" string
  | PeersResponse "Peer list"
  | StatusResponse ClusterStatusResponse
  | PlainText string
  | MetricsText "sample list"
  | MovedTo string
  | StaticFile string
  | DirectoryListing "string list"
  | NoBody

record response =
  rs_status :: nat
  rs_body :: body

definition writeJSON :: "nat \<Rightarrow> body \<Rightarrow> response" where
  "writeJSON status data = \<lparr>rs_status = status, rs_body = data\<rparr>"

type_synonym outbox = "(Peer \<times> ReplicateRequest) list"

text \<open>What a request meets: the log's file system, clock readings, and orders of \<open>range\<close>.\<close>

record api_io =
  io_log :: append_io
  io_clock :: "nat \<Rightarrow> gotime"
  io_shards :: "nat \<Rightarrow> string list"
  io_peers :: "string list"
  io_reqs :: "requestKey list"
  io_hists :: "histogramKey list"

section \<open>Handlers\<close>

definition handleGetKey :: "api_io \<Rightarrow> string \<Rightarrow> API \<Rightarrow> response \<times> API" where
  "handleGetKey io key api =
     (if key = [] then (writeJSON 400 (ErrorMessage ''key required''), api)
      else
        (case Get (io_clock io 0) (io_clock io 1) key (api_store api) of
           (None, s) \<Rightarrow> (writeJSON 404 (ErrorMessage ''key not found''), api\<lparr>api_store := s\<rparr>)
         | (Some (val, version), s) \<Rightarrow>
             (writeJSON 200 (GetResponse (string_of val) version), api\<lparr>api_store := s\<rparr>)))"

definition put_ttl :: "PutRequest \<Rightarrow> duration" where
  "put_ttl req = (case put_TTLSeconds req of
     Some n \<Rightarrow> if n > 0 then wrap64 (n * time_Second) else 0
   | None \<Rightarrow> 0)"

definition handlePutKey :: "api_io \<Rightarrow> string \<Rightarrow> PutRequest option \<Rightarrow> API \<Rightarrow> response \<times> outbox \<times> API" where
  "handlePutKey io key decoded api =
     (if key = [] then (writeJSON 400 (ErrorMessage ''key required''), [], api)
      else
        (case decoded of
           None \<Rightarrow> (writeJSON 400 (ErrorMessage ''invalid request json''), [], api)
         | Some req \<Rightarrow>
             (let ttl = put_ttl req;
                  val = bytes_of (put_Value req)
              in case Set (io_log io) (io_clock io 0) (io_clock io 1) key val ttl 0 (api_store api) of
                   (Inl e, s) \<Rightarrow> (writeJSON 500 (ErrorOf e), [], api\<lparr>api_store := s\<rparr>)
                 | (Inr version, s) \<Rightarrow>
                     (let expiresAt = (if ttl > 0 then time_Add (io_clock io 2) ttl else zero_time);
                          (msgs, r) = Replicate (io_peers io) key val version expiresAt ''SET'' (api_pm api)
                            (api_replicator api)
                      in (writeJSON 200 (PutResponse version), msgs, api\<lparr>api_store := s, api_replicator := r\<rparr>)))))"

definition handleDeleteKey :: "api_io \<Rightarrow> string \<Rightarrow> API \<Rightarrow> response \<times> outbox \<times> API" where
  "handleDeleteKey io key api =
     (if key = [] then (writeJSON 400 (ErrorMessage ''key required''), [], api)
      else
        (case Delete (io_log io) (io_clock io 0) key 0 (api_store api) of
           (Inl e, s) \<Rightarrow> (writeJSON 500 (ErrorOf e), [], api\<lparr>api_store := s\<rparr>)
         | (Inr (version, deleted), s) \<Rightarrow>
             (let (msgs, r) = Replicate (io_peers io) key [] version zero_time ''DELETE'' (api_pm api)
                    (api_replicator api)
              in (writeJSON 200 (DeleteResponse version deleted), msgs,
                  api\<lparr>api_store := s, api_replicator := r\<rparr>))))"

definition list_limit :: "string \<Rightarrow> int" where
  "list_limit limitStr =
     (if limitStr \<noteq> [] then
        (case Atoi limitStr of
           Some val \<Rightarrow> if val > 0 then (if val > 1000 then 1000 else val) else 100
         | None \<Rightarrow> 100)
      else 100)"

definition handleListKeys :: "api_io \<Rightarrow> string \<Rightarrow> string \<Rightarrow> string \<Rightarrow> API \<Rightarrow> go_panic + response" where
  "handleListKeys io prefix limitStr cursor api =
     (case Scan (io_clock io 0) (io_shards io) prefix (list_limit limitStr) cursor (api_store api) of
        Inl p \<Rightarrow> Inl p
      | Inr (keys, nextCursor) \<Rightarrow>
          Inr (writeJSON 200 (KeysResponse (case keys of None \<Rightarrow> [] | Some ks \<Rightarrow> ks) nextCursor)))"

definition handleClusterPeers :: "api_io \<Rightarrow> API \<Rightarrow> response" where
  "handleClusterPeers io api = writeJSON 200 (PeersResponse (GetAll (io_peers io) (api_pm api)))"

definition handleClusterStatus :: "api_io \<Rightarrow> API \<Rightarrow> response" where
  "handleClusterStatus io api =
     (let peers = GetAll (io_peers io) (api_pm api);
          peersCount = int (length (filter (\<lambda>p. State p = StateAlive) peers));
          role = (if cfg_SeedAddress (api_cfg api) = [] then ''seed'' else ''peer'')
      in writeJSON 200 (StatusResponse
           \<lparr>cs_NodeID = cfg_NodeID (api_cfg api), cs_Role = role,
            cs_Uptime = Uptime (io_clock io 0) (api_metrics api), cs_StoreSize = Size (api_store api),
            cs_WALSizeBytes = 1024, cs_PeersCount = peersCount\<rparr>))"

definition handleHealthz :: response where
  "handleHealthz = \<lparr>rs_status = 200, rs_body = PlainText ''OK''\<rparr>"

text \<open>The peer counts the server registers with the collector (\<open>cmd/server/main.go\<close>).\<close>

definition peer_counts :: "Peer list \<Rightarrow> (string \<times> int) list" where
  "peer_counts peers =
     map (\<lambda>s. (s, int (length (filter (\<lambda>p. State p = s) peers))))
       (remdups ([StateAlive, StateSuspect, StateDead] @ map State peers))"

definition handleMetrics :: "api_io \<Rightarrow> API \<Rightarrow> response" where
  "handleMetrics io api =
     \<lparr>rs_status = 200, rs_body = MetricsText (WritePrometheus (io_reqs io) (io_hists io)
        (Some (Size (api_store api))) (map_option wal_Size (wal (api_store api)))
        (Some (peer_counts (GetAll (io_peers io) (api_pm api)))) (api_metrics api))\<rparr>"

definition handleInternalPing :: "api_io \<Rightarrow> string \<Rightarrow> string \<Rightarrow> API \<Rightarrow> response \<times> API" where
  "handleInternalPing io senderID senderAddr api =
     (let pm = (if senderID \<noteq> [] \<and> senderAddr \<noteq> []
            then AddOrUpdate (io_clock io 0, io_clock io 1) senderID senderAddr StateAlive (api_pm api)
            else api_pm api);
          me = (new_peer (cfg_NodeID (api_cfg api)) (cfg_AdvertiseAddr (api_cfg api)))
                 \<lparr>State := StateAlive, LastSeen := io_clock io 2\<rparr>
      in (writeJSON 200 (PeersResponse (GetAll (io_peers io) pm @ [me])), api\<lparr>api_pm := pm\<rparr>))"

definition replica_ttl :: "gotime \<Rightarrow> int \<Rightarrow> duration" where
  "replica_ttl now expNano =
     (if expNano > 0 then
        (let ttl = time_Sub (time_Unix0 expNano) now in if ttl \<le> 0 then 1 * time_Millisecond else ttl)
      else 0)"

definition handleInternalReplicate :: "api_io \<Rightarrow> ReplicateRequest option \<Rightarrow> API \<Rightarrow> response \<times> API" where
  "handleInternalReplicate io decoded api =
     (case decoded of
        None \<Rightarrow> (writeJSON 400 (ErrorMessage ''invalid request json''), api)
      | Some req \<Rightarrow>
          (let (err, s) =
             (if rq_Action req = ''SET'' then
                (case Set (io_log io) (io_clock io 1) (io_clock io 2) (rq_Key req) (rq_Value req)
                   (replica_ttl (io_clock io 0) (rq_ExpiresAt req)) (rq_Version req) (api_store api) of
                   (Inl e, s) \<Rightarrow> (Some e, s) | (Inr _, s) \<Rightarrow> (None, s))
              else if rq_Action req = ''DELETE'' then
                (case Delete (io_log io) (io_clock io 1) (rq_Key req) (rq_Version req) (api_store api) of
                   (Inl e, s) \<Rightarrow> (Some e, s) | (Inr _, s) \<Rightarrow> (None, s))
              else (None, api_store api))
           in case err of
                Some e \<Rightarrow> (writeJSON 500 (ErrorOf e), api\<lparr>api_store := s\<rparr>)
              | None \<Rightarrow> (\<lparr>rs_status = 200, rs_body = NoBody\<rparr>, api\<lparr>api_store := s\<rparr>)))"

section \<open>Router and middleware\<close>

datatype request =
    ReqGetKey string
  | ReqPutKey string "PutRequest option"
  | ReqDeleteKey string
  | ReqListKeys string string string
  | ReqClusterPeers
  | ReqClusterStatus
  | ReqHealthz
  | ReqMetrics
  | ReqPing string string
  | ReqReplicate "ReplicateRequest option"

fun dispatch :: "api_io \<Rightarrow> request \<Rightarrow> API \<Rightarrow> go_panic + (response \<times> outbox \<times> API)" where
  "dispatch io (ReqGetKey key) api = (case handleGetKey io key api of (r, a) \<Rightarrow> Inr (r, [], a))"
| "dispatch io (ReqPutKey key req) api = Inr (handlePutKey io key req api)"
| "dispatch io (ReqDeleteKey key) api = Inr (handleDeleteKey io key api)"
| "dispatch io (ReqListKeys prefix limitStr cursor) api =
     (case handleListKeys io prefix limitStr cursor api of Inl p \<Rightarrow> Inl p | Inr r \<Rightarrow> Inr (r, [], api))"
| "dispatch io ReqClusterPeers api = Inr (handleClusterPeers io api, [], api)"
| "dispatch io ReqClusterStatus api = Inr (handleClusterStatus io api, [], api)"
| "dispatch io ReqHealthz api = Inr (handleHealthz, [], api)"
| "dispatch io ReqMetrics api = Inr (handleMetrics io api, [], api)"
| "dispatch io (ReqPing senderID senderAddr) api =
     (case handleInternalPing io senderID senderAddr api of (r, a) \<Rightarrow> Inr (r, [], a))"
| "dispatch io (ReqReplicate req) api =
     (case handleInternalReplicate io req api of (r, a) \<Rightarrow> Inr (r, [], a))"

text \<open>A panic of a handler (only \<open>Scan\<close> can, which changes nothing) is answered with status 500.\<close>

definition RecoveryMiddleware :: "API \<Rightarrow> go_panic + (response \<times> outbox \<times> API) \<Rightarrow> response \<times> outbox \<times> API" where
  "RecoveryMiddleware api result =
     (case result of
        Inl _ \<Rightarrow> (writeJSON 500 (ErrorMessage ''internal server error''), [], api)
      | Inr r \<Rightarrow> r)"

definition StatusText :: "nat \<Rightarrow> string" where
  "StatusText code =
     (if code = 200 then ''OK'' else if code = 301 then ''Moved Permanently''
      else if code = 400 then ''Bad Request'' else if code = 404 then ''Not Found''
      else if code = 405 then ''Method Not Allowed''
      else if code = 500 then ''Internal Server Error'' else [])"

text \<open>
  The writer remembers the last status given to \<open>WriteHeader\<close>, while \<open>net/http\<close> sends the first
  one. It starts with status 200, and every handler sets the status once.
\<close>

record responseWriterWrapper =
  rw_sent :: "nat option"
  rw_statusCode :: nat

definition WriteHeader :: "nat \<Rightarrow> responseWriterWrapper \<Rightarrow> responseWriterWrapper" where
  "WriteHeader code rw = rw\<lparr>rw_statusCode := code, rw_sent := (case rw_sent rw of None \<Rightarrow> Some code | Some c \<Rightarrow> Some c)\<rparr>"

definition LoggingAndMetricsMiddleware :: "string \<Rightarrow> string \<Rightarrow> gotime \<Rightarrow> gotime \<Rightarrow>
  response \<times> outbox \<times> API \<Rightarrow> responseWriterWrapper \<times> response \<times> outbox \<times> API" where
  "LoggingAndMetricsMiddleware method path started finished result =
     (case result of (r, msgs, api) \<Rightarrow>
        (let rw = WriteHeader (rs_status r) \<lparr>rw_sent = None, rw_statusCode = 200\<rparr>;
             duration = time_Sub finished started;
             mc = RecordRequest method path (StatusText (rw_statusCode rw)) (api_metrics api);
             mc = RecordLatency method path duration mc
         in (rw, r, msgs, api\<lparr>api_metrics := mc\<rparr>)))"

section \<open>The invariant of a node\<close>

definition api_inv :: "API \<Rightarrow> bool" where
  "api_inv api \<longleftrightarrow> store_inv (api_store api) \<and> keyed (api_pm api)"

lemma api_inv_frame [simp]:
  "api_inv (api\<lparr>api_replicator := r\<rparr>) = api_inv api" "api_inv (api\<lparr>api_metrics := mc\<rparr>) = api_inv api"
  by (simp_all add: api_inv_def)

lemma handleGetKey_inv: "api_inv api \<Longrightarrow> api_inv (snd (handleGetKey io key api))"
  using Get_inv [of "api_store api" "io_clock io 0" "io_clock io 1" key]
  by (auto simp: handleGetKey_def api_inv_def split: prod.split option.split)

lemma handlePutKey_inv: "api_inv api \<Longrightarrow> api_inv (snd (snd (handlePutKey io key req api)))"
  using Set_inv [of "api_store api" "io_log io" "io_clock io 0" "io_clock io 1" key _ _ 0]
  by (auto simp: handlePutKey_def api_inv_def Let_def split: prod.split option.split sum.split) (metis snd_conv)+

lemma handleDeleteKey_inv: "api_inv api \<Longrightarrow> api_inv (snd (snd (handleDeleteKey io key api)))"
  using Delete_inv [of "api_store api" "io_log io" "io_clock io 0" key 0]
  by (auto simp: handleDeleteKey_def api_inv_def Let_def split: prod.split option.split sum.split)

lemma handleInternalPing_inv: "api_inv api \<Longrightarrow> api_inv (snd (handleInternalPing io i a api))"
  by (auto simp: handleInternalPing_def api_inv_def Let_def AddOrUpdate_keyed)

lemma handleInternalReplicate_inv: "api_inv api \<Longrightarrow> api_inv (snd (handleInternalReplicate io req api))"
  using Set_inv [of "api_store api" "io_log io" "io_clock io 1" "io_clock io 2"]
    Delete_inv [of "api_store api" "io_log io" "io_clock io 1"]
  by (auto simp: handleInternalReplicate_def api_inv_def Let_def case_prod_beta split: option.split sum.split)

lemma dispatch_inv: "api_inv api \<Longrightarrow> dispatch io req api = Inr (r, msgs, api') \<Longrightarrow> api_inv api'"
  using handleGetKey_inv [of api io] handlePutKey_inv [of api io] handleDeleteKey_inv [of api io]
    handleInternalPing_inv [of api io] handleInternalReplicate_inv [of api io]
  by (cases req) (auto simp: case_prod_beta split: sum.splits, (metis snd_conv)+)

text \<open>Handlers leave the metrics to the middleware, and use four status codes.\<close>

definition handler_frame :: "API \<Rightarrow> response \<Rightarrow> API \<Rightarrow> bool" where
  "handler_frame api r api' \<longleftrightarrow> api_metrics api' = api_metrics api \<and> rs_status r \<in> {200, 400, 404, 500}"

lemma handlePutKey_frame: "handlePutKey io key req api = (r, msgs, api') \<Longrightarrow> handler_frame api r api'"
  by (auto simp: handlePutKey_def handler_frame_def writeJSON_def Let_def split: if_splits option.splits prod.splits sum.splits)

lemma handleDeleteKey_frame: "handleDeleteKey io key api = (r, msgs, api') \<Longrightarrow> handler_frame api r api'"
  by (auto simp: handleDeleteKey_def handler_frame_def writeJSON_def Let_def split: if_splits option.splits prod.splits sum.splits)

lemma handleGetKey_frame: "handleGetKey io key api = (r, api') \<Longrightarrow> handler_frame api r api'"
  by (auto simp: handleGetKey_def handler_frame_def writeJSON_def split: if_splits option.splits prod.splits)

lemma handleInternalPing_frame: "handleInternalPing io i a api = (r, api') \<Longrightarrow> handler_frame api r api'"
  by (auto simp: handleInternalPing_def handler_frame_def writeJSON_def Let_def)

lemma handleInternalReplicate_frame: "handleInternalReplicate io req api = (r, api') \<Longrightarrow> handler_frame api r api'"
  by (auto simp: handleInternalReplicate_def handler_frame_def writeJSON_def Let_def case_prod_beta
      split: if_splits option.splits sum.splits)

lemma handleListKeys_frame: "handleListKeys io prefix lim cursor api = Inr r \<Longrightarrow> handler_frame api r api"
  by (auto simp: handleListKeys_def handler_frame_def writeJSON_def split: sum.splits)

lemma dispatch_frame: "dispatch io req api = Inr (r, msgs, api') \<Longrightarrow> handler_frame api r api'"
  by (cases req)
    (auto simp: handleClusterPeers_def handleClusterStatus_def handleHealthz_def handleMetrics_def Let_def
      handler_frame_def [of _ "writeJSON _ _"] handler_frame_def [of _ "\<lparr>rs_status = _, rs_body = _\<rparr>"] writeJSON_def
      split: prod.splits sum.splits
      dest: handlePutKey_frame handleDeleteKey_frame handleGetKey_frame handleInternalPing_frame
        handleInternalReplicate_frame handleListKeys_frame)

section \<open>Properties\<close>

definition demo_api :: API where
  "demo_api = NewAPI demo_store (demo_remote StateAlive) demo_gm (NewReplicator ''a'' 500) (NewMetricsCollector 0)
     \<lparr>cfg_NodeID = ''a'', cfg_Port = 8080, cfg_DataDir = ''d'', cfg_SeedAddress = [], cfg_GossipInterval = 1,
      cfg_PingTimeout = 1, cfg_SuspicionWindow = 5000, cfg_ReplicationTimeout = 500, cfg_ReapInterval = 5,
      cfg_AdvertiseAddr = ''a:8080''\<rparr>"

definition demo_io :: api_io where
  "demo_io = \<lparr>io_log = io_ok, io_clock = (\<lambda>_. 60), io_shards = demo_order, io_peers = [''b''], io_reqs = [], io_hists = []\<rparr>"

lemma demo_api [simp]: "api_inv demo_api" "api_store demo_api = demo_store" "api_pm demo_api = demo_remote StateAlive"
  "wal_ready demo_store" "io_clock demo_io n = 60" "io_log demo_io = io_ok" "io_shards demo_io = demo_order"
  "io_peers demo_io = [''b'']" "rp_nodeID (api_replicator demo_api) = ''a''"
  by (simp_all add: api_inv_def demo_api_def NewAPI_def demo_io_def wal_ready_def NewReplicator_def)

text \<open>A successful PUT, taken apart.\<close>

lemma handlePutKey_ok:
  assumes "handlePutKey io key (Some req) api = (r, msgs, api')" "rs_status r = 200"
  shows "\<exists>v s repl. key \<noteq> [] \<and> r = writeJSON 200 (PutResponse v) \<and>
    Set (io_log io) (io_clock io 0) (io_clock io 1) key (bytes_of (put_Value req)) (put_ttl req) 0 (api_store api) = (Inr v, s) \<and>
    Replicate (io_peers io) key (bytes_of (put_Value req)) v
      (if put_ttl req > 0 then time_Add (io_clock io 2) (put_ttl req) else zero_time) ''SET'' (api_pm api) (api_replicator api) = (msgs, repl) \<and>
    api' = api\<lparr>api_store := s, api_replicator := repl\<rparr>"
  using assms
  by (auto simp: handlePutKey_def Let_def writeJSON_def split: if_splits prod.splits sum.splits)

lemma handlePutKey_nodeID:
  "handlePutKey io key req api = (r, msgs, api') \<Longrightarrow> rp_nodeID (api_replicator api') = rp_nodeID (api_replicator api)"
  by (auto simp: handlePutKey_def Replicate_def UpdateLastServed_def Let_def split: if_splits option.splits prod.splits sum.splits)

definition demo_put :: PutRequest where
  "demo_put = \<lparr>put_Value = ''hi'', put_TTLSeconds = None\<rparr>"

lemma demo_put [simp]: "put_ttl demo_put = 0" "put_Value demo_put = ''hi''" "fst (NextVersion 60 demo_store) = 60"
  by (simp_all add: demo_put_def put_ttl_def NextVersion_def Let_def UnixNano_def wrap64_def)

abbreviation demo_target :: Peer where
  "demo_target \<equiv> (new_peer ''b'' ''b:1'')\<lparr>State := StateAlive\<rparr>"

lemma demo_put_sent:
  assumes "key \<noteq> []" "fst (Set io_ok t t key (bytes_of ''hi'') 0 0 (api_store api)) = Inr v"
    and "api_pm api = demo_remote StateAlive" "rp_nodeID (api_replicator api) = ''a''"
  shows "\<exists>a'. handlePutKey (demo_io\<lparr>io_clock := (\<lambda>_. t)\<rparr>) key (Some demo_put) api =
     (writeJSON 200 (PutResponse v), [(demo_target, replicate_request key (bytes_of ''hi'') v zero_time ''SET'')], a')"
proof -
  obtain s where "Set io_ok t t key (bytes_of ''hi'') 0 0 (api_store api) = (Inr v, s)"
    using assms(2) by (metis prod.collapse)
  moreover have "fst (Replicate [''b''] key val v x act (demo_remote StateAlive) (api_replicator api)) =
      [(demo_target, replicate_request key val v x act)]" for val v x act
    using assms(4) by (simp add: Replicate_def Let_def GetAll_def List.map_filter_simps demo_remote_def new_peer_def)
  ultimately show ?thesis using assms(1,3) by (simp add: handlePutKey_def Let_def case_prod_beta)
qed

lemma demo_clock [simp]: "demo_io\<lparr>io_clock := (\<lambda>_. 60)\<rparr> = demo_io"
  by (simp add: demo_io_def)

lemma demo_put_answer:
  "\<exists>a'. handlePutKey demo_io ''x'' (Some demo_put) demo_api =
     (writeJSON 200 (PutResponse 60),
      [(demo_target, replicate_request ''x'' (bytes_of ''hi'') 60 zero_time ''SET'')], a')"
proof -
  have "fst (Set io_ok 60 60 ''x'' (bytes_of ''hi'') 0 0 demo_store) = Inr 60"
    by (simp add: Set_unfold assign_version_def log_append_def Let_def case_prod_beta Set_apply_result)
  then show ?thesis using demo_put_sent [of "''x''" 60 demo_api 60] by simp
qed

lemma put_get_answer:
  assumes "api_inv api" "handlePutKey io key (Some req) api = (r, msgs, api')" "rs_status r = 200"
    and "rs_body r = PutResponse (fst (NextVersion (io_clock io 1) (api_store api)))"
    and "put_ttl req \<le> 0 \<or> io_clock io' 0 \<le> io_clock io 0 + put_ttl req"
  shows "fst (handleGetKey io' key api') =
    writeJSON 200 (GetResponse (put_Value req) (fst (NextVersion (io_clock io 1) (api_store api))))"
proof -
  obtain v s repl where put: "key \<noteq> []" "r = writeJSON 200 (PutResponse v)"
    "Set (io_log io) (io_clock io 0) (io_clock io 1) key (bytes_of (put_Value req)) (put_ttl req) 0 (api_store api) = (Inr v, s)"
    "api' = api\<lparr>api_store := s, api_replicator := repl\<rparr>"
    using handlePutKey_ok [OF assms(2,3)] by blast
  have v: "v = fst (assign_version (io_clock io 1) 0 (api_store api))"
    using assms(4) put(2) by (simp add: writeJSON_def assign_version_def)
  have "store_inv (api_store api)" using assms(1) by (simp add: api_inv_def)
  from Set_then_Get [OF this put(3) v assms(5), of "io_clock io' 1"] put(1,4) v
  show ?thesis by (cases "Get (io_clock io' 0) (io_clock io' 1) key s") (simp add: handleGetKey_def assign_version_def)
qed

lemma put_delivered:
  assumes "handlePutKey io key (Some req) api = (r, msgs, api')" "rs_status r = 200" "rs_body r = PutResponse v" "v \<noteq> 0"
    and "(p, rq) \<in> set msgs" "api_inv b" "wal_ready (api_store b)" "io_log io' = io_ok" "length key \<le> 65535"
  shows "\<exists>b'. handleInternalReplicate io' (Some rq) b = (\<lparr>rs_status = 200, rs_body = NoBody\<rparr>, b') \<and> api_inv b' \<and>
    values_of (contents (api_store b')) = lww_put snd key (bytes_of (put_Value req), v) (values_of (contents (api_store b)))"
proof -
  obtain x repl where "Replicate (io_peers io) key (bytes_of (put_Value req)) v x ''SET'' (api_pm api) (api_replicator api) = (msgs, repl)"
    using handlePutKey_ok [OF assms(1,2)] assms(3) by (auto simp: writeJSON_def)
  then have "rq = replicate_request key (bytes_of (put_Value req)) v x ''SET''"
    using assms(5) by (auto simp: Replicate_def Let_def)
  then have rq: "rq_Key rq = key" "rq_Value rq = bytes_of (put_Value req)" "rq_Version rq = v" "rq_Action rq = ''SET''"
    by (simp_all add: replicate_request_def Let_def)
  obtain v' s' where "Set io_ok (io_clock io' 1) (io_clock io' 2) key (bytes_of (put_Value req))
      (replica_ttl (io_clock io' 0) (rq_ExpiresAt rq)) v (api_store b) = (Inr v', s')" "store_inv s'"
    "values_of (contents s') = lww_put snd key (bytes_of (put_Value req), v) (values_of (contents (api_store b)))"
    using replicated_Set [of "api_store b" key v] assms(4,6,7,9) unfolding api_inv_def by metis
  with assms(6,8) rq show ?thesis
    by (simp add: handleInternalReplicate_def Let_def api_inv_def)
qed

text \<open>
  C37. Silent divergence: if a local PUT loses against a version ahead of the clock, the node keeps
  the old value but answers with, and replicates the new value under, the old value's version.
  A peer that held the same entry accepts it, and the two nodes hold different values for one
  key under one version.
\<close>

theorem dropped_put_diverges:
  assumes "api_inv a" "api_inv b" "wal_ready (api_store a)" "wal_ready (api_store b)" "length key \<le> 65535" "key \<noteq> []"
    and "contents (api_store a) key = Some c" "contents (api_store b) key = Some c"
    and "lastVersion (api_store a) + 1 < Version c" "word_of_int (UnixNano (io_clock io 1)) < Version c"
    and "io_log io = io_ok" "io_log io' = io_ok" "handlePutKey io key (Some req) a = (r, msgs, a')" "(p, rq) \<in> set msgs"
  shows "rs_body r = PutResponse (Version c) \<and>
    values_of (contents (api_store a')) key = Some (Value c, Version c) \<and>
    values_of (contents (api_store (snd (handleInternalReplicate io' (Some rq) b)))) key =
      Some (bytes_of (put_Value req), Version c)"
proof -
  let ?set = "Set io_ok (io_clock io 0) (io_clock io 1) key (bytes_of (put_Value req)) (put_ttl req) 0 (api_store a)"
  have stale: "fst ?set = Inr (Version c)" "contents (snd ?set) = contents (api_store a)"
    using Set_stale [OF assms(7,9,10,3,5)] by blast+
  have "rs_status r = 200 \<and> rs_body r = PutResponse (Version c) \<and> api_store a' = snd ?set"
    using assms(6,11,13) stale(1) by (cases ?set) (auto simp: handlePutKey_def Let_def writeJSON_def case_prod_beta)
  then have r: "rs_status r = 200" "rs_body r = PutResponse (Version c)" "api_store a' = snd ?set" by auto
  have "Version c \<noteq> 0" using assms(10) by auto
  from put_delivered [OF assms(13) r(1,2) this assms(14,2,4,12,5)]
  obtain b' where "handleInternalReplicate io' (Some rq) b = (\<lparr>rs_status = 200, rs_body = NoBody\<rparr>, b')"
    "values_of (contents (api_store b')) = lww_put snd key (bytes_of (put_Value req), Version c) (values_of (contents (api_store b)))"
    by blast
  with r stale(2) assms(7,8) show ?thesis by (simp add: values_of_def [of _ key] lww_put_def)
qed

theorem dropped_put_diverges_witness:
  "\<exists>a'. handlePutKey (demo_io\<lparr>io_clock := (\<lambda>_. 10)\<rparr>) ''k'' (Some demo_put) demo_api =
       (writeJSON 200 (PutResponse 50), [(demo_target, replicate_request ''k'' (bytes_of ''hi'') 50 zero_time ''SET'')], a') \<and>
     values_of (contents (api_store a')) ''k'' = Some ([7], 50) \<and>
     values_of (contents (api_store (snd (handleInternalReplicate demo_io
       (Some (replicate_request ''k'' (bytes_of ''hi'') 50 zero_time ''SET'')) demo_api)))) ''k'' = Some (bytes_of ''hi'', 50)"
proof -
  let ?c = "\<lparr>Value = [7], Version = 50, ExpiresAt = zero_time\<rparr>"
  have clock: "word_of_int (UnixNano 10) < Version ?c" by (simp add: UnixNano_def wrap64_def)
  have "fst (Set io_ok 10 10 ''k'' (bytes_of ''hi'') 0 0 demo_store) = Inr 50"
    using Set_stale [of demo_store "''k''" ?c 10 10] clock by simp
  then obtain a' where a': "handlePutKey (demo_io\<lparr>io_clock := (\<lambda>_. 10)\<rparr>) ''k'' (Some demo_put) demo_api =
       (writeJSON 200 (PutResponse 50), [(demo_target, replicate_request ''k'' (bytes_of ''hi'') 50 zero_time ''SET'')], a')"
    using demo_put_sent [of "''k''" 10 demo_api 50] by auto
  from dropped_put_diverges [OF demo_api(1) demo_api(1), of "''k''" ?c "demo_io\<lparr>io_clock := (\<lambda>_. 10)\<rparr>" demo_io, OF _ _ _ _ _ _ _ _ _ _ a']
    clock a' show ?thesis by simp
qed

text \<open>Listing never panics and is bounded, whatever the \<open>limit\<close> parameter says.\<close>

lemma list_keys_page:
  assumes "api_inv api" "visits (io_shards io) (api_store api)"
    and "int (card (matching (io_clock io 0) prefix (api_store api))) + 1000 < 2 ^ 63"
    and "rest = after_cursor cursor (sorted_list_of_set (matching (io_clock io 0) prefix (api_store api)))"
  shows "0 < list_limit limitStr \<and> list_limit limitStr \<le> 1000 \<and>
    handleListKeys io prefix limitStr cursor api =
      Inr (writeJSON 200 (KeysResponse (take (nat (list_limit limitStr)) rest)
        (if nat (list_limit limitStr) < length rest then last (take (nat (list_limit limitStr)) rest) else [])))"
proof -
  have lim: "0 < list_limit limitStr" "list_limit limitStr \<le> 1000"
    by (auto simp: list_limit_def split: option.split)
  have "Scan (io_clock io 0) (io_shards io) prefix (list_limit limitStr) cursor (api_store api) =
      Inr (page (list_limit limitStr) rest)"
    using Scan_page [of "api_store api" "io_shards io" "list_limit limitStr" "io_clock io 0" prefix cursor] assms lim
    by (simp add: api_inv_def)
  with lim show ?thesis by (auto simp: handleListKeys_def page_def)
qed

end
