(* ===== verification/KV_Url.thy ===== *)
theory KV_Url
  imports KV_Prelude
begin

text \<open>
  What the sources use of \<open>net/url\<close>, \<open>path\<close> and \<open>path/filepath\<close>: percent escapes (\<open>url.PathEscape\<close>,
  \<open>url.QueryEscape\<close> and their inverses), query strings, request targets (paths and absolute URLs,
  with their authority), and lexical joining and cleaning of paths. Locale \<open>delimited_code\<close> is what both escapes promise: decoding inverts encoding,
  and no delimiter occurs in encoded text, so that joined fields can be taken apart again.
\<close>

section \<open>Escapes\<close>

datatype encoding = encodePath | encodePathSegment | encodeQueryComponent

definition alphanumeric :: "char \<Rightarrow> bool" where
  "alphanumeric c \<longleftrightarrow> (let n = of_char c :: nat in
     97 \<le> n \<and> n \<le> 122 \<or> 65 \<le> n \<and> n \<le> 90 \<or> 48 \<le> n \<and> n \<le> 57)"

definition shouldEscape :: "encoding \<Rightarrow> char \<Rightarrow> bool" where
  "shouldEscape mode c =
     (if alphanumeric c then False
      else if c \<in> set ''-_.~'' then False
      else if c \<in> set ''$&+,/:;=?@'' then
        (case mode of
           encodePath \<Rightarrow> c = CHR ''?''
         | encodePathSegment \<Rightarrow> c \<in> set ''/;,?''
         | encodeQueryComponent \<Rightarrow> True)
      else True)"

definition upperhex :: "nat \<Rightarrow> char" where
  "upperhex n = char_of (if n < 10 then 48 + n else 55 + n)"

definition ishex :: "char \<Rightarrow> bool" where
  "ishex c \<longleftrightarrow> (let n = of_char c :: nat in
     48 \<le> n \<and> n \<le> 57 \<or> 97 \<le> n \<and> n \<le> 102 \<or> 65 \<le> n \<and> n \<le> 70)"

definition unhex :: "char \<Rightarrow> nat" where
  "unhex c = (let n = of_char c :: nat in
     if 48 \<le> n \<and> n \<le> 57 then n - 48
     else if 97 \<le> n \<and> n \<le> 102 then n - 97 + 10
     else n - 65 + 10)"

definition escape_char :: "encoding \<Rightarrow> char \<Rightarrow> string" where
  "escape_char mode c =
     (if c = CHR '' '' \<and> mode = encodeQueryComponent then ''+''
      else if shouldEscape mode c then
        [CHR ''%'', upperhex (of_char c div 16), upperhex (of_char c mod 16)]
      else [c])"

definition url_escape :: "encoding \<Rightarrow> string \<Rightarrow> string" where
  "url_escape mode s = concat (map (escape_char mode) s)"

fun url_unescape :: "encoding \<Rightarrow> string \<Rightarrow> string option" where
  "url_unescape mode [] = Some []"
| "url_unescape mode (c # s) =
     (if c = CHR ''%'' then
        (case s of
           h # l # s' \<Rightarrow>
             if ishex h \<and> ishex l
             then map_option (Cons (char_of (16 * unhex h + unhex l))) (url_unescape mode s') else None
         | _ \<Rightarrow> None)
      else map_option (Cons (if c = CHR ''+'' \<and> mode = encodeQueryComponent then CHR '' '' else c))
        (url_unescape mode s))"

abbreviation PathEscape :: "string \<Rightarrow> string" where
  "PathEscape \<equiv> url_escape encodePathSegment"

abbreviation QueryEscape :: "string \<Rightarrow> string" where
  "QueryEscape \<equiv> url_escape encodeQueryComponent"

section \<open>Splitting and joining\<close>

text \<open>\<open>strings.Cut\<close> at one character, \<open>strings.Split\<close> and \<open>strings.Join\<close>.\<close>

definition cut :: "char \<Rightarrow> string \<Rightarrow> string \<times> string" where
  "cut c s = (takeWhile (\<lambda>x. x \<noteq> c) s, tl (dropWhile (\<lambda>x. x \<noteq> c) s))"

fun split_on :: "char \<Rightarrow> string \<Rightarrow> string list" where
  "split_on c [] = [[]]"
| "split_on c (x # s) =
     (if x = c then [] # split_on c s
      else (case split_on c s of [] \<Rightarrow> [[x]] | f # fs \<Rightarrow> (x # f) # fs))"

fun join :: "char \<Rightarrow> string list \<Rightarrow> string" where
  "join c [] = []"
| "join c [f] = f"
| "join c (f # fs) = f @ [c] @ join c fs"

section \<open>Request targets and queries\<close>

record URL =
  u_Path :: string
  u_RawPath :: string
  u_RawQuery :: string

definition setPath :: "string \<Rightarrow> (string \<times> string) option" where
  "setPath p = map_option (\<lambda>path. (path, if p = url_escape encodePath path then [] else p))
     (url_unescape encodePath p)"

definition control :: "char \<Rightarrow> bool" where
  "control c \<longleftrightarrow> (of_char c :: nat) < 32 \<or> (of_char c :: nat) = 127"

definition rooted :: "string \<Rightarrow> bool" where
  "rooted s \<longleftrightarrow> take 1 s = ''/''"

text \<open>\<open>getScheme\<close>: \<open>None\<close> for a colon with nothing before it.\<close>

definition letter :: "char \<Rightarrow> bool" where
  "letter c \<longleftrightarrow> (let n = of_char c :: nat in 97 \<le> n \<and> n \<le> 122 \<or> 65 \<le> n \<and> n \<le> 90)"

definition getScheme :: "string \<Rightarrow> (string \<times> string) option" where
  "getScheme rawURL =
     (let scheme = takeWhile (\<lambda>c. alphanumeric c \<or> c \<in> set ''+-.'') rawURL;
          rest = drop (length scheme) rawURL
      in if take 1 rest \<noteq> '':'' \<or> (scheme \<noteq> [] \<and> \<not> letter (hd scheme)) then Some ([], rawURL)
         else if scheme = [] then None
         else Some (scheme, tl rest))"

text \<open>
  \<open>parseAuthority\<close> and \<open>parseHost\<close>, as far as whether they fail: a host is \<open>[..]\<close> or a name, then
  an optional port. Percent escapes in a host stand for non-ASCII bytes, in the zone of an IPv6
  address (after \<open>%25\<close>) for what a host may hold. The server does not use the host.
\<close>

definition host_char :: "char \<Rightarrow> bool" where
  "host_char c \<longleftrightarrow> alphanumeric c \<or> c \<in> set ''-_.~!$&()*+,;=:[]<>'' \<or> c = char_of (34 :: nat) \<or> c = char_of (39 :: nat)"

fun host_escapes :: "bool \<Rightarrow> string \<Rightarrow> bool" where
  "host_escapes zone [] = True"
| "host_escapes zone (c # s) =
     (if c = CHR ''%'' then
        (case s of
           h # l # s' \<Rightarrow>
             ishex h \<and> ishex l \<and>
             ([h, l] = ''25'' \<or>
              (if zone then (let v = char_of (16 * unhex h + unhex l) in v = CHR '' '' \<or> host_char v) else 8 \<le> unhex h)) \<and>
             host_escapes zone s'
         | _ \<Rightarrow> False)
      else (128 \<le> (of_char c :: nat) \<or> host_char c) \<and> host_escapes zone s)"

fun strings_Index :: "string \<Rightarrow> string \<Rightarrow> nat option" where
  "strings_Index x [] = (if x = [] then Some 0 else None)"
| "strings_Index x (c # s) =
     (if take (length x) (c # s) = x then Some 0 else map_option Suc (strings_Index x s))"

definition LastIndex :: "char \<Rightarrow> string \<Rightarrow> nat option" where
  "LastIndex c s = (if c \<in> set s then Some (length s - Suc (length (takeWhile (\<lambda>x. x \<noteq> c) (rev s)))) else None)"

definition validOptionalPort :: "string \<Rightarrow> bool" where
  "validOptionalPort s \<longleftrightarrow> s = [] \<or> (hd s = CHR '':'' \<and> list_all (\<lambda>c. 48 \<le> (of_char c :: nat) \<and> of_char c \<le> (57 :: nat)) (tl s))"

definition parseHost :: "string \<Rightarrow> bool" where
  "parseHost host =
     (if take 1 host = ''['' then
        (case LastIndex CHR '']'' host of
           None \<Rightarrow> False
         | Some i \<Rightarrow>
             validOptionalPort (drop (Suc i) host) \<and>
             (case strings_Index ''%25'' (take i host) of
                Some zone \<Rightarrow>
                  host_escapes False (take zone host) \<and> host_escapes True (drop zone (take i host)) \<and> host_escapes False (drop i host)
              | None \<Rightarrow> host_escapes False host))
      else
        (case LastIndex CHR '':'' host of None \<Rightarrow> True | Some i \<Rightarrow> validOptionalPort (drop i host)) \<and>
        host_escapes False host)"

definition validUserinfo :: "string \<Rightarrow> bool" where
  "validUserinfo s \<longleftrightarrow>
     list_all (\<lambda>c. alphanumeric c \<or> c \<in> set ''-._:~!$&()*+,;=%@'' \<or> c = char_of (39 :: nat)) s \<and>
     (case cut CHR '':'' s of (name, password) \<Rightarrow>
        url_unescape encodePathSegment name \<noteq> None \<and> url_unescape encodePathSegment password \<noteq> None)"

definition parseAuthority :: "string \<Rightarrow> bool" where
  "parseAuthority authority =
     (case LastIndex CHR ''@'' authority of
        None \<Rightarrow> parseHost authority
      | Some i \<Rightarrow> parseHost (drop (Suc i) authority) \<and> validUserinfo (take i authority))"

text \<open>
  \<open>url.ParseRequestURI\<close>: a rooted path, an absolute URL with an authority, an opaque URL (a scheme
  and no slash, whose path is empty), or the single star.
\<close>

definition url_of :: "string \<Rightarrow> string \<Rightarrow> URL option" where
  "url_of rest query =
     map_option (\<lambda>(path, raw). \<lparr>u_Path = path, u_RawPath = raw, u_RawQuery = query\<rparr>) (setPath rest)"

definition ParseRequestURI :: "string \<Rightarrow> URL option" where
  "ParseRequestURI rawURL =
     (if list_ex control rawURL \<or> rawURL = [] then None
      else if rawURL = ''*'' then Some \<lparr>u_Path = ''*'', u_RawPath = [], u_RawQuery = []\<rparr>
      else (case getScheme rawURL of
        None \<Rightarrow> None
      | Some (scheme, rest0) \<Rightarrow>
          (case cut CHR ''?'' rest0 of (rest, query) \<Rightarrow>
             (if \<not> rooted rest then
                (if scheme \<noteq> [] then Some \<lparr>u_Path = [], u_RawPath = [], u_RawQuery = query\<rparr> else None)
              else if scheme \<noteq> [] \<and> take 2 rest = ''//'' then
                (let authority = takeWhile (\<lambda>c. c \<noteq> CHR ''/'') (drop 2 rest)
                 in if parseAuthority authority then url_of (drop (2 + length authority) rest) query else None)
              else url_of rest query))))"

lemma ParseRequestURI_rooted:
  assumes "rooted target"
  shows "ParseRequestURI target =
    (if list_ex control target then None else (case cut CHR ''?'' target of (rest, query) \<Rightarrow> url_of rest query))"
proof -
  obtain t where t: "target = CHR ''/'' # t" using assms by (cases target) (auto simp: rooted_def)
  have "getScheme target = Some ([], target)" by (simp add: t getScheme_def alphanumeric_def)
  moreover have "rooted (fst (cut CHR ''?'' target))" by (simp add: t cut_def rooted_def)
  ultimately show ?thesis by (auto simp: ParseRequestURI_def t split: prod.split)
qed

definition validEncoded :: "string \<Rightarrow> bool" where
  "validEncoded s = list_all (\<lambda>c. c \<in> set ''!$&()*+,;=:@[]%'' \<or> c = char_of (39 :: nat) \<or> \<not> shouldEscape encodePath c) s"

definition EscapedPath :: "URL \<Rightarrow> string" where
  "EscapedPath u =
     (if u_RawPath u \<noteq> [] \<and> validEncoded (u_RawPath u) \<and> url_unescape encodePath (u_RawPath u) = Some (u_Path u)
      then u_RawPath u
      else if u_Path u = ''*'' then ''*''
      else url_escape encodePath (u_Path u))"

text \<open>Parameters in the order they stand in the query; \<open>Get\<close> takes the first one.\<close>

type_synonym query = "(string \<times> string) list"

definition parse_field :: "string \<Rightarrow> query" where
  "parse_field field =
     (if CHR '';'' \<in> set field \<or> field = [] then []
      else (case cut CHR ''='' field of (k, v) \<Rightarrow>
        (case (url_unescape encodeQueryComponent k, url_unescape encodeQueryComponent v) of
           (Some k', Some v') \<Rightarrow> [(k', v')]
         | _ \<Rightarrow> [])))"

definition ParseQuery :: "string \<Rightarrow> query" where
  "ParseQuery s = concat (map parse_field (split_on CHR ''&'' s))"

definition query_Get :: "string \<Rightarrow> query \<Rightarrow> string" where
  "query_Get k q = (case map_of q k of None \<Rightarrow> [] | Some v \<Rightarrow> v)"

text \<open>\<open>Values.Set\<close> and \<open>Values.Encode\<close>, for one value per key.\<close>

definition query_Set :: "string \<Rightarrow> string \<Rightarrow> query \<Rightarrow> query" where
  "query_Set k v q = (k, v) # filter (\<lambda>(k', _). k' \<noteq> k) q"

definition encode_field :: "string \<times> string \<Rightarrow> string" where
  "encode_field = (\<lambda>(k, v). QueryEscape k @ ''='' @ QueryEscape v)"

definition query_Encode :: "query \<Rightarrow> string" where
  "query_Encode q = join CHR ''&'' (map encode_field (sort_key fst q))"

section \<open>Paths\<close>

text \<open>
  \<open>path.Clean\<close> on a rooted path: empty and \<open>.\<close> elements go away, \<open>..\<close> removes the element
  before it and is dropped at the root.
\<close>

fun clean_step :: "string list \<Rightarrow> string list \<Rightarrow> string list" where
  "clean_step acc [] = rev acc"
| "clean_step acc (e # es) =
     (if e = [] \<or> e = ''.'' then clean_step acc es
      else if e = ''..'' then clean_step (tl acc) es
      else clean_step (e # acc) es)"

definition path_Clean :: "string \<Rightarrow> string" where
  "path_Clean p = CHR ''/'' # join CHR ''/'' (clean_step [] (split_on CHR ''/'' p))"

text \<open>\<open>cleanPath\<close> of \<open>net/http\<close>: a trailing slash is kept.\<close>

definition cleanPath :: "string \<Rightarrow> string" where
  "cleanPath p =
     (if p = [] then ''/''
      else (let p = (if hd p \<noteq> CHR ''/'' then CHR ''/'' # p else p);
                np = path_Clean p
            in if last p = CHR ''/'' \<and> np \<noteq> ''/'' then np @ ''/'' else np))"

text \<open>
  \<open>filepath.Clean\<close> and \<open>filepath.Join\<close> on Unix: a path that is not rooted keeps the \<open>..\<close> it starts
  with, and is \<open>.\<close> when nothing is left.
\<close>

fun clean_relative :: "string list \<Rightarrow> string list \<Rightarrow> string list" where
  "clean_relative acc [] = rev acc"
| "clean_relative acc (e # es) =
     (if e = [] \<or> e = ''.'' then clean_relative acc es
      else if e = ''..'' \<and> acc \<noteq> [] \<and> hd acc \<noteq> ''..'' then clean_relative (tl acc) es
      else clean_relative (e # acc) es)"

definition filepath_Clean :: "string \<Rightarrow> string" where
  "filepath_Clean p =
     (if rooted p then path_Clean p
      else (case clean_relative [] (split_on CHR ''/'' p) of [] \<Rightarrow> ''.'' | es \<Rightarrow> join CHR ''/'' es))"

definition filepath_Join :: "string list \<Rightarrow> string" where
  "filepath_Join elem =
     (case filter (\<lambda>e. e \<noteq> []) elem of [] \<Rightarrow> [] | es \<Rightarrow> filepath_Clean (join CHR ''/'' es))"

section \<open>Encoded fields between delimiters\<close>

lemma split_on_ne [simp]: "split_on c s \<noteq> []"
  by (cases s) (auto split: list.split)

lemma split_on_free: "c \<notin> set s \<Longrightarrow> split_on c s = [s]"
  by (induction s) auto

lemma split_on_append: "c \<notin> set s \<Longrightarrow> split_on c (s @ c # t) = s # split_on c t"
  by (induction s) auto

lemma cut_fst_subset: "set (fst (cut c s)) \<subseteq> set s"
  by (auto simp: cut_def dest: set_takeWhileD)

lemma cut_append: "c \<notin> set s \<Longrightarrow> cut c (s @ c # t) = (s, t)"
  by (induction s) (auto simp: cut_def)

lemma cut_free: "c \<notin> set s \<Longrightarrow> cut c s = (s, [])"
  by (induction s) (auto simp: cut_def)

lemma split_join: "fs \<noteq> [] \<Longrightarrow> (\<And>f. f \<in> set fs \<Longrightarrow> c \<notin> set f) \<Longrightarrow> split_on c (join c fs) = fs"
  by (induction c fs rule: join.induct) (simp_all add: split_on_free split_on_append)

lemma set_join: "set (join c fs) \<subseteq> insert c (\<Union>f \<in> set fs. set f)"
  by (induction c fs rule: join.induct) auto

locale delimited_code =
  fixes enc :: "string \<Rightarrow> string"
    and dec :: "string \<Rightarrow> string option"
    and delims :: "char set"
  assumes dec_enc: "dec (enc s) = Some s"
    and enc_free: "set (enc s) \<inter> delims = {}"
begin

lemma enc_inject: "enc s = enc t \<longleftrightarrow> s = t"
  using dec_enc by (metis option.inject)

lemma fields_back:
  assumes "c \<in> delims" "fs \<noteq> []"
  shows "map dec (split_on c (join c (map enc fs))) = map Some fs"
proof -
  have "split_on c (join c (map enc fs)) = map enc fs"
    using assms enc_free by (intro split_join) auto
  then show ?thesis by (simp add: dec_enc)
qed

lemma cut_field: "c \<in> delims \<Longrightarrow> cut c (enc s @ c # t) = (enc s, t)"
  using enc_free by (intro cut_append) auto

end

section \<open>The escapes are such a code\<close>

lemma not_alphanumeric [simp]:
  "\<not> alphanumeric CHR ''/''" "\<not> alphanumeric CHR ''%''" "\<not> alphanumeric CHR ''?''" "\<not> alphanumeric CHR '' ''"
  by (simp_all add: alphanumeric_def)

lemma alphanumeric_plain: "alphanumeric c \<Longrightarrow> \<not> shouldEscape mode c"
  by (simp add: shouldEscape_def)

lemma alphanumeric_printable: "alphanumeric c \<Longrightarrow> \<not> control c"
  by (auto simp: alphanumeric_def control_def Let_def)

lemma hex_digits: "n < 16 \<Longrightarrow> ishex (upperhex n) \<and> unhex (upperhex n) = n"
  by (auto simp: ishex_def unhex_def upperhex_def Let_def of_char_of)

lemma of_char_halves: "(of_char c :: nat) div 16 < 16" "char_of (16 * (of_char c div 16) + of_char c mod 16 :: nat) = c"
proof -
  have "(of_char c :: nat) < 16 * 16" by simp
  then show "(of_char c :: nat) div 16 < 16" by (simp only: less_mult_imp_div_less)
  have "16 * ((of_char c :: nat) div 16) + of_char c mod 16 = of_char c" by simp
  then show "char_of (16 * (of_char c div 16) + of_char c mod 16 :: nat) = c" by simp
qed

lemma shouldEscape_special:
  "shouldEscape mode CHR ''%''" "shouldEscape encodeQueryComponent CHR ''+''"
  by (simp_all add: shouldEscape_def alphanumeric_def)

lemma unescape_escape_char:
  "url_unescape mode (escape_char mode c @ t) = map_option (Cons c) (url_unescape mode t)"
proof (cases "shouldEscape mode c \<and> \<not> (c = CHR '' '' \<and> mode = encodeQueryComponent)")
  case True
  then show ?thesis using hex_digits of_char_halves [of c] by (auto simp: escape_char_def)
next
  case False
  then show ?thesis using shouldEscape_special by (auto simp: escape_char_def)
qed

lemma unescape_escape: "url_unescape mode (url_escape mode s @ t) = map_option (append s) (url_unescape mode t)"
proof (induction s)
  case Nil
  then show ?case by (simp add: url_escape_def option.map_ident)
next
  case (Cons c s)
  then show ?case
    using unescape_escape_char [of mode c "url_escape mode s @ t"]
    by (simp add: url_escape_def option.map_comp o_def)
qed

lemma upperhex_alnum: "n < 16 \<Longrightarrow> alphanumeric (upperhex n)"
  by (auto simp: alphanumeric_def upperhex_def Let_def of_char_of)

text \<open>Only unreserved characters, the percent sign and (in queries) the plus sign come out.\<close>

lemma set_escape:
  "set (url_escape mode s) \<subseteq> {c. c = CHR ''%'' \<or> alphanumeric c \<or> \<not> shouldEscape mode c \<or>
     (c = CHR ''+'' \<and> mode = encodeQueryComponent)}"
  using upperhex_alnum of_char_halves(1)
  by (auto simp: url_escape_def escape_char_def split: if_splits)

lemma escape_free:
  assumes "shouldEscape mode c" "c \<noteq> CHR ''%''" "c \<noteq> CHR ''+''"
  shows "c \<notin> set (url_escape mode s)"
proof -
  have "\<not> alphanumeric c" using assms(1) by (auto simp: shouldEscape_def)
  then show ?thesis using assms set_escape [of mode s] by auto
qed

interpretation path_code: delimited_code PathEscape "url_unescape encodePathSegment" "{CHR ''/'', CHR ''?''}"
proof
  show "url_unescape encodePathSegment (PathEscape s) = Some s" for s
    using unescape_escape [of encodePathSegment s "[]"] by simp
  show "set (PathEscape s) \<inter> {CHR ''/'', CHR ''?''} = {}" for s
    using escape_free [of encodePathSegment "CHR ''/''" s] escape_free [of encodePathSegment "CHR ''?''" s]
    by (simp add: shouldEscape_def alphanumeric_def)
qed

interpretation query_code: delimited_code QueryEscape "url_unescape encodeQueryComponent"
    "{CHR ''&'', CHR ''='', CHR '';'', CHR ''?''}"
proof
  show "url_unescape encodeQueryComponent (QueryEscape s) = Some s" for s
    using unescape_escape [of encodeQueryComponent s "[]"] by simp
  show "set (QueryEscape s) \<inter> {CHR ''&'', CHR ''='', CHR '';'', CHR ''?''} = {}" for s
    using escape_free [of encodeQueryComponent "CHR ''&''" s] escape_free [of encodeQueryComponent "CHR ''=''" s]
      escape_free [of encodeQueryComponent "CHR '';''" s] escape_free [of encodeQueryComponent "CHR ''?''" s]
    by (simp add: shouldEscape_def alphanumeric_def)
qed

section \<open>Queries come back\<close>

lemma parse_encode_field: "parse_field (encode_field (k, v)) = [(k, v)]"
proof -
  have "CHR '';'' \<notin> set (encode_field (k, v))"
    using query_code.enc_free [of k] query_code.enc_free [of v] by (auto simp: encode_field_def)
  moreover have "cut CHR ''='' (encode_field (k, v)) = (QueryEscape k, QueryEscape v)"
    using query_code.cut_field [of "CHR ''=''" k "QueryEscape v"] by (simp add: encode_field_def)
  ultimately show ?thesis by (simp add: parse_field_def query_code.dec_enc) (simp add: encode_field_def)
qed

lemma encode_field_free: "CHR ''&'' \<notin> set (encode_field f)" "CHR ''?'' \<notin> set (encode_field f)"
  using query_code.enc_free [of "fst f"] query_code.enc_free [of "snd f"]
  by (auto simp: encode_field_def case_prod_beta)

lemma ParseQuery_fields: "ParseQuery (join CHR ''&'' (map encode_field q)) = q"
proof (cases "q = []")
  case True
  then show ?thesis by (simp add: ParseQuery_def parse_field_def)
next
  case False
  have "split_on CHR ''&'' (join CHR ''&'' (map encode_field q)) = map encode_field q"
    using False by (intro split_join) (auto simp: encode_field_free)
  moreover have "concat (map (parse_field \<circ> encode_field) q) = q"
    by (induction q) (auto simp: parse_encode_field)
  ultimately show ?thesis by (simp add: ParseQuery_def)
qed

lemma query_Get_Encode: "distinct (map fst q) \<Longrightarrow> query_Get k (ParseQuery (query_Encode q)) = query_Get k q"
proof -
  assume d: "distinct (map fst q)"
  have "mset (sort_key fst q) = mset q" by simp
  then have "set (sort_key fst q) = set q" "distinct (map fst (sort_key fst q))"
    using d by (metis set_mset_mset, metis mset_map mset_eq_imp_distinct_iff)
  then have "map_of (sort_key fst q) = map_of q" using d by (intro map_of_inject_set [THEN iffD2]) auto
  then show ?thesis by (simp add: query_Encode_def ParseQuery_fields query_Get_def)
qed

lemma query_Encode_free: "CHR ''?'' \<notin> set (query_Encode q)"
  using set_join [of "CHR ''&''" "map encode_field (sort_key fst q)"] encode_field_free(2)
  by (auto simp: query_Encode_def)

section \<open>Escaped paths come back\<close>

lemma unescape_path_mode: "url_unescape encodePathSegment s = url_unescape encodePath s"
proof -
  have "m \<noteq> encodeQueryComponent \<Longrightarrow> url_unescape m s = url_unescape encodePath s" for m
    by (induction m s rule: url_unescape.induct) (simp_all split: list.split, blast)
  from this [of encodePathSegment] show ?thesis by simp
qed

lemma unescape_plain: "CHR ''%'' \<notin> set s \<Longrightarrow> url_unescape encodePath (s @ t) = map_option (append s) (url_unescape encodePath t)"
  by (cases "url_unescape encodePath t"; induction s) auto

lemma validEncoded_append [simp]: "validEncoded (s @ t) \<longleftrightarrow> validEncoded s \<and> validEncoded t"
  by (simp add: validEncoded_def)

lemma unescaped_char: "\<not> shouldEscape mode c \<Longrightarrow> alphanumeric c \<or> c \<in> set ''-_.~$&+,/:;=?@''"
  by (rule ccontr) (simp add: shouldEscape_def)

lemma escape_range:
  assumes "c \<in> set (url_escape mode s)"
  shows "alphanumeric c \<or> c = CHR ''%'' \<or> c \<in> set ''-_.~$&+,/:;=?@''"
proof -
  consider "c = CHR ''%''" | "alphanumeric c" | "\<not> shouldEscape mode c" | "c = CHR ''+''"
    using assms set_escape [of mode s] by blast
  then show ?thesis
  proof cases
    case 3
    from unescaped_char [OF this] show ?thesis by (rule disjE) (erule disjI1, intro disjI2, assumption)
  qed simp_all
qed

lemma validEncoded_PathEscape: "validEncoded (PathEscape s)"
proof -
  have "c \<in> set ''!$&()*+,;=:@[]%'' \<or> \<not> shouldEscape encodePath c" if "c \<in> set (PathEscape s)" for c
  proof -
    have "c \<noteq> CHR ''?''" using that path_code.enc_free [of s] by blast
    with escape_range [OF that] show ?thesis by (auto simp: shouldEscape_def)
  qed
  then show ?thesis by (auto simp only: validEncoded_def list_all_iff)
qed

lemma EscapedPath_setPath:
  assumes "validEncoded p" "setPath p = Some (path, raw)" "path \<noteq> ''*''"
  shows "EscapedPath \<lparr>u_Path = path, u_RawPath = raw, u_RawQuery = q\<rparr> = p"
  using assms by (cases "p = []") (auto simp: setPath_def EscapedPath_def url_escape_def split: if_splits)

lemma printable_escape: "c \<in> set (url_escape mode s) \<Longrightarrow> \<not> control c"
  by (drule escape_range) (auto simp: alphanumeric_def control_def Let_def)

section \<open>Clean paths\<close>

definition proper :: "string \<Rightarrow> bool" where
  "proper e \<longleftrightarrow> e \<noteq> [] \<and> e \<noteq> ''.'' \<and> e \<noteq> ''..''"

lemma clean_step_proper: "list_all proper es \<Longrightarrow> clean_step acc es = rev acc @ es"
  by (induction es arbitrary: acc) (auto simp: proper_def)

lemma clean_step_result: "list_all proper acc \<Longrightarrow> list_all proper (clean_step acc es)"
proof (induction acc es rule: clean_step.induct)
  case (2 acc e es)
  moreover have "list_all proper (tl acc)" using 2(4) by (cases acc) auto
  ultimately show ?case by (simp add: proper_def [of e])
qed simp

lemma clean_step_subset: "set (clean_step acc es) \<subseteq> set acc \<union> set es"
proof (induction acc es rule: clean_step.induct)
  case (2 acc e es)
  moreover have "set (tl acc) \<subseteq> set acc" by (cases acc) auto
  ultimately show ?case by auto
qed simp

lemma split_on_parts: "f \<in> set (split_on c s) \<Longrightarrow> c \<notin> set f"
  by (induction s arbitrary: f) (auto split: if_splits list.splits)

lemma path_Clean_proper:
  assumes "es \<noteq> []" "list_all proper es" "\<And>e. e \<in> set es \<Longrightarrow> CHR ''/'' \<notin> set e"
  shows "path_Clean (CHR ''/'' # join CHR ''/'' es) = CHR ''/'' # join CHR ''/'' es"
proof -
  have "split_on CHR ''/'' (join CHR ''/'' es) = es" using assms(1,3) by (intro split_join) auto
  then show ?thesis using assms(2) by (simp add: path_Clean_def clean_step_proper)
qed

lemma last_join: "es \<noteq> [] \<Longrightarrow> last es \<noteq> [] \<Longrightarrow> join c es \<noteq> [] \<and> last (join c es) = last (last es)"
  by (induction c es rule: join.induct) auto

lemma cleanPath_proper:
  assumes "es \<noteq> []" "list_all proper es" "\<And>e. e \<in> set es \<Longrightarrow> CHR ''/'' \<notin> set e"
  shows "cleanPath (CHR ''/'' # join CHR ''/'' es) = CHR ''/'' # join CHR ''/'' es"
proof -
  have l: "last es \<in> set es" using assms(1) by simp
  then have "last es \<noteq> []" using assms(2) by (auto simp: list_all_iff proper_def)
  with last_join [OF assms(1)] have "join CHR ''/'' es \<noteq> []" "last (join CHR ''/'' es) = last (last es)" by auto
  moreover have "last (last es) \<noteq> CHR ''/''" using assms(3) [OF l] \<open>last es \<noteq> []\<close> by (metis last_in_set)
  ultimately show ?thesis using path_Clean_proper [OF assms] by (simp add: cleanPath_def)
qed

lemma PathEscape_proper: "proper (PathEscape key) \<longleftrightarrow> proper key"
proof -
  have "PathEscape [] = []" "PathEscape ''.'' = ''.''" "PathEscape ''..'' = ''..''"
    by (simp_all add: url_escape_def escape_char_def shouldEscape_def)
  then show ?thesis using path_code.enc_inject by (metis proper_def)
qed

text \<open>A cleaned path is the root followed by elements that are neither empty nor \<open>.\<close> nor \<open>..\<close>.\<close>

lemma path_Clean_elements:
  "\<exists>es. path_Clean p = CHR ''/'' # join CHR ''/'' es \<and> list_all proper es \<and> (\<forall>e \<in> set es. CHR ''/'' \<notin> set e)"
proof -
  let ?es = "clean_step [] (split_on CHR ''/'' p)"
  have "\<forall>e \<in> set ?es. CHR ''/'' \<notin> set e"
    using clean_step_subset [of "[]" "split_on CHR ''/'' p"] split_on_parts by auto
  moreover have "list_all proper ?es" using clean_step_result [of "[]"] by simp
  ultimately show ?thesis unfolding path_Clean_def by blast
qed

end
