(* ===== verification/KV_Json.thy ===== *)
theory KV_Json
  imports KV_Peer
begin

text \<open>
  What \<open>encoding/json\<close> does to the strings the nodes and clients exchange: a Go string is a byte
  sequence, and encoding replaces every byte that is not part of valid UTF-8 by U+FFFD. Numbers,
  booleans, byte slices (base64) and instants come back as they were sent.
\<close>

section \<open>Strings on the wire\<close>

definition cont :: "nat \<Rightarrow> bool" where
  "cont b \<longleftrightarrow> 0x80 \<le> b \<and> b \<le> 0xBF"

text \<open>The width of the valid UTF-8 sequence a string starts with, 0 if there is none.\<close>

fun rune_width :: "nat list \<Rightarrow> nat" where
  "rune_width [] = 0"
| "rune_width (b # bs) =
     (let c1 = (case bs of b1 # _ \<Rightarrow> b1 | _ \<Rightarrow> 0);
          c2 = (case bs of _ # b2 # _ \<Rightarrow> b2 | _ \<Rightarrow> 0);
          c3 = (case bs of _ # _ # b3 # _ \<Rightarrow> b3 | _ \<Rightarrow> 0)
      in if b < 0x80 then 1
         else if 0xC2 \<le> b \<and> b \<le> 0xDF then (if cont c1 then 2 else 0)
         else if 0xE0 \<le> b \<and> b \<le> 0xEF then
           (if cont c1 \<and> (b = 0xE0 \<longrightarrow> 0xA0 \<le> c1) \<and> (b = 0xED \<longrightarrow> c1 \<le> 0x9F) \<and> cont c2 then 3 else 0)
         else if 0xF0 \<le> b \<and> b \<le> 0xF4 then
           (if cont c1 \<and> (b = 0xF0 \<longrightarrow> 0x90 \<le> c1) \<and> (b = 0xF4 \<longrightarrow> c1 \<le> 0x8F) \<and> cont c2 \<and> cont c3 then 4 else 0)
         else 0)"

function json_bytes :: "nat list \<Rightarrow> nat list" where
  "json_bytes [] = []"
| "json_bytes (b # bs) =
     (let n = rune_width (b # bs)
      in if n = 0 then [0xEF, 0xBF, 0xBD] @ json_bytes bs
         else take n (b # bs) @ json_bytes (drop n (b # bs)))"
  by pat_completeness auto
termination by (relation "measure length") auto

text \<open>A string after encoding and decoding.\<close>

definition json_string :: "string \<Rightarrow> string" where
  "json_string s = map char_of (json_bytes (map of_char s))"

text \<open>The strings that survive.\<close>

definition valid_utf8 :: "string \<Rightarrow> bool" where
  "valid_utf8 s \<longleftrightarrow> json_string s = s"

text \<open>An entry of a membership list; \<open>SuspiciousAt\<close> is not part of its JSON form.\<close>

definition json_peer :: "Peer \<Rightarrow> Peer" where
  "json_peer p = p\<lparr>NodeID := json_string (NodeID p), Address := json_string (Address p),
     State := json_string (State p), SuspiciousAt := zero_time\<rparr>"

section \<open>Lemmas on strings\<close>

lemma rune_width_le: "rune_width bs \<le> length bs"
proof (cases bs)
  case (Cons b bs')
  have "cont c \<Longrightarrow> c \<noteq> 0" for c by (auto simp: cont_def)
  with Cons show ?thesis
    by (auto simp: Let_def split: list.splits)
qed simp

lemma rune_width_prefix:
  assumes "rune_width bs = n" "n \<noteq> 0"
  shows "rune_width (take n bs @ ys) = n"
proof -
  obtain b bs' where bs: "bs = b # bs'" using assms by (cases bs) auto
  have nz: "cont c \<Longrightarrow> c \<noteq> 0" for c by (auto simp: cont_def)
  show ?thesis using assms nz unfolding bs
    by (auto simp: Let_def split: list.splits if_splits)
qed

lemma json_bytes_cons:
  "rune_width bs = n \<Longrightarrow> n \<noteq> 0 \<Longrightarrow> json_bytes (take n bs @ ys) = take n bs @ json_bytes ys"
proof -
  assume n: "rune_width bs = n" "n \<noteq> 0"
  then obtain b bs' where bs: "bs = b # bs'" by (cases bs) auto
  have w: "rune_width (take n bs @ ys) = n" using rune_width_prefix [OF n] .
  have len: "length (take n bs) = n" using rune_width_le [of bs] n by simp
  obtain c cs where c: "take n bs @ ys = c # cs" using n(2) by (cases n) (auto simp: bs)
  have "json_bytes (take n bs @ ys) = take n (take n bs @ ys) @ json_bytes (drop n (take n bs @ ys))"
    using w n(2) unfolding c by (simp add: Let_def)
  then show ?thesis using len by simp
qed

lemma json_bytes_bad: "rune_width (b # bs) = 0 \<Longrightarrow> json_bytes (b # bs) = [0xEF, 0xBF, 0xBD] @ json_bytes bs"
  by (simp only: json_bytes.simps(2) Let_def simp_thms if_True)

lemma json_bytes_good:
  "rune_width (b # bs) \<noteq> 0 \<Longrightarrow> json_bytes (b # bs) =
     take (rune_width (b # bs)) (b # bs) @ json_bytes (drop (rune_width (b # bs)) (b # bs))"
  by (simp only: json_bytes.simps(2) Let_def if_False)

lemma json_bytes_fffd: "json_bytes ([0xEF, 0xBF, 0xBD] @ ys) = [0xEF, 0xBF, 0xBD] @ json_bytes ys"
proof -
  have "rune_width [0xEF, 0xBF, 0xBD] = 3" by (simp add: cont_def)
  from json_bytes_cons [OF this, of ys] show ?thesis by simp
qed

lemma json_bytes_idem: "json_bytes (json_bytes bs) = json_bytes bs"
proof (induction bs rule: json_bytes.induct)
  case (2 b bs)
  show ?case
  proof (cases "rune_width (b # bs) = 0")
    case True
    have "json_bytes (json_bytes bs) = json_bytes bs" by (rule 2(1) [OF refl True])
    then show ?thesis by (simp only: json_bytes_bad [OF True] json_bytes_fffd)
  next
    case False
    have "json_bytes (json_bytes (drop (rune_width (b # bs)) (b # bs))) = json_bytes (drop (rune_width (b # bs)) (b # bs))"
      by (rule 2(2) [OF refl False])
    then show ?thesis by (simp only: json_bytes_good [OF False] json_bytes_cons [OF refl False])
  qed
qed simp

lemma json_bytes_range: "list_all (\<lambda>b. b < 256) bs \<Longrightarrow> list_all (\<lambda>b. b < 256) (json_bytes bs)"
proof (induction bs rule: json_bytes.induct)
  case (2 b bs)
  show ?case
  proof (cases "rune_width (b # bs) = 0")
    case True
    with 2 show ?thesis by (simp add: json_bytes_bad [OF True] del: rune_width.simps json_bytes.simps)
  next
    case False
    have "list_all (\<lambda>b. b < 256) (drop n (b # bs))" "list_all (\<lambda>b. b < 256) (take n (b # bs))" for n
      using 2(3) unfolding list_all_iff by (meson in_set_takeD in_set_dropD)+
    with 2(2) [OF refl False] show ?thesis
      unfolding json_bytes_good [OF False] by (simp only: list_all_append)
  qed
qed simp

lemma json_string_idem: "json_string (json_string s) = json_string s"
proof -
  have "list_all (\<lambda>b. b < 256) (map of_char s :: nat list)" by (simp add: list_all_iff)
  then have "list_all (\<lambda>b. b < 256) (json_bytes (map of_char s))" by (rule json_bytes_range)
  then have "map (of_char \<circ> (char_of :: nat \<Rightarrow> char)) (json_bytes (map of_char s)) = json_bytes (map of_char s)"
    by (intro map_idI) (simp add: list_all_iff of_char_of)
  then show ?thesis by (simp add: json_string_def json_bytes_idem)
qed

lemma valid_json_string: "valid_utf8 (json_string s)"
  by (simp add: valid_utf8_def json_string_idem)

lemma valid_ascii: "list_all (\<lambda>c. (of_char c :: nat) < 128) s \<Longrightarrow> valid_utf8 s"
proof -
  assume "list_all (\<lambda>c. (of_char c :: nat) < 128) s"
  then have "json_bytes (map of_char s) = map of_char s" by (induction s) (auto simp: Let_def)
  then show ?thesis by (simp add: valid_utf8_def json_string_def o_def)
qed

lemma json_states [simp]: "json_string StateAlive = StateAlive" "json_string StateSuspect = StateSuspect"
    "json_string StateDead = StateDead"
  using valid_ascii [of StateAlive] valid_ascii [of StateSuspect] valid_ascii [of StateDead]
  by (simp_all add: valid_utf8_def StateAlive_def StateSuspect_def StateDead_def)

end
