(* ===== verification/KV_Router.thy ===== *)
theory KV_Router
  imports KV_Api KV_Url KV_Json
begin

text \<open>
  From a request line to a handler (\<open>NewHandler\<close> and \<open>getDashboardDir\<close> in \<open>internal/api/router.go\<close>):
  the table of routes, the multiplexer of \<open>net/http\<close> (Go 1.22) as far as such routes use it, the
  static files of the dashboard, and the middlewares around it all. The file system is an argument
  (\<open>os_files\<close>: the working directory, what \<open>os.Stat\<close> finds and what opening a name gives). A body is given by what
  \<open>encoding/json\<close> makes of it for the two handlers that decode one. Conditional and range
  requests for static files are not modelled.
\<close>

section \<open>Routes\<close>

text \<open>A path segment of a pattern: literal, one-segment wildcard, or a trailing slash.\<close>

datatype segment = Lit string | Wild | Multi

datatype endpoint =
    GetKeyE
  | PutKeyE
  | DeleteKeyE
  | ListKeysE
  | ClusterPeersE
  | ClusterStatusE
  | HealthzE
  | MetricsE
  | PingE
  | ReplicateE
  | DashboardRedirectE
  | DashboardE

definition routes :: "(string \<times> segment list \<times> endpoint) list" where
  "routes =
     [(''GET'', [Lit ''v1'', Lit ''kv'', Wild], GetKeyE),
      (''PUT'', [Lit ''v1'', Lit ''kv'', Wild], PutKeyE),
      (''DELETE'', [Lit ''v1'', Lit ''kv'', Wild], DeleteKeyE),
      (''GET'', [Lit ''v1'', Lit ''keys''], ListKeysE),
      (''GET'', [Lit ''v1'', Lit ''cluster'', Lit ''peers''], ClusterPeersE),
      (''GET'', [Lit ''v1'', Lit ''cluster'', Lit ''status''], ClusterStatusE),
      (''GET'', [Lit ''healthz''], HealthzE),
      (''GET'', [Lit ''metrics''], MetricsE),
      (''GET'', [Lit ''internal'', Lit ''ping''], PingE),
      (''POST'', [Lit ''internal'', Lit ''replicate''], ReplicateE),
      (''GET'', [Lit ''dashboard''], DashboardRedirectE),
      (''GET'', [Lit ''dashboard'', Multi], DashboardE)]"

text \<open>\<open>os.Getwd\<close> (an absolute path, \<open>None\<close> on failure) and \<open>os.Stat\<close> are arguments.\<close>

definition getDashboardDir :: "string option \<Rightarrow> (string \<Rightarrow> bool) \<Rightarrow> string" where
  "getDashboardDir getwd stat_ok =
     (case getwd of
        Some pwd \<Rightarrow>
          (let path = filepath_Join [pwd, ''web'', ''dashboard''] in if stat_ok path then path else ''./web/dashboard'')
      | None \<Rightarrow> ''./web/dashboard'')"

section \<open>The multiplexer\<close>

definition pathUnescape :: "string \<Rightarrow> string" where
  "pathUnescape s = (case url_unescape encodePathSegment s of None \<Rightarrow> s | Some u \<Rightarrow> u)"

definition firstSegment :: "string \<Rightarrow> string \<times> string" where
  "firstSegment path =
     (if path = ''/'' then (''/'', [])
      else (let rest = tl path
            in (pathUnescape (takeWhile (\<lambda>c. c \<noteq> CHR ''/'') rest), dropWhile (\<lambda>c. c \<noteq> CHR ''/'') rest)))"

text \<open>The segments captured by the wildcards of a pattern that matches.\<close>

fun matchPath :: "segment list \<Rightarrow> string \<Rightarrow> string list option" where
  "matchPath [] path = (if path = [] then Some [] else None)"
| "matchPath (p # ps) path =
     (if path = [] then None
      else (case firstSegment path of (seg, rest) \<Rightarrow>
        (case p of
           Lit l \<Rightarrow> if seg = l then matchPath ps rest else None
         | Wild \<Rightarrow> if seg \<noteq> ''/'' then map_option (Cons seg) (matchPath ps rest) else None
         | Multi \<Rightarrow> Some [])))"

definition match_method :: "string \<Rightarrow> string \<Rightarrow> (segment list \<times> endpoint \<times> string list) option" where
  "match_method method path =
     (case List.map_filter (\<lambda>(m, ps, e). if m = method then map_option (\<lambda>caps. (ps, e, caps)) (matchPath ps path) else None)
        routes of [] \<Rightarrow> None | r # _ \<Rightarrow> Some r)"

text \<open>A \<open>GET\<close> route serves \<open>HEAD\<close> as well.\<close>

definition tree_match :: "string \<Rightarrow> string \<Rightarrow> (segment list \<times> endpoint \<times> string list) option" where
  "tree_match method path =
     (case match_method method path of
        Some r \<Rightarrow> Some r
      | None \<Rightarrow> if method = ''HEAD'' then match_method ''GET'' path else None)"

definition ends_slash :: "string \<Rightarrow> bool" where
  "ends_slash s \<longleftrightarrow> s \<noteq> [] \<and> last s = CHR ''/''"

definition exactMatch :: "(segment list \<times> endpoint \<times> string list) option \<Rightarrow> string \<Rightarrow> bool" where
  "exactMatch n path =
     (case n of
        None \<Rightarrow> False
      | Some (ps, _) \<Rightarrow>
          (if last ps \<noteq> Multi then True
           else if \<not> ends_slash path then False
           else length ps = count_list path CHR ''/''))"

datatype routed =
    ToEndpoint endpoint "string list"
  | Redirected string
  | MethodNotAllowed "string list"
  | NotFound

definition matchingMethods :: "string \<Rightarrow> string list" where
  "matchingMethods path =
     filter (\<lambda>m. tree_match m path \<noteq> None \<or> (\<not> ends_slash path \<and> tree_match m (path @ ''/'') \<noteq> None))
       [''DELETE'', ''GET'', ''HEAD'', ''POST'', ''PUT'']"

definition with_query :: "string \<Rightarrow> string \<Rightarrow> string" where
  "with_query path query = (if query = [] then path else path @ ''?'' @ query)"

text \<open>\<open>findHandler\<close>: routing works on the escaped path, after cleaning it.\<close>

definition findHandler :: "string \<Rightarrow> URL \<Rightarrow> routed" where
  "findHandler method u =
     (let escapedPath = EscapedPath u;
          path = (if method = ''CONNECT'' then escapedPath else cleanPath escapedPath);
          n = tree_match method path
      in if \<not> exactMatch n path \<and> \<not> ends_slash path \<and> path \<noteq> [] \<and> exactMatch (tree_match method (path @ ''/'')) (path @ ''/'')
         then Redirected (with_query (url_escape encodePath (cleanPath (u_Path u) @ ''/'')) (u_RawQuery u))
         else if path \<noteq> escapedPath then Redirected (with_query (url_escape encodePath path) (u_RawQuery u))
         else (case n of
                 Some (_, e, caps) \<Rightarrow> ToEndpoint e caps
               | None \<Rightarrow> (case matchingMethods path of [] \<Rightarrow> NotFound | ms \<Rightarrow> MethodNotAllowed ms)))"

section \<open>Static files\<close>

text \<open>
  What the file server asks of the operating system: the working directory and whether a path
  exists, both when the handler is built, and opening a file by its full name when a request is
  served. A directory comes with its entries (name, and whether it is itself a directory), unless
  they cannot be read.
\<close>

datatype file_node = Regular string | Directory "(string \<times> bool) list option"

datatype open_result = Opened file_node | ErrNotExist | ErrPermission | ErrOther

record os_files =
  os_Getwd :: "string option"
  os_Stat :: "string \<Rightarrow> bool"
  os_Open :: "string \<Rightarrow> open_result"

definition path_Base :: "string \<Rightarrow> string" where
  "path_Base p =
     (let q = rev (dropWhile (\<lambda>c. c = CHR ''/'') (rev p))
      in if p = [] then ''.'' else if q = [] then ''/'' else last (split_on CHR ''/'' q))"

definition has_suffix :: "string \<Rightarrow> string \<Rightarrow> bool" where
  "has_suffix x s \<longleftrightarrow> length x \<le> length s \<and> drop (length s - length x) s = x"

definition moved :: "string \<Rightarrow> response" where
  "moved loc = \<lparr>rs_status = 301, rs_body = MovedTo loc\<rparr>"

definition http_Error :: "nat \<Rightarrow> string \<Rightarrow> response" where
  "http_Error code msg = \<lparr>rs_status = code, rs_body = PlainText msg\<rparr>"

definition toHTTPError :: "open_result \<Rightarrow> response" where
  "toHTTPError err =
     (if err = ErrNotExist then http_Error 404 ''404 page not found''
      else if err = ErrPermission then http_Error 403 ''403 Forbidden''
      else http_Error 500 ''500 Internal Server Error'')"

text \<open>\<open>http.Dir\<close>: the cleaned name, below the directory.\<close>

definition Dir_Open :: "os_files \<Rightarrow> string \<Rightarrow> string \<Rightarrow> open_result" where
  "Dir_Open fs dir name =
     (let path = tl (path_Clean (CHR ''/'' # name));
          path = (if path = [] then ''.'' else path)
      in if CHR 0x00 \<in> set path then ErrOther
         else os_Open fs (filepath_Join [if dir = [] then ''.'' else dir, path]))"

definition dirList :: "(string \<times> bool) list option \<Rightarrow> response" where
  "dirList entries =
     (case entries of
        None \<Rightarrow> http_Error 500 ''Error reading directory''
      | Some es \<Rightarrow> \<lparr>rs_status = 200,
          rs_body = DirectoryListing (map (\<lambda>(name, dir). if dir then name @ ''/'' else name) (sort_key fst es))\<rparr>)"

definition serveContent :: "string \<Rightarrow> response" where
  "serveContent text = \<lparr>rs_status = 200, rs_body = StaticFile text\<rparr>"

definition serveFile :: "os_files \<Rightarrow> string \<Rightarrow> string \<Rightarrow> string \<Rightarrow> string \<Rightarrow> response" where
  "serveFile fs dir query url name =
     (if has_suffix ''/index.html'' url then moved (with_query ''./'' query)
      else (case Dir_Open fs dir name of
        Opened (Regular text) \<Rightarrow>
          (if last url = CHR ''/'' then
             (let base = path_Base url
              in if base = ''/'' \<or> base = ''.'' then http_Error 500 ''http: attempting to traverse a non-directory''
                 else moved (with_query (''../'' @ base) query))
           else serveContent text)
      | Opened (Directory entries) \<Rightarrow>
          (if last url \<noteq> CHR ''/'' then moved (with_query (path_Base url @ ''/'') query)
           else (case Dir_Open fs dir ((if name = ''/'' then [] else name) @ ''/index.html'') of
                   Opened (Regular text) \<Rightarrow> serveContent text
                 | Opened (Directory entries') \<Rightarrow> dirList entries'
                 | _ \<Rightarrow> dirList entries))
      | err \<Rightarrow> toHTTPError err))"

definition strip :: "string \<Rightarrow> string \<Rightarrow> string option" where
  "strip x s = (if take (length x) s = x then Some (drop (length x) s) else None)"

text \<open>
  \<open>StripPrefix\<close> around \<open>FileServer\<close> on the dashboard's directory: what follows the prefix, cleaned, is
  opened below the directory.
\<close>

definition dashboard :: "os_files \<Rightarrow> URL \<Rightarrow> response" where
  "dashboard fs u =
     (let dashboardDir = getDashboardDir (os_Getwd fs) (os_Stat fs)
      in case strip ''/dashboard/'' (u_Path u) of
           Some p \<Rightarrow>
             (if u_RawPath u = [] \<or> strip ''/dashboard/'' (u_RawPath u) \<noteq> None then
                (let upath = (if rooted p then p else CHR ''/'' # p)
                 in serveFile fs dashboardDir (u_RawQuery u) upath (path_Clean upath))
              else http_Error 404 ''404 page not found'')
         | None \<Rightarrow> http_Error 404 ''404 page not found'')"

section \<open>Serving a request\<close>

record http_request =
  hr_method :: string
  hr_target :: string
  hr_put :: "PutRequest option"
  hr_replicate :: "ReplicateRequest option"

text \<open>What the handler of an endpoint reads of the request.\<close>

fun endpoint_request :: "endpoint \<Rightarrow> string list \<Rightarrow> query \<Rightarrow> http_request \<Rightarrow> request option" where
  "endpoint_request GetKeyE caps q hr = Some (ReqGetKey (hd caps))"
| "endpoint_request PutKeyE caps q hr = Some (ReqPutKey (hd caps) (hr_put hr))"
| "endpoint_request DeleteKeyE caps q hr = Some (ReqDeleteKey (hd caps))"
| "endpoint_request ListKeysE caps q hr =
     Some (ReqListKeys (query_Get ''prefix'' q) (query_Get ''limit'' q) (query_Get ''cursor'' q))"
| "endpoint_request ClusterPeersE caps q hr = Some ReqClusterPeers"
| "endpoint_request ClusterStatusE caps q hr = Some ReqClusterStatus"
| "endpoint_request HealthzE caps q hr = Some ReqHealthz"
| "endpoint_request MetricsE caps q hr = Some ReqMetrics"
| "endpoint_request PingE caps q hr = Some (ReqPing (query_Get ''sender_id'' q) (query_Get ''sender_addr'' q))"
| "endpoint_request ReplicateE caps q hr = Some (ReqReplicate (hr_replicate hr))"
| "endpoint_request DashboardRedirectE caps q hr = None"
| "endpoint_request DashboardE caps q hr = None"

definition mux_ServeHTTP :: "os_files \<Rightarrow> api_io \<Rightarrow> http_request \<Rightarrow> URL \<Rightarrow> API \<Rightarrow>
  go_panic + (response \<times> outbox \<times> API)" where
  "mux_ServeHTTP files io hr u api =
     (if hr_target hr = ''*'' then Inr (\<lparr>rs_status = 400, rs_body = NoBody\<rparr>, [], api)
      else (case findHandler (hr_method hr) u of
        NotFound \<Rightarrow> Inr (http_Error 404 ''404 page not found'', [], api)
      | MethodNotAllowed ms \<Rightarrow> Inr (http_Error 405 ''Method Not Allowed'', [], api)
      | Redirected loc \<Rightarrow> Inr (moved loc, [], api)
      | ToEndpoint e caps \<Rightarrow>
          (case endpoint_request e caps (ParseQuery (u_RawQuery u)) hr of
             Some req \<Rightarrow> dispatch io req api
           | None \<Rightarrow> Inr (if e = DashboardRedirectE then moved ''/dashboard/'' else dashboard files u, [], api))))"

text \<open>
  The server's reading of the request line: a target is a URL, and for \<open>CONNECT\<close> may be a bare
  authority.
\<close>

definition readRequest :: "http_request \<Rightarrow> URL option" where
  "readRequest hr =
     ParseRequestURI (if hr_method hr = ''CONNECT'' \<and> \<not> rooted (hr_target hr) then ''http://'' @ hr_target hr else hr_target hr)"

lemma readRequest_rooted [simp]: "rooted (hr_target hr) \<Longrightarrow> readRequest hr = ParseRequestURI (hr_target hr)"
  by (simp add: readRequest_def)

text \<open>
  The server with the handler \<open>NewHandler\<close> returns. Two requests never reach that handler: one
  whose target does not parse, which the server answers with 400, and \<open>OPTIONS *\<close>, which
  \<open>net/http\<close> answers with 200.
\<close>

definition general_options :: "http_request \<Rightarrow> bool" where
  "general_options hr \<longleftrightarrow> hr_method hr = ''OPTIONS'' \<and> hr_target hr = ''*''"

definition serve :: "os_files \<Rightarrow> api_io \<Rightarrow> gotime \<Rightarrow> gotime \<Rightarrow> http_request \<Rightarrow> API \<Rightarrow>
  response \<times> outbox \<times> API" where
  "serve files io started finished hr api =
     (case readRequest hr of
        None \<Rightarrow> (http_Error 400 ''400 Bad Request'', [], api)
      | Some u \<Rightarrow>
          (if general_options hr then (\<lparr>rs_status = 200, rs_body = NoBody\<rparr>, [], api)
           else snd (LoggingAndMetricsMiddleware (hr_method hr) (u_Path u) started finished
             (RecoveryMiddleware api (mux_ServeHTTP files io hr u api)))))"

lemma rooted_not_star [simp]: "rooted (hr_target hr) \<Longrightarrow> hr_target hr \<noteq> ''*''" "rooted (hr_target hr) \<Longrightarrow> \<not> general_options hr"
  by (auto simp: rooted_def general_options_def)

lemma rooted_append [simp]: "rooted (CHR ''/'' # s)" "rooted p \<Longrightarrow> rooted (p @ s)"
  by (cases p; simp add: rooted_def)+

section \<open>At most one route matches\<close>

text \<open>Two patterns that no path can match both.\<close>

fun clash :: "segment list \<Rightarrow> segment list \<Rightarrow> bool" where
  "clash [] [] = False"
| "clash [] (q # qs) = True"
| "clash (p # ps) [] = True"
| "clash (p # ps) (q # qs) =
     (case (p, q) of
        (Multi, _) \<Rightarrow> False
      | (_, Multi) \<Rightarrow> False
      | (Lit a, Lit b) \<Rightarrow> a \<noteq> b \<or> clash ps qs
      | _ \<Rightarrow> clash ps qs)"

lemma clash_sound: "clash ps qs \<Longrightarrow> matchPath ps path \<noteq> None \<Longrightarrow> matchPath qs path = None"
proof (induction ps qs arbitrary: path rule: clash.induct)
  case (4 p ps q qs)
  then show ?case by (auto split: if_splits prod.splits segment.splits)
qed (auto split: if_splits)

lemma routes_clash:
  "sorted_wrt (\<lambda>(m, ps, e) (m', qs, e'). m \<noteq> m' \<or> clash ps qs) routes"
  by (simp add: routes_def)

lemma sorted_wrt_pick:
  "sorted_wrt R xs \<Longrightarrow> x \<in> set xs \<Longrightarrow> y \<in> set xs \<Longrightarrow> x = y \<or> R x y \<or> R y x"
  by (induction xs) auto

lemma route_unique:
  assumes "(m, ps, e) \<in> set routes" "(m, qs, e') \<in> set routes" "matchPath ps path \<noteq> None" "matchPath qs path \<noteq> None"
  shows "(ps, e) = (qs, e')"
  using sorted_wrt_pick [OF routes_clash assms(1,2)] clash_sound assms(3,4) by fastforce

section \<open>Routing of escaped keys\<close>

lemma firstSegment_inner: "CHR ''/'' \<notin> set s \<Longrightarrow> firstSegment (CHR ''/'' # s @ CHR ''/'' # t) = (pathUnescape s, CHR ''/'' # t)"
  by (auto simp: firstSegment_def Let_def takeWhile_append dropWhile_append)

lemma firstSegment_last:
  assumes "CHR ''/'' \<notin> set s" "s \<noteq> []"
  shows "firstSegment (CHR ''/'' # s) = (pathUnescape s, [])"
proof -
  have "takeWhile (\<lambda>c. c \<noteq> CHR ''/'') s = s" "dropWhile (\<lambda>c. c \<noteq> CHR ''/'') s = []"
    using assms(1) by (auto simp: takeWhile_eq_all_conv)
  with assms(2) show ?thesis by (simp add: firstSegment_def del: takeWhile_eq_all_conv dropWhile_eq_Nil_conv)
qed

lemma pathUnescape_plain: "CHR ''%'' \<notin> set s \<Longrightarrow> pathUnescape s = s"
  using unescape_plain [of s "[]"] by (simp add: pathUnescape_def unescape_path_mode)

lemma pathUnescape_PathEscape [simp]: "pathUnescape (PathEscape s) = s"
  by (simp add: pathUnescape_def path_code.dec_enc)

lemma match_method_route:
  assumes "(m, ps, e) \<in> set routes" "matchPath ps path = Some caps"
  shows "match_method m path = Some (ps, e, caps)"
proof -
  let ?f = "\<lambda>(m', ps, e). if m' = m then map_option (\<lambda>caps. (ps, e, caps)) (matchPath ps path) else None"
  have mem: "r \<in> set (List.map_filter ?f rs) \<longleftrightarrow> (\<exists>x \<in> set rs. ?f x = Some r)" for r rs
    by (induction rs) (auto simp: List.map_filter_simps split: option.split)
  have "(ps, e, caps) \<in> set (List.map_filter ?f routes)"
    unfolding mem using assms by (intro bexI [of _ "(m, ps, e)"]) simp_all
  then obtain r rs where r: "List.map_filter ?f routes = r # rs"
    by (cases "List.map_filter ?f routes") simp_all
  have "r \<in> set (List.map_filter ?f routes)" by (simp add: r)
  then obtain qs e' caps' where "(m, qs, e') \<in> set routes" "matchPath qs path = Some caps'" "r = (qs, e', caps')"
    unfolding mem by (auto split: if_splits)
  with route_unique [OF assms(1), of qs e' path] assms(2) r show ?thesis by (auto simp: match_method_def)
qed

text \<open>A clean path that matches a route without a trailing slash reaches its endpoint.\<close>

lemma findHandler_route:
  assumes "EscapedPath u = CHR ''/'' # join CHR ''/'' es" "es \<noteq> []" "list_all proper es"
    and "\<And>s. s \<in> set es \<Longrightarrow> CHR ''/'' \<notin> set s"
    and "(m, ps, e) \<in> set routes" "matchPath ps (EscapedPath u) = Some caps" "last ps \<noteq> Multi"
  shows "findHandler m u = ToEndpoint e caps"
proof -
  have clean: "cleanPath (EscapedPath u) = EscapedPath u" using cleanPath_proper [OF assms(2-4)] by (simp add: assms(1))
  have "tree_match m (EscapedPath u) = Some (ps, e, caps)"
    using match_method_route [OF assms(5,6)] by (simp add: tree_match_def)
  moreover from this assms(7) have "exactMatch (tree_match m (EscapedPath u)) (EscapedPath u)" by (simp add: exactMatch_def)
  moreover have "(if m = ''CONNECT'' then EscapedPath u else cleanPath (EscapedPath u)) = EscapedPath u" by (simp add: clean)
  ultimately show ?thesis by (simp only: findHandler_def Let_def) simp
qed

definition addressable :: "string \<Rightarrow> bool" where
  "addressable key \<longleftrightarrow> proper key \<and> key \<noteq> ''/''"

lemma key_path_matches:
  assumes "addressable key"
  shows "matchPath [Lit ''v1'', Lit ''kv'', Wild] (''/v1/kv/'' @ PathEscape key) = Some [key]"
proof -
  let ?e = "PathEscape key"
  have e: "CHR ''/'' \<notin> set ?e" "?e \<noteq> []"
    using path_code.enc_free [of key] PathEscape_proper [of key] assms by (auto simp: addressable_def proper_def)
  have "firstSegment (''/v1/kv/'' @ ?e) = (''v1'', ''/kv/'' @ ?e)"
    using firstSegment_inner [of "''v1''" "''kv/'' @ ?e"] by (simp add: pathUnescape_plain)
  moreover have "firstSegment (''/kv/'' @ ?e) = (''kv'', CHR ''/'' # ?e)"
    using firstSegment_inner [of "''kv''" ?e] by (simp add: pathUnescape_plain)
  moreover have "firstSegment (CHR ''/'' # ?e) = (key, [])" using firstSegment_last [OF e] by simp
  ultimately show ?thesis using assms by (simp add: addressable_def)
qed

lemma findHandler_key:
  assumes "addressable key" "(m, [Lit ''v1'', Lit ''kv'', Wild], e) \<in> set routes"
    and "EscapedPath u = ''/v1/kv/'' @ PathEscape key"
  shows "findHandler m u = ToEndpoint e [key]"
proof (rule findHandler_route [where es = "[''v1'', ''kv'', PathEscape key]"])
  show "list_all proper [''v1'', ''kv'', PathEscape key]"
    using assms(1) by (simp add: addressable_def PathEscape_proper) (simp add: proper_def)
  show "matchPath [Lit ''v1'', Lit ''kv'', Wild] (EscapedPath u) = Some [key]"
    using key_path_matches [OF assms(1)] by (simp only: assms(3))
  show "CHR ''/'' \<notin> set s" if "s \<in> set [''v1'', ''kv'', PathEscape key]" for s
    using that path_code.enc_free [of key] by auto
qed (use assms in simp_all)

text \<open>The target of a key request, parsed.\<close>

lemma parse_key_target:
  "\<exists>u. ParseRequestURI (''/v1/kv/'' @ PathEscape key) = Some u \<and> EscapedPath u = ''/v1/kv/'' @ PathEscape key \<and>
     u_Path u = ''/v1/kv/'' @ key \<and> u_RawQuery u = []"
proof -
  let ?t = "''/v1/kv/'' @ PathEscape key"
  have un: "url_unescape encodePath ?t = Some (''/v1/kv/'' @ key)"
    using unescape_plain [of "''/v1/kv/''" "PathEscape key"] path_code.dec_enc [of key]
    by (simp add: unescape_path_mode del: append_Cons append_Nil)
  then obtain raw where raw: "setPath ?t = Some (''/v1/kv/'' @ key, raw)" by (simp add: setPath_def)
  have valid: "validEncoded ?t"
    using validEncoded_PathEscape [of key] by (simp add: validEncoded_def shouldEscape_def alphanumeric_def)
  have "CHR ''?'' \<notin> set ?t" using path_code.enc_free [of key] by auto
  moreover have "\<not> list_ex control ?t"
    using printable_escape [of _ encodePathSegment key] by (auto simp: list_ex_iff control_def)
  ultimately have "ParseRequestURI ?t = Some \<lparr>u_Path = ''/v1/kv/'' @ key, u_RawPath = raw, u_RawQuery = []\<rparr>"
    using raw by (simp add: ParseRequestURI_rooted url_of_def cut_free)
  with EscapedPath_setPath [OF valid raw, of "[]"] show ?thesis by auto
qed

section \<open>Targets with a query\<close>

text \<open>A literal path that needs no escapes, followed by a query.\<close>

definition plain_path :: "string \<Rightarrow> bool" where
  "plain_path p \<longleftrightarrow> p \<noteq> [] \<and> hd p = CHR ''/'' \<and> list_all (\<lambda>c. alphanumeric c \<or> c = CHR ''/'') p"

lemma plain_path_char:
  assumes "plain_path p" "c \<in> set p"
  shows "\<not> shouldEscape encodePath c" "c \<noteq> CHR ''%''" "c \<noteq> CHR ''?''" "c \<noteq> CHR '' ''" "\<not> control c"
proof -
  have "alphanumeric c \<or> c = CHR ''/''" using assms by (simp add: plain_path_def list_all_iff)
  then show "\<not> shouldEscape encodePath c" "c \<noteq> CHR ''%''" "c \<noteq> CHR ''?''" "c \<noteq> CHR '' ''" "\<not> control c"
    using alphanumeric_plain alphanumeric_printable [of c] not_alphanumeric
    by (auto simp: shouldEscape_def control_def [of "CHR ''/''"])
qed

lemma plain_path_rooted: "plain_path p \<Longrightarrow> rooted p"
  by (cases p) (simp_all add: plain_path_def)

lemma escape_plain_path: "plain_path p \<Longrightarrow> url_escape encodePath p = p"
proof -
  assume "plain_path p"
  then have "escape_char encodePath c = [c]" if "c \<in> set p" for c
    using plain_path_char [OF _ that] by (simp add: escape_char_def)
  then have "map (escape_char encodePath) p = map (\<lambda>c. [c]) p" by simp
  then show ?thesis unfolding url_escape_def by (simp only: concat_map_singleton list.map_ident)
qed

lemma EscapedPath_plain: "plain_path p \<Longrightarrow> EscapedPath \<lparr>u_Path = p, u_RawPath = [], u_RawQuery = q\<rparr> = p"
  using escape_plain_path by (auto simp: EscapedPath_def plain_path_def)

lemma parse_plain_target:
  assumes "plain_path p" "\<And>c. c \<in> set q \<Longrightarrow> \<not> control c"
  shows "ParseRequestURI (with_query p q) = Some \<lparr>u_Path = p, u_RawPath = [], u_RawQuery = q\<rparr>"
proof -
  note char = plain_path_char [OF assms(1)]
  have "CHR ''%'' \<notin> set p" using char(2) by blast
  then have "url_unescape encodePath p = Some p" using unescape_plain [of p "[]"] by simp
  then have set: "setPath p = Some (p, [])" by (simp add: setPath_def escape_plain_path assms(1))
  have "\<not> list_ex control (with_query p q)"
    using char(5) assms(2) by (auto simp: list_ex_iff with_query_def control_def)
  moreover have "CHR ''?'' \<notin> set p" using char(3) by blast
  then have "cut CHR ''?'' (with_query p q) = (p, q)"
    using cut_append [of "CHR ''?''" p q] cut_free [of "CHR ''?''" p] by (simp add: with_query_def)
  moreover have "rooted (with_query p q)" using plain_path_rooted [OF assms(1)] by (simp add: with_query_def)
  ultimately show ?thesis using set by (simp add: ParseRequestURI_rooted url_of_def)
qed

lemma findHandler_literal:
  assumes "p = CHR ''/'' # join CHR ''/'' ls" "ls \<noteq> []" "list_all proper ls" "list_all (list_all alphanumeric) ls"
    and "(m, map Lit ls, e) \<in> set routes" "matchPath (map Lit ls) p = Some caps"
  shows "findHandler m \<lparr>u_Path = p, u_RawPath = [], u_RawQuery = q\<rparr> = ToEndpoint e caps"
proof -
  have slash: "CHR ''/'' \<notin> set s" if "s \<in> set ls" for s
    using that assms(4) not_alphanumeric(1) unfolding list_all_iff by blast
  have "plain_path p"
    using set_join [of "CHR ''/''" ls] assms(1,4) by (auto simp: plain_path_def list_all_iff)
  then have "EscapedPath \<lparr>u_Path = p, u_RawPath = [], u_RawQuery = q\<rparr> = p" by (rule EscapedPath_plain)
  moreover have "last (map Lit ls) \<noteq> Multi" using assms(2) by (simp add: last_map)
  ultimately show ?thesis
    using assms(1-3,5,6) slash by (intro findHandler_route [where es = ls and ps = "map Lit ls"]) simp_all
qed

lemma printable_Encode:
  assumes "c \<in> set (join CHR ''&'' (map encode_field q))"
  shows "\<not> control c"
proof -
  have "c = CHR ''&'' \<or> c = CHR ''='' \<or> (\<exists>s. c \<in> set (QueryEscape s))"
    using assms set_join [of "CHR ''&''" "map encode_field q"] by (fastforce simp: encode_field_def)
  then show ?thesis using printable_escape [of c encodeQueryComponent] by (auto simp: control_def)
qed

text \<open>The target of a ping (\<open>pingPeer\<close> in \<open>gossip.go\<close>).\<close>

definition ping_target :: "GossipManager \<Rightarrow> string" where
  "ping_target gm = ''/internal/ping?sender_id='' @ QueryEscape (gm_nodeID gm) @
     ''&sender_addr='' @ QueryEscape (gm_address gm)"

lemma ping_target_query:
  "ping_target gm = with_query ''/internal/ping''
     (join CHR ''&'' (map encode_field [(''sender_id'', gm_nodeID gm), (''sender_addr'', gm_address gm)]))"
  by (simp add: ping_target_def with_query_def encode_field_def url_escape_def escape_char_def shouldEscape_def
      alphanumeric_def)

lemma ping_routed:
  assumes "hr_method hr = ''GET''" "hr_target hr = ping_target gm"
  shows "\<exists>u. readRequest hr = Some u \<and> \<not> general_options hr \<and> u_Path u = ''/internal/ping'' \<and>
    mux_ServeHTTP files io hr u api = dispatch io (ReqPing (gm_nodeID gm) (gm_address gm)) api"
proof -
  let ?f = "[(''sender_id'', gm_nodeID gm), (''sender_addr'', gm_address gm)]"
  let ?q = "join CHR ''&'' (map encode_field ?f)"
  let ?u = "\<lparr>u_Path = ''/internal/ping'', u_RawPath = [], u_RawQuery = ?q\<rparr>"
  have root: "rooted (hr_target hr)" by (simp add: assms(2) ping_target_def)
  have "plain_path ''/internal/ping''" by (simp add: plain_path_def alphanumeric_def)
  then have parsed: "ParseRequestURI (hr_target hr) = Some ?u"
    unfolding assms(2) ping_target_query by (rule parse_plain_target) (rule printable_Encode)
  have "matchPath (map Lit [''internal'', ''ping'']) ''/internal/ping'' = Some []"
    by (simp add: firstSegment_def pathUnescape_plain)
  then have "findHandler ''GET'' ?u = ToEndpoint PingE []"
    by (intro findHandler_literal [where ls = "[''internal'', ''ping'']"])
      (simp_all add: proper_def alphanumeric_def routes_def)
  moreover have "ParseQuery ?q = ?f" by (rule ParseQuery_fields)
  ultimately have "mux_ServeHTTP files io hr ?u api = dispatch io (ReqPing (gm_nodeID gm) (gm_address gm)) api"
    using assms(1) root by (simp add: mux_ServeHTTP_def query_Get_def)
  with parsed root show ?thesis by auto
qed

text \<open>The exchange of a ping, and what the sender makes of the answer.\<close>

definition ping_request :: "GossipManager \<Rightarrow> http_request" where
  "ping_request gm = \<lparr>hr_method = ''GET'', hr_target = ping_target gm, hr_put = None, hr_replicate = None\<rparr>"

definition ping_answer :: "response \<Rightarrow> ping_result" where
  "ping_answer r =
     (if rs_status r \<noteq> 200 then PingStatus (rs_status r)
      else (case rs_body r of PeersResponse ps \<Rightarrow> PeerList (map json_peer ps) | _ \<Rightarrow> BodyNotJson))"

definition own_entry :: "gotime \<Rightarrow> API \<Rightarrow> Peer" where
  "own_entry now b = (new_peer (cfg_NodeID (api_cfg b)) (cfg_AdvertiseAddr (api_cfg b)))\<lparr>State := StateAlive, LastSeen := now\<rparr>"

lemma ping_served:
  assumes "serve files io t t' (ping_request gm) b = (r, msgs, b')" "gm_nodeID gm \<noteq> []" "gm_address gm \<noteq> []"
  shows "api_pm b' = AddOrUpdate (io_clock io 0, io_clock io 1) (gm_nodeID gm) (gm_address gm) StateAlive (api_pm b) \<and>
    ping_answer r = PeerList (map json_peer (GetAll (io_peers io) (api_pm b') @ [own_entry (io_clock io 2) b]))"
proof -
  obtain u where u: "readRequest (ping_request gm) = Some u" "\<not> general_options (ping_request gm)"
    "mux_ServeHTTP files io (ping_request gm) u b = dispatch io (ReqPing (gm_nodeID gm) (gm_address gm)) b"
    using ping_routed [of "ping_request gm" gm files io b] by (auto simp: ping_request_def)
  with assms show ?thesis
    by (auto simp: serve_def RecoveryMiddleware_def LoggingAndMetricsMiddleware_def Let_def handleInternalPing_def
        writeJSON_def ping_answer_def own_entry_def)
qed

lemma GetAll_ids_subset: "keyed pm \<Longrightarrow> p \<in> set (GetAll order pm) \<Longrightarrow> NodeID p \<in> dom pm \<and> pm (NodeID p) = Some p"
  by (induction order) (auto simp: GetAll_def List.map_filter_simps keyed_def split: option.splits)





text \<open>What is left of a handler's result after the middlewares: only the metrics differ.\<close>

definition answered :: "API \<Rightarrow> go_panic + (response \<times> outbox \<times> API) \<Rightarrow> response \<times> outbox \<times> API \<Rightarrow> bool" where
  "answered api d out \<longleftrightarrow> (\<exists>mc. out = (case RecoveryMiddleware api d of (r, msgs, api') \<Rightarrow> (r, msgs, api'\<lparr>api_metrics := mc\<rparr>)))"

lemma answered_out:
  assumes "answered api d (r, msgs, api')"
  obtains mc api0 where "RecoveryMiddleware api d = (r, msgs, api0)" "api' = api0\<lparr>api_metrics := mc\<rparr>"
proof -
  obtain mc where mc: "(r, msgs, api') = (case RecoveryMiddleware api d of (r, msgs, api') \<Rightarrow> (r, msgs, api'\<lparr>api_metrics := mc\<rparr>))"
    using assms unfolding answered_def by blast
  obtain r0 msgs0 api0 where "RecoveryMiddleware api d = (r0, msgs0, api0)" by (rule prod_cases3)
  with mc show thesis by (intro that [of api0 mc]) simp_all
qed

lemma serve_answered:
  assumes "readRequest hr = Some u" "\<not> general_options hr" "mux_ServeHTTP files io hr u api = d"
  shows "answered api d (serve files io t t' hr api)"
  using assms by (auto simp: answered_def serve_def LoggingAndMetricsMiddleware_def Let_def case_prod_beta)

lemma serve_rooted:
  assumes "rooted (hr_target hr)" "ParseRequestURI (hr_target hr) = Some u" "mux_ServeHTTP files io hr u api = d"
  shows "answered api d (serve files io t t' hr api)"
  using assms by (intro serve_answered) simp_all

text \<open>The decoded request a handler is run on, if there is one.\<close>

definition request_of :: "http_request \<Rightarrow> request option" where
  "request_of hr =
     (if hr_target hr = ''*'' then None
      else (case readRequest hr of
        None \<Rightarrow> None
      | Some u \<Rightarrow>
          (case findHandler (hr_method hr) u of
             ToEndpoint e caps \<Rightarrow> endpoint_request e caps (ParseQuery (u_RawQuery u)) hr
           | _ \<Rightarrow> None)))"

lemma serve_request:
  assumes "request_of hr = Some req"
  shows "answered api (dispatch io req api) (serve files io t t' hr api)"
proof -
  have star: "hr_target hr \<noteq> ''*''" using assms by (auto simp: request_of_def)
  then obtain u e caps where u: "readRequest hr = Some u" "findHandler (hr_method hr) u = ToEndpoint e caps"
    "endpoint_request e caps (ParseQuery (u_RawQuery u)) hr = Some req"
    using assms by (auto simp: request_of_def split: option.splits routed.splits)
  then have "mux_ServeHTTP files io hr u api = dispatch io req api" using star by (simp add: mux_ServeHTTP_def)
  with u(1) star show ?thesis by (intro serve_answered) (simp_all add: general_options_def)
qed

lemma serve_no_request:
  assumes "request_of hr = None" "serve files io t t' hr api = (r, msgs, api')"
  shows "msgs = [] \<and> (\<exists>mc. api' = api\<lparr>api_metrics := mc\<rparr>)"
proof (cases "readRequest hr = None \<or> general_options hr")
  case True
  then have "api' = api\<lparr>api_metrics := api_metrics api\<rparr>" "msgs = []"
    using assms(2) by (auto simp: serve_def split: option.splits)
  then show ?thesis by blast
next
  case False
  then obtain u where u: "readRequest hr = Some u" "\<not> general_options hr" by auto
  have "\<exists>r. mux_ServeHTTP files io hr u api = Inr (r, [], api)"
    using assms(1) u(1) by (auto simp: request_of_def mux_ServeHTTP_def split: routed.splits if_splits)
  then obtain r0 where "mux_ServeHTTP files io hr u api = Inr (r0, [], api)" ..
  from serve_answered [OF u this, of t t'] assms(2) show ?thesis by (auto simp: answered_def RecoveryMiddleware_def)
qed

lemma key_routed:
  assumes "addressable key" "(m, [Lit ''v1'', Lit ''kv'', Wild], e) \<in> set routes"
    and "hr = \<lparr>hr_method = m, hr_target = ''/v1/kv/'' @ PathEscape key, hr_put = put, hr_replicate = None\<rparr>"
    and "endpoint_request e [key] [] hr = Some req"
  shows "request_of hr = Some req"
proof -
  obtain u where u: "ParseRequestURI (hr_target hr) = Some u" "EscapedPath u = ''/v1/kv/'' @ PathEscape key" "u_RawQuery u = []"
    using parse_key_target [of key] assms(3) by auto
  have "ParseQuery [] = []" by (simp add: ParseQuery_def parse_field_def)
  moreover have "rooted (hr_target hr)" by (simp add: assms(3))
  ultimately show ?thesis using findHandler_key [OF assms(1,2) u(2)] u assms(3,4) by (simp add: request_of_def)
qed

text \<open>
  The request that carries a replicated write (\<open>replicateToPeer\<close> in \<open>replication.go\<close>), with the
  body the receiver decodes. The sender's id goes into the URL unescaped: a control character
  makes it no URL, a space a request line that servers refuse, and a \<open>#\<close> starts a fragment, which
  is not sent.
\<close>

definition json_request :: "ReplicateRequest \<Rightarrow> ReplicateRequest" where
  "json_request rq = rq\<lparr>rq_Key := json_string (rq_Key rq), rq_Action := json_string (rq_Action rq)\<rparr>"

definition replicate_http :: "string \<Rightarrow> ReplicateRequest \<Rightarrow> http_request option" where
  "replicate_http node rq =
     (if list_ex (\<lambda>c. control c \<or> c = CHR '' '') node then None
      else Some \<lparr>hr_method = ''POST'', hr_target = ''/internal/replicate?sender_id='' @ fst (cut CHR ''#'' node),
        hr_put = None, hr_replicate = Some (json_request rq)\<rparr>)"

lemma replicate_routed:
  assumes "replicate_http node rq = Some hr"
  shows "request_of hr = Some (ReqReplicate (Some (json_request rq)))"
proof -
  let ?p = "''/internal/replicate''" and ?q = "''sender_id='' @ fst (cut CHR ''#'' node)"
  let ?u = "\<lparr>u_Path = ?p, u_RawPath = [], u_RawQuery = ?q\<rparr>"
  have hr: "hr = \<lparr>hr_method = ''POST'', hr_target = with_query ?p ?q, hr_put = None, hr_replicate = Some (json_request rq)\<rparr>"
    and ok: "\<not> list_ex (\<lambda>c. control c \<or> c = CHR '' '') node"
    using assms by (auto simp: replicate_http_def with_query_def split: if_splits)
  have field: "\<not> control c" if "c \<in> set ''sender_id=''" for c using that by (auto simp: control_def)
  have "\<not> control c" if "c \<in> set ?q" for c
    using that field ok cut_fst_subset [of "CHR ''#''" node] unfolding list_ex_iff set_append by blast
  moreover have "plain_path ?p" by (simp add: plain_path_def alphanumeric_def)
  ultimately have "ParseRequestURI (with_query ?p ?q) = Some ?u" by (intro parse_plain_target)
  moreover have "findHandler ''POST'' ?u = ToEndpoint ReplicateE []"
    by (rule findHandler_literal [where ls = "[''internal'', ''replicate'']"])
      (simp_all add: proper_def alphanumeric_def routes_def firstSegment_def pathUnescape_plain)
  moreover have "rooted (hr_target hr)" "hr_target hr = with_query ?p ?q" by (simp_all add: hr with_query_def)
  ultimately show ?thesis using rooted_not_star(1) [of hr] by (simp add: request_of_def hr)
qed

lemma replicate_plain: "list_all alphanumeric node \<Longrightarrow> \<exists>hr. replicate_http node rq = Some hr"
  using alphanumeric_printable not_alphanumeric by (fastforce simp: replicate_http_def list_all_iff list_ex_iff)

section \<open>Properties\<close>


definition demo_request :: "string \<Rightarrow> string \<Rightarrow> http_request" where
  "demo_request method target = \<lparr>hr_method = method, hr_target = target, hr_put = None, hr_replicate = None\<rparr>"

definition no_static :: os_files where
  "no_static = \<lparr>os_Getwd = None, os_Stat = (\<lambda>_. False), os_Open = (\<lambda>_. ErrNotExist)\<rparr>"



text \<open>
  C28. The routes are unambiguous: no path matches two routes of one method, so the multiplexer's
  choice is the only one possible, in whatever order the routes are registered or compared.
\<close>

theorem routes_unambiguous:
  assumes "(m, ps, e) \<in> set routes" "(m, qs, e') \<in> set routes"
    and "matchPath ps path = Some caps" "matchPath qs path = Some caps'"
  shows "ps = qs \<and> e = e' \<and> caps = caps' \<and> match_method m path = Some (ps, e, caps)"
  using route_unique [OF assms(1,2), of path] match_method_route [OF assms(1,3)] assms(3,4) by auto

theorem routes_unambiguous_witness:
  "match_method ''GET'' ''/dashboard/x/y'' = Some ([Lit ''dashboard'', Multi], DashboardE, [])"
proof -
  have route: "(''GET'', [Lit ''dashboard'', Multi], DashboardE) \<in> set routes" by (simp add: routes_def)
  have "matchPath [Lit ''dashboard'', Multi] ''/dashboard/x/y'' = Some []"
    by (simp add: firstSegment_def pathUnescape_plain)
  from routes_unambiguous [OF route route this this] show ?thesis by simp
qed

text \<open>
  The directory of the dashboard, and the names of the files at or below it: no element of them
  leads out of it again.
\<close>

definition contained :: "string list \<Rightarrow> bool" where
  "contained es \<longleftrightarrow> list_all (\<lambda>e. proper e \<and> CHR ''/'' \<notin> set e) es"

definition below :: "string \<Rightarrow> string \<Rightarrow> bool" where
  "below root name \<longleftrightarrow> name = root \<or>
     (take (Suc (length root)) name = root @ ''/'' \<and> contained (split_on CHR ''/'' (drop (Suc (length root)) name)))"

definition dashboard_root :: "os_files \<Rightarrow> string" where
  "dashboard_root fs =
     (case os_Getwd fs of
        Some pwd \<Rightarrow> (let dir = path_Clean (pwd @ ''/web/dashboard'') in if os_Stat fs dir then dir else ''web/dashboard'')
      | None \<Rightarrow> ''web/dashboard'')"

lemma contained_iff: "contained es \<longleftrightarrow> list_all proper es \<and> (\<forall>e \<in> set es. CHR ''/'' \<notin> set e)"
  by (auto simp: contained_def list_all_iff)

lemma below_join: "contained es \<Longrightarrow> es \<noteq> [] \<Longrightarrow> below root (root @ CHR ''/'' # join CHR ''/'' es)"
  using split_join [of es "CHR ''/''"] by (simp add: below_def contained_iff)

lemma join_append: "xs \<noteq> [] \<Longrightarrow> ys \<noteq> [] \<Longrightarrow> join c (xs @ ys) = join c xs @ c # join c ys"
  by (induction c xs rule: join.induct) (auto simp: neq_Nil_conv)

lemma split_on_both: "split_on c (s @ c # t) = split_on c s @ split_on c t"
  by (induction s) (auto simp: neq_Nil_conv split: list.split)

lemma clean_step_append: "list_all proper ys \<Longrightarrow> clean_step acc (xs @ ys) = clean_step acc xs @ ys"
  by (induction acc xs rule: clean_step.induct) (auto simp: clean_step_proper)

lemma clean_relative_proper: "list_all proper es \<Longrightarrow> clean_relative acc es = rev acc @ es"
  by (induction es arbitrary: acc) (auto simp: proper_def)

lemma clean_step_skip: "list_all proper es \<Longrightarrow> clean_step acc (es @ [''.'']) = rev acc @ es"
  by (induction es arbitrary: acc) (auto simp: proper_def)

text \<open>A name without elements is \<open>.\<close>, which cleaning drops.\<close>

lemma join_rooted:
  assumes "contained D" "D \<noteq> []" "contained es" "dir = CHR ''/'' # join CHR ''/'' D"
  shows "filepath_Join [dir, if es = [] then ''.'' else join CHR ''/'' es] =
    (if es = [] then dir else dir @ CHR ''/'' # join CHR ''/'' es)"
proof -
  let ?xs = "D @ (if es = [] then [''.''] else es)"
  have split: "split_on CHR ''/'' (join CHR ''/'' ?xs) = ?xs"
    using assms(1-3) by (intro split_join) (auto simp: contained_iff split: if_splits)
  have "filepath_Join [dir, if es = [] then ''.'' else join CHR ''/'' es] = path_Clean (CHR ''/'' # join CHR ''/'' ?xs)"
    using assms(2,3) last_join [of es "CHR ''/''"] join_append [of D _ "CHR ''/''"]
    by (auto simp: filepath_Join_def filepath_Clean_def assms(4) contained_iff list_all_iff proper_def)
  also have "\<dots> = CHR ''/'' # join CHR ''/'' (clean_step [] ?xs)"
    using split by (simp add: path_Clean_def)
  also have "clean_step [] ?xs = D @ es"
    using clean_step_skip [of D "[]"] assms(1,3) by (auto simp: contained_iff clean_step_proper)
  finally show ?thesis using assms(2) join_append [of D es "CHR ''/''"] by (auto simp: assms(4))
qed

lemma join_relative:
  assumes "contained es"
  shows "filepath_Join [''./web/dashboard'', if es = [] then ''.'' else join CHR ''/'' es] =
    (if es = [] then ''web/dashboard'' else ''web/dashboard'' @ CHR ''/'' # join CHR ''/'' es)"
proof -
  let ?xs = "[''.'', ''web'', ''dashboard''] @ (if es = [] then [''.''] else es)"
  have split: "split_on CHR ''/'' (join CHR ''/'' ?xs) = ?xs"
    using assms by (intro split_join) (auto simp: contained_iff split: if_splits)
  have "filepath_Join [''./web/dashboard'', if es = [] then ''.'' else join CHR ''/'' es] =
      (case clean_relative [] ?xs of [] \<Rightarrow> ''.'' | es \<Rightarrow> join CHR ''/'' es)"
    using assms last_join [of es "CHR ''/''"] split
    by (cases es) (auto simp: filepath_Join_def filepath_Clean_def rooted_def contained_iff proper_def)
  also have "clean_relative [] ?xs = [''web'', ''dashboard''] @ es"
    using clean_relative_proper [of es "[''dashboard'', ''web'']"] assms by (auto simp: contained_iff)
  finally show ?thesis by (cases es) auto
qed

lemma join_pwd: "rooted pwd \<Longrightarrow> filepath_Join [pwd, ''web'', ''dashboard''] = path_Clean (pwd @ ''/web/dashboard'')"
  by (cases pwd) (auto simp: filepath_Join_def filepath_Clean_def rooted_def)

lemma dashboard_dir:
  assumes "\<And>pwd. os_Getwd fs = Some pwd \<Longrightarrow> rooted pwd"
  shows "getDashboardDir (os_Getwd fs) (os_Stat fs) =
    (if dashboard_root fs = ''web/dashboard'' then ''./web/dashboard'' else dashboard_root fs)"
proof (cases "os_Getwd fs")
  case (Some pwd)
  then show ?thesis
    using join_pwd [OF assms] by (simp add: getDashboardDir_def dashboard_root_def Let_def) (simp add: path_Clean_def)
qed (simp add: getDashboardDir_def dashboard_root_def)

lemma dashboard_opens:
  assumes "\<And>pwd. os_Getwd fs = Some pwd \<Longrightarrow> rooted pwd" "contained es"
  shows "filepath_Join [getDashboardDir (os_Getwd fs) (os_Stat fs), if es = [] then ''.'' else join CHR ''/'' es] =
    (if es = [] then dashboard_root fs else dashboard_root fs @ CHR ''/'' # join CHR ''/'' es)"
proof (cases "\<exists>pwd. os_Getwd fs = Some pwd \<and> os_Stat fs (path_Clean (pwd @ ''/web/dashboard''))")
  case True
  then obtain pwd where pwd: "os_Getwd fs = Some pwd" "os_Stat fs (path_Clean (pwd @ ''/web/dashboard''))" by blast
  let ?D = "clean_step [] (split_on CHR ''/'' (pwd @ ''/web/dashboard''))"
  have root: "dashboard_root fs = CHR ''/'' # join CHR ''/'' ?D" using pwd by (simp add: dashboard_root_def path_Clean_def)
  have D: "contained ?D"
    using clean_step_subset [of "[]" "split_on CHR ''/'' (pwd @ ''/web/dashboard'')"] split_on_parts
    by (auto simp: contained_iff clean_step_result)
  have "?D = clean_step [] (split_on CHR ''/'' pwd) @ [''web'', ''dashboard'']"
    using split_on_both [of "CHR ''/''" pwd "''web/dashboard''"] clean_step_append [of "[''web'', ''dashboard'']" "[]"]
    by (simp add: proper_def)
  then have "?D \<noteq> []" by simp
  then show ?thesis
    using join_rooted [OF D _ assms(2) root] dashboard_dir [OF assms(1)] root by simp
next
  case False
  then have "dashboard_root fs = ''web/dashboard''" by (auto simp: dashboard_root_def Let_def split: option.split)
  then show ?thesis using join_relative [OF assms(2)] dashboard_dir [OF assms(1)] by simp
qed

lemma Dir_Open_below:
  assumes "\<And>pwd. os_Getwd fs = Some pwd \<Longrightarrow> rooted pwd"
    and "\<And>name. below (dashboard_root fs) name \<Longrightarrow> os_Open fs' name = os_Open fs name"
    and "dir = getDashboardDir (os_Getwd fs) (os_Stat fs)"
  shows "Dir_Open fs' dir name = Dir_Open fs dir name"
proof -
  obtain es where es: "path_Clean (CHR ''/'' # name) = CHR ''/'' # join CHR ''/'' es" "contained es"
    using path_Clean_elements [of "CHR ''/'' # name"] unfolding contained_iff by blast
  have "join CHR ''/'' es = [] \<longleftrightarrow> es = []"
    using es(2) last_join [of es "CHR ''/''"] by (auto simp: contained_iff list_all_iff proper_def)
  then have path: "(let path = tl (path_Clean (CHR ''/'' # name)) in if path = [] then ''.'' else path) =
      (if es = [] then ''.'' else join CHR ''/'' es)" by (simp add: es(1))
  have "dir \<noteq> []"
    using dashboard_dir [OF assms(1)] by (auto simp: assms(3) dashboard_root_def path_Clean_def Let_def split: option.split)
  moreover have opens: "filepath_Join [dir, if es = [] then ''.'' else join CHR ''/'' es] =
      (if es = [] then dashboard_root fs else dashboard_root fs @ CHR ''/'' # join CHR ''/'' es)"
    unfolding assms(3) using assms(1) es(2) by (rule dashboard_opens)
  have "os_Open fs' (filepath_Join [dir, if es = [] then ''.'' else join CHR ''/'' es]) =
      os_Open fs (filepath_Join [dir, if es = [] then ''.'' else join CHR ''/'' es])"
    unfolding opens by (rule assms(2)) (use below_join [OF es(2)] in \<open>auto simp: below_def [of _ "dashboard_root fs"]\<close>)
  ultimately show ?thesis using path by (simp add: Dir_Open_def Let_def)
qed

lemma dashboard_cong:
  assumes "\<And>name. Dir_Open fs' (getDashboardDir (os_Getwd fs) (os_Stat fs)) name =
      Dir_Open fs (getDashboardDir (os_Getwd fs) (os_Stat fs)) name"
    and "getDashboardDir (os_Getwd fs') (os_Stat fs') = getDashboardDir (os_Getwd fs) (os_Stat fs)"
  shows "dashboard fs' u = dashboard fs u"
  by (simp only: dashboard_def serveFile_def Let_def assms)

lemma demo_index: "readRequest (demo_request ''GET'' ''/dashboard/'') =
    Some \<lparr>u_Path = ''/dashboard/'', u_RawPath = [], u_RawQuery = []\<rparr>"
  "findHandler ''GET'' \<lparr>u_Path = ''/dashboard/'', u_RawPath = [], u_RawQuery = []\<rparr> = ToEndpoint DashboardE []"
  by code_simp+

lemma dashboard_index:
  assumes "\<And>pwd. os_Getwd fs = Some pwd \<Longrightarrow> rooted pwd"
    and "os_Open fs (dashboard_root fs) = Opened (Directory es)" "os_Open fs (dashboard_root fs @ ''/index.html'') = Opened (Regular html)"
  shows "dashboard fs \<lparr>u_Path = ''/dashboard/'', u_RawPath = [], u_RawQuery = q\<rparr> = serveContent html"
proof -
  let ?dir = "getDashboardDir (os_Getwd fs) (os_Stat fs)"
  have "contained []" "contained [''index.html'']" by (simp_all add: contained_def proper_def)
  then have opens: "filepath_Join [?dir, ''.''] = dashboard_root fs"
    "filepath_Join [?dir, ''index.html''] = dashboard_root fs @ ''/index.html''"
    using dashboard_opens [of fs "[]"] dashboard_opens [of fs "[''index.html'']"] assms(1) by simp_all
  have dir: "?dir \<noteq> []"
    using dashboard_dir [OF assms(1)] by (auto simp: dashboard_root_def path_Clean_def Let_def split: option.split)
  have "Dir_Open fs ?dir ''/'' = Opened (Directory es)"
    using opens(1) assms(2) dir by (simp add: Dir_Open_def Let_def path_Clean_def)
  moreover have "Dir_Open fs ?dir ''/index.html'' = Opened (Regular html)"
    using opens(2) assms(3) dir by (simp add: Dir_Open_def Let_def path_Clean_def)
  ultimately show ?thesis
    by (simp add: dashboard_def strip_def Let_def rooted_def serveFile_def has_suffix_def path_Clean_def)
qed

text \<open>
  C27. The dashboard's files. Its directory is \<open>web/dashboard\<close> in the working directory. No path
  leads out of it: the answer to any request, however its target is written or escaped, depends
  only on the files at or below that directory, so two file systems with the same working and
  dashboard directories that agree there and differ in any way elsewhere are served alike. And the dashboard is served from there: \<open>GET /dashboard/\<close>
  is answered with the directory's \<open>index.html\<close>, if there is one.
\<close>

theorem static_files_contained:
  assumes "\<And>pwd. os_Getwd fs = Some pwd \<Longrightarrow> rooted pwd" "os_Getwd fs' = os_Getwd fs" "dashboard_root fs' = dashboard_root fs"
    and "\<And>name. below (dashboard_root fs) name \<Longrightarrow> os_Open fs' name = os_Open fs name"
  shows "serve fs' io t t' hr api = serve fs io t t' hr api \<and>
    (os_Open fs (dashboard_root fs) = Opened (Directory es) \<longrightarrow> os_Open fs (dashboard_root fs @ ''/index.html'') = Opened (Regular html) \<longrightarrow>
     hr_method hr = ''GET'' \<longrightarrow> hr_target hr = ''/dashboard/'' \<longrightarrow>
     fst (serve fs io t t' hr api) = \<lparr>rs_status = 200, rs_body = StaticFile html\<rparr>)"
proof -
  have "getDashboardDir (os_Getwd fs') (os_Stat fs') = getDashboardDir (os_Getwd fs) (os_Stat fs)"
    using dashboard_dir [of fs] dashboard_dir [of fs'] assms(1-3) by simp
  then have "mux_ServeHTTP fs' io hr u api = mux_ServeHTTP fs io hr u api" for u
    using dashboard_cong [OF Dir_Open_below [OF assms(1,4) refl]] by (simp only: mux_ServeHTTP_def)
  then have "serve fs' io t t' hr api = serve fs io t t' hr api" by (simp only: serve_def)
  moreover have "fst (serve fs io t t' hr api) = \<lparr>rs_status = 200, rs_body = StaticFile html\<rparr>"
    if "os_Open fs (dashboard_root fs) = Opened (Directory es)" "os_Open fs (dashboard_root fs @ ''/index.html'') = Opened (Regular html)"
      "hr_method hr = ''GET''" "hr_target hr = ''/dashboard/''"
  proof -
    let ?u = "\<lparr>u_Path = ''/dashboard/'', u_RawPath = [], u_RawQuery = []\<rparr>"
    have "readRequest hr = Some ?u" using demo_index(1) that(3,4) by (simp add: readRequest_def demo_request_def)
    moreover have "\<not> general_options hr" by (simp add: general_options_def that(3))
    moreover have "mux_ServeHTTP fs io hr ?u api = Inr (serveContent html, [], api)"
      using demo_index(2) dashboard_index [OF assms(1) that(1,2)] that(3,4) by (simp add: mux_ServeHTTP_def)
    ultimately have "answered api (Inr (serveContent html, [], api)) (serve fs io t t' hr api)" by (rule serve_answered)
    then show ?thesis by (auto simp: answered_def RecoveryMiddleware_def serveContent_def)
  qed
  ultimately show ?thesis by simp
qed

definition demo_fs :: "string \<Rightarrow> os_files" where
  "demo_fs secret = \<lparr>os_Getwd = Some ''/srv'', os_Stat = (\<lambda>_. True),
     os_Open = (\<lambda>name. if name = ''/srv/web/dashboard'' then Opened (Directory None)
       else if name = ''/srv/web/dashboard/index.html'' then Opened (Regular ''page'')
       else if name = ''/srv/secret'' then Opened (Regular secret) else ErrNotExist)\<rparr>"

theorem static_files_contained_witness:
  "serve (demo_fs ''key'') demo_io 1 2 (demo_request ''GET'' ''/dashboard/%2e%2e/%2e%2e/secret'') demo_api =
     serve (demo_fs []) demo_io 1 2 (demo_request ''GET'' ''/dashboard/%2e%2e/%2e%2e/secret'') demo_api \<and>
   rs_body (fst (serve (demo_fs []) demo_io 1 2 (demo_request ''GET'' ''/dashboard/'') demo_api)) = StaticFile ''page''"
proof -
  have root: "dashboard_root (demo_fs []) = ''/srv/web/dashboard''" "dashboard_root (demo_fs ''key'') = ''/srv/web/dashboard''" by code_simp+
  have fs: "os_Getwd (demo_fs x) = Some ''/srv''" for x by (simp add: demo_fs_def)
  have "os_Open (demo_fs ''key'') name = os_Open (demo_fs []) name" if "below (dashboard_root (demo_fs [])) name" for name
  proof -
    have "\<not> below ''/srv/web/dashboard'' ''/srv/secret''" by code_simp
    then have "name \<noteq> ''/srv/secret''" using that root(1) by metis
    then show ?thesis by (simp add: demo_fs_def)
  qed
  note all = static_files_contained [of "demo_fs []" "demo_fs ''key''", OF _ _ _ this]
  from all [of demo_io 1 2 "demo_request ''GET'' ''/dashboard/''" demo_api None "''page''"]
    all [of demo_io 1 2 "demo_request ''GET'' ''/dashboard/%2e%2e/%2e%2e/secret''" demo_api None "''page''"]
  show ?thesis unfolding root by (simp add: fs) (simp add: demo_fs_def demo_request_def rooted_def)
qed

text \<open>The remote list in a ping's answer names the answering node once, as alive.\<close>

definition names_ok :: "PeerManager \<Rightarrow> bool" where
  "names_ok pm \<longleftrightarrow> (\<forall>k p. pm k = Some p \<longrightarrow> valid_utf8 k \<and> valid_utf8 (Address p))"

lemma answer_entry:
  assumes "keyed pm" "names_ok pm" "rp \<in> set (map json_peer (GetAll order pm @ [own_entry now b]))"
  shows "(\<exists>q. pm (NodeID rp) = Some q \<and> Address rp = Address q) \<or> rp = json_peer (own_entry now b)"
proof (cases "rp = json_peer (own_entry now b)")
  case False
  then obtain q where "q \<in> set (GetAll order pm)" "rp = json_peer q" using assms(3) by auto
  moreover from this(1) have "pm (NodeID q) = Some q" using GetAll_ids_subset [OF assms(1)] by blast
  moreover from this have "valid_utf8 (NodeID q)" "valid_utf8 (Address q)" using assms(2) unfolding names_ok_def by blast+
  ultimately show ?thesis by (simp add: json_peer_def valid_utf8_def)
qed simp

lemma answer_list:
  assumes "keyed pm" "names_ok pm" "pm sid = None" "pm ''seed'' = None" "\<And>k q. pm k = Some q \<Longrightarrow> Address q \<noteq> addr"
    and "me = json_peer (own_entry now b)" "NodeID me = sid" "Address me = addr" "sid \<noteq> ''seed''"
    and "rps = map json_peer (GetAll order pm @ [own_entry now b])"
  shows "\<And>rp. rp \<in> set rps \<Longrightarrow> Address rp = addr \<or> NodeID rp = sid \<Longrightarrow> rp = me"
    and "\<And>rp. rp \<in> set rps \<Longrightarrow> NodeID rp \<noteq> ''seed''"
    and "find (\<lambda>rp. Address rp = addr) rps = Some me"
proof -
  have entry: "(\<exists>q. pm (NodeID rp) = Some q \<and> Address rp = Address q) \<or> rp = me" if "rp \<in> set rps" for rp
    using answer_entry [OF assms(1,2)] that assms(6,10) by blast
  show only_me: "rp = me" if "rp \<in> set rps" "Address rp = addr \<or> NodeID rp = sid" for rp
    using entry [OF that(1)] that(2) assms(3,5) by (metis option.distinct(1))
  show "NodeID rp \<noteq> ''seed''" if "rp \<in> set rps" for rp
    using entry [OF that] assms(4,7,9) by auto
  show "find (\<lambda>rp. Address rp = addr) rps = Some me"
  proof (cases "find (\<lambda>rp. Address rp = addr) rps")
    case None
    moreover have "me \<in> set rps" by (simp add: assms(6,10))
    ultimately show ?thesis using assms(8) unfolding find_None_iff by blast
  next
    case (Some rp)
    then have "rp \<in> set rps" "Address rp = addr" by (auto simp: find_Some_iff)
    with only_me Some show ?thesis by blast
  qed
qed

lemma bootstrap_answered:
  assumes "find (\<lambda>rp. Address rp = gm_seedAddr gm) rps = Some me" "NodeID me = sid" "sid \<noteq> ''seed''"
    and "\<And>rp. rp \<in> set rps \<Longrightarrow> NodeID rp \<noteq> ''seed''" "\<And>rp. rp \<in> set rps \<Longrightarrow> NodeID rp = sid \<Longrightarrow> State rp = StateAlive"
  shows "map_option State (bootstrap gm now pc (PeerList rps) pm sid) = Some StateAlive \<and>
    bootstrap gm now pc (PeerList rps) pm ''seed'' = None"
proof -
  define pm0 where "pm0 = UpdateRTT (pc_rtt pc) sid (time_Sub (pc_done pc) (pc_start pc))
    (AddOrUpdate (pc_update pc) sid (gm_seedAddr gm) StateAlive
      ((AddOrUpdate now ''seed'' (gm_seedAddr gm) StateAlive pm)(''seed'' := None)))"
  have merged: "bootstrap gm now pc (PeerList rps) pm = MergePeers gm (pc_merge pc) rps pm0"
    using assms(1,2) by (simp add: bootstrap_def pingPeer_def new_peer_def pm0_def)
  have "pm0 ''seed'' = None"
    using assms(3) by (auto simp: pm0_def UpdateRTT_def split: option.split)
  then have "bootstrap gm now pc (PeerList rps) pm ''seed'' = None"
    unfolding merged using merge_unnamed [OF assms(4)] by simp
  moreover obtain e where e: "pm0 sid = Some e" "State e = StateAlive"
    by (auto simp: pm0_def UpdateRTT_def AddOrUpdate_def Let_def)
  ultimately show ?thesis using merge_keeps_alive [of pm0 sid e rps, OF e assms(5)] by (simp add: merged)
qed

text \<open>
  C20. Joining a cluster. A node that starts with the address its seed advertises, pings the seed
  and gets its answer, is from then on a peer of the seed, alive, and has the seed in its own
  table under its real name, alive; the provisional entry \<open>seed\<close> is gone. (No other entry of the
  seed's table has its address or is called \<open>seed\<close>, and names are valid UTF-8.)
\<close>

theorem bootstrap_joins:
  assumes "keyed (api_pm b)" "names_ok (api_pm b)" "gm_nodeID gm \<noteq> []" "gm_address gm \<noteq> []"
    and "valid_utf8 (gm_nodeID gm)" "valid_utf8 (gm_address gm)" "gm_nodeID gm \<noteq> ''seed''"
    and "gm_seedAddr gm = cfg_AdvertiseAddr (api_cfg b)" "valid_utf8 (gm_seedAddr gm)" "gm_address gm \<noteq> gm_seedAddr gm"
    and "\<And>k p. api_pm b k = Some p \<Longrightarrow> Address p \<noteq> gm_seedAddr gm"
    and "sid = cfg_NodeID (api_cfg b)" "valid_utf8 sid" "sid \<noteq> ''seed''" "sid \<noteq> gm_nodeID gm"
    and "api_pm b sid = None" "api_pm b ''seed'' = None"
    and "serve files io t t' (ping_request gm) b = (r, msgs, b')"
    and "pm' = bootstrap gm now pc (ping_answer r) pm"
  shows "map_option State (api_pm b' (gm_nodeID gm)) = Some StateAlive \<and>
    map_option State (pm' sid) = Some StateAlive \<and> pm' ''seed'' = None"
proof -
  let ?add = "AddOrUpdate (io_clock io 0, io_clock io 1) (gm_nodeID gm) (gm_address gm) StateAlive (api_pm b)"
  let ?me = "json_peer (own_entry (io_clock io 2) b)"
  have b': "api_pm b' = ?add"
    "ping_answer r = PeerList (map json_peer (GetAll (io_peers io) ?add @ [own_entry (io_clock io 2) b]))"
    using ping_served [OF assms(18,3,4)] by auto
  have me: "NodeID ?me = sid" "Address ?me = gm_seedAddr gm" "State ?me = StateAlive"
    using assms(8,9,12,13) by (simp_all add: json_peer_def own_entry_def new_peer_def valid_utf8_def)
  obtain p where p: "?add (gm_nodeID gm) = Some p" "State p = StateAlive"
    "Address p = (case api_pm b (gm_nodeID gm) of None \<Rightarrow> gm_address gm | Some q \<Rightarrow> Address q)"
    using AddOrUpdate_same [of "(io_clock io 0, io_clock io 1)" "gm_nodeID gm" "gm_address gm" StateAlive "api_pm b"] by blast
  have other: "Address q \<noteq> gm_seedAddr gm \<and> valid_utf8 (Address q) \<and> valid_utf8 k" if "?add k = Some q" for k q
  proof (cases "k = gm_nodeID gm")
    case True
    then show ?thesis using that p assms(2,5,6,10,11) by (auto simp: names_ok_def split: option.splits)
  next
    case False
    then show ?thesis using that assms(2,11) by (auto simp: names_ok_def)
  qed
  then have "names_ok ?add" unfolding names_ok_def by blast
  note list = answer_list [OF AddOrUpdate_keyed [OF assms(1)] this _ _ _ refl me(1,2) assms(14) refl, where order = "io_peers io"]
  have "map_option State (pm' sid) = Some StateAlive \<and> pm' ''seed'' = None"
    unfolding assms(19) b'(2)
  proof (rule bootstrap_answered [OF _ me(1) assms(14)])
    show "NodeID rp \<noteq> ''seed''" if "rp \<in> set (map json_peer (GetAll (io_peers io) ?add @ [own_entry (io_clock io 2) b]))" for rp
      using list(2) [OF _ _ _ that] other assms(7,15-17) by auto
    show "State rp = StateAlive" if "rp \<in> set (map json_peer (GetAll (io_peers io) ?add @ [own_entry (io_clock io 2) b]))" "NodeID rp = sid" for rp
      using list(1) [OF _ _ _ that(1)] that(2) me(3) other assms(7,15-17) by auto
    show "find (\<lambda>rp. Address rp = gm_seedAddr gm)
        (map json_peer (GetAll (io_peers io) ?add @ [own_entry (io_clock io 2) b])) = Some ?me"
      using list(3) other assms(7,15-17) by auto
  qed
  then show ?thesis using p b'(1) by simp
qed

definition demo_joiner :: GossipManager where
  "demo_joiner = NewGossipManager ''n2'' ''n2:80'' ''n1:80'' 1000 200 5000"

definition demo_seed :: API where
  "demo_seed = demo_api\<lparr>api_pm := Map.empty, api_cfg := (api_cfg demo_api)\<lparr>cfg_NodeID := ''n1'', cfg_AdvertiseAddr := ''n1:80''\<rparr>\<rparr>"

theorem bootstrap_joins_witness:
  "map_option State (bootstrap demo_joiner (1, 1) demo_pc
     (ping_answer (fst (serve no_static demo_io 5 9 (ping_request demo_joiner) demo_seed))) Map.empty ''n1'') = Some StateAlive"
proof -
  let ?r = "serve no_static demo_io 5 9 (ping_request demo_joiner) demo_seed"
  have joiner: "gm_nodeID demo_joiner = ''n2''" "gm_address demo_joiner = ''n2:80''" "gm_seedAddr demo_joiner = ''n1:80''"
    by (simp_all add: demo_joiner_def NewGossipManager_def)
  have seed: "api_pm demo_seed = Map.empty" "cfg_NodeID (api_cfg demo_seed) = ''n1''" "cfg_AdvertiseAddr (api_cfg demo_seed) = ''n1:80''"
    by (simp_all add: demo_seed_def)
  have "valid_utf8 ''n1''" "valid_utf8 ''n2''" "valid_utf8 ''n1:80''" "valid_utf8 ''n2:80''" by (simp_all add: valid_ascii)
  then show ?thesis
    using bootstrap_joins [of demo_seed demo_joiner "''n1''" no_static demo_io 5 9 "fst ?r" "fst (snd ?r)" "snd (snd ?r)"
        "bootstrap demo_joiner (1, 1) demo_pc (ping_answer (fst ?r)) Map.empty" "(1, 1)" demo_pc Map.empty]
    by (simp add: joiner seed keyed_def names_ok_def)
qed

lemma names_ok_AddOrUpdate:
  assumes "names_ok pm" "valid_utf8 i" "valid_utf8 a"
  shows "names_ok (AddOrUpdate now i a st pm)"
  unfolding names_ok_def
proof (intro allI impI)
  fix k p
  assume p: "AddOrUpdate now i a st pm k = Some p"
  show "valid_utf8 k \<and> valid_utf8 (Address p)"
  proof (cases "k = i")
    case True
    with p AddOrUpdate_same [of now i a st pm] assms show ?thesis by (auto simp: names_ok_def split: option.splits)
  next
    case False
    with p assms(1) show ?thesis by (simp add: names_ok_def)
  qed
qed

text \<open>
  C39. Dead is not final. Let a node hold a peer for dead, and let an earlier ping of that peer,
  sent under its own name, be answered only now, by the peer's ping handler (its table has no
  entry for itself, and names are valid UTF-8). Then the node has the peer alive again, although
  the list in the answer could not have revived it; and the peer has the node alive, whatever
  it held it for, dead included.
\<close>

theorem dead_peer_revives:
  assumes "keyed (api_pm b)" "names_ok (api_pm b)" "gm_nodeID gm \<noteq> []" "gm_address gm \<noteq> []"
    and "valid_utf8 (gm_nodeID gm)" "valid_utf8 (gm_address gm)"
    and "sid = cfg_NodeID (api_cfg b)" "valid_utf8 sid" "sid \<noteq> ''seed''" "sid \<noteq> gm_nodeID gm" "api_pm b sid = None"
    and "pm sid = Some e" "State e = StateDead" "NodeID p = sid"
    and "serve files io t t' (ping_request gm) b = (r, msgs, b')"
  shows "map_option State (pingPeer gm pc p (ping_answer r) pm sid) = Some StateAlive \<and>
    (\<exists>rps. ping_answer r = PeerList rps \<and> MergePeers gm (pc_merge pc) rps pm sid = Some e) \<and>
    map_option State (api_pm b' (gm_nodeID gm)) = Some StateAlive"
proof -
  let ?add = "AddOrUpdate (io_clock io 0, io_clock io 1) (gm_nodeID gm) (gm_address gm) StateAlive (api_pm b)"
  define rps where "rps = map json_peer (GetAll (io_peers io) ?add @ [own_entry (io_clock io 2) b])"
  have b': "api_pm b' = ?add" "ping_answer r = PeerList rps"
    using ping_served [OF assms(15,3,4)] by (simp_all add: rps_def)
  have alive: "State rp = StateAlive" if "rp \<in> set rps" "NodeID rp = sid" for rp
  proof -
    have "?add sid = None" using assms(10,11) by simp
    then have "rp = json_peer (own_entry (io_clock io 2) b)"
      using answer_entry [OF AddOrUpdate_keyed [OF assms(1)] names_ok_AddOrUpdate [OF assms(2,5,6)] that(1) [unfolded rps_def]] that(2)
      by auto
    then show ?thesis by (simp add: json_peer_def own_entry_def new_peer_def)
  qed
  let ?pm = "UpdateRTT (pc_rtt pc) sid (time_Sub (pc_done pc) (pc_start pc)) (AddOrUpdate (pc_update pc) sid (Address p) StateAlive pm)"
  have "pingPeer gm pc p (ping_answer r) pm = MergePeers gm (pc_merge pc) rps ?pm"
    using assms(9,14) b'(2) by (simp add: pingPeer_def)
  moreover obtain q where "?pm sid = Some q" "State q = StateAlive"
    by (auto simp: UpdateRTT_def AddOrUpdate_def Let_def)
  ultimately have "map_option State (pingPeer gm pc p (ping_answer r) pm sid) = Some StateAlive"
    using merge_keeps_alive [of ?pm sid q rps gm "pc_merge pc"] alive by simp
  moreover have "MergePeers gm (pc_merge pc) rps pm sid = Some e"
    using merge_keeps_dead [of pm sid e] assms(12,13) by simp
  moreover have "map_option State (?add (gm_nodeID gm)) = Some StateAlive"
    using AddOrUpdate_same [of "(io_clock io 0, io_clock io 1)" "gm_nodeID gm" "gm_address gm" StateAlive "api_pm b"] by auto
  ultimately show ?thesis using b' by simp
qed

theorem dead_peer_revives_witness:
  "map_option State (pingPeer demo_joiner demo_pc (new_peer ''n1'' ''n1:80'')
     (ping_answer (fst (serve no_static demo_io 5 9 (ping_request demo_joiner) demo_seed)))
     [''n1'' \<mapsto> (new_peer ''n1'' ''n1:80'')\<lparr>State := StateDead\<rparr>] ''n1'') = Some StateAlive"
proof -
  let ?r = "serve no_static demo_io 5 9 (ping_request demo_joiner) demo_seed"
  have joiner: "gm_nodeID demo_joiner = ''n2''" "gm_address demo_joiner = ''n2:80''"
    by (simp_all add: demo_joiner_def NewGossipManager_def)
  have seed: "api_pm demo_seed = Map.empty" "cfg_NodeID (api_cfg demo_seed) = ''n1''" by (simp_all add: demo_seed_def)
  have "valid_utf8 ''n1''" "valid_utf8 ''n2''" "valid_utf8 ''n2:80''" by (simp_all add: valid_ascii)
  then show ?thesis
    using dead_peer_revives [of demo_seed demo_joiner "''n1''" "[''n1'' \<mapsto> (new_peer ''n1'' ''n1:80'')\<lparr>State := StateDead\<rparr>]"
        "(new_peer ''n1'' ''n1:80'')\<lparr>State := StateDead\<rparr>" "new_peer ''n1'' ''n1:80''" no_static demo_io 5 9 "fst ?r" "fst (snd ?r)"
        "snd (snd ?r)" demo_pc]
    by (simp add: joiner seed keyed_def names_ok_def new_peer_def)
qed

end
