(* ===== verification/KV_Client.thy ===== *)
theory KV_Client
  imports KV_Router
begin

text \<open>
  The Go client (\<open>pkg/client/client.go\<close>). Each call is split at the exchange: the request it
  builds, and what it makes of the answer.
\<close>

section \<open>The client\<close>

datatype client_error =
    TransportFailed
  | ErrKeyNotFound
  | ErrBadRequest
  | UnexpectedStatus nat
  | DecodeFailed

record Client =
  c_addr :: string

definition NewClient :: "string \<Rightarrow> Client" where
  "NewClient addr = \<lparr>c_addr = addr\<rparr>"

text \<open>
  \<open>http.NewRequest\<close> for an \<open>http\<close> URL: what follows the authority is parsed, and the request
  carries its \<open>RequestURI\<close>. \<open>None\<close> is a URL that does not parse.
\<close>

definition url_target :: "string \<Rightarrow> string option" where
  "url_target url =
     (let u = fst (cut CHR ''#'' url)
      in if take 7 u = ''http://'' then Some (dropWhile (\<lambda>c. c \<noteq> CHR ''/'') (drop 7 u)) else None)"

definition RequestURI :: "URL \<Rightarrow> string" where
  "RequestURI u = with_query (if EscapedPath u = [] then ''/'' else EscapedPath u) (u_RawQuery u)"

definition NewRequest :: "string \<Rightarrow> string \<Rightarrow> PutRequest option \<Rightarrow> http_request option" where
  "NewRequest method url put =
     (case Option.bind (url_target url) ParseRequestURI of
        None \<Rightarrow> None
      | Some u \<Rightarrow> Some \<lparr>hr_method = method, hr_target = RequestURI u, hr_put = put, hr_replicate = None\<rparr>)"

text \<open>
  \<open>http.DefaultClient.Do\<close> over the handlers of the server, one per exchange: up to ten requests,
  following redirects, with \<open>GET\<close> in place of any method but \<open>HEAD\<close>. The server redirects to
  rooted locations; \<open>None\<close> is an exchange without an answer.
\<close>

type_synonym server = "http_request \<Rightarrow> API \<Rightarrow> response \<times> outbox \<times> API"

fun client_Do :: "server list \<Rightarrow> http_request \<Rightarrow> API \<Rightarrow> response option \<times> API" where
  "client_Do [] hr api = (None, api)"
| "client_Do (srv # srvs) hr api =
     (case srv hr api of (r, msgs, api') \<Rightarrow>
        (case rs_body r of
           MovedTo loc \<Rightarrow>
             (if rs_status r = 301 \<and> loc \<noteq> [] \<and> hd loc = CHR ''/''
              then client_Do srvs \<lparr>hr_method = (if hr_method hr = ''HEAD'' then ''HEAD'' else ''GET''), hr_target = loc,
                     hr_put = None, hr_replicate = None\<rparr> api'
              else (Some r, api'))
         | _ \<Rightarrow> (Some r, api')))"

definition key_url :: "Client \<Rightarrow> string \<Rightarrow> string" where
  "key_url c key = c_addr c @ ''/v1/kv/'' @ PathEscape key"

definition client_get_request :: "Client \<Rightarrow> string \<Rightarrow> http_request option" where
  "client_get_request c key = NewRequest ''GET'' (key_url c key) None"

text \<open>Decoding into a \<open>GetResponse\<close>: absent fields keep their zero values.\<close>

fun decode_get :: "body \<Rightarrow> (string \<times> uint64) option" where
  "decode_get (GetResponse v n) = Some (json_string v, n)"
| "decode_get (PutResponse n) = Some ([], n)"
| "decode_get (DeleteResponse n d) = Some ([], n)"
| "decode_get (PeersResponse ps) = None"
| "decode_get (PlainText t) = None"
| "decode_get (MetricsText ms) = None"
| "decode_get (MovedTo loc) = None"
| "decode_get (StaticFile text) = None"
| "decode_get (DirectoryListing es) = None"
| "decode_get NoBody = None"
| "decode_get b = Some ([], 0)"

fun decode_version :: "body \<Rightarrow> uint64 option" where
  "decode_version b = map_option snd (decode_get b)"

fun decode_delete :: "body \<Rightarrow> (uint64 \<times> bool) option" where
  "decode_delete (DeleteResponse n d) = Some (n, d)"
| "decode_delete b = map_option (\<lambda>(v, n). (n, False)) (decode_get b)"

fun decode_keys :: "body \<Rightarrow> (string list \<times> string) option" where
  "decode_keys (KeysResponse ks c) = Some (map json_string ks, json_string c)"
| "decode_keys b = map_option (\<lambda>_. ([], [])) (decode_get b)"

definition client_Get :: "response option \<Rightarrow> client_error + (bytes \<times> uint64)" where
  "client_Get answer =
     (case answer of
        None \<Rightarrow> Inl TransportFailed
      | Some resp \<Rightarrow>
          (if rs_status resp = 404 then Inl ErrKeyNotFound
           else if rs_status resp \<noteq> 200 then Inl (UnexpectedStatus (rs_status resp))
           else (case decode_get (rs_body resp) of
                   None \<Rightarrow> Inl DecodeFailed
                 | Some (v, n) \<Rightarrow> Inr (bytes_of v, n))))"

text \<open>The body the server decodes from what the client encoded.\<close>

definition client_set_request :: "Client \<Rightarrow> string \<Rightarrow> bytes \<Rightarrow> int \<Rightarrow> http_request option" where
  "client_set_request c key val ttlSeconds =
     NewRequest ''PUT'' (key_url c key) (Some \<lparr>put_Value = json_string (string_of val),
       put_TTLSeconds = (if ttlSeconds > 0 then Some ttlSeconds else None)\<rparr>)"

definition client_Set :: "response option \<Rightarrow> client_error + uint64" where
  "client_Set answer =
     (case answer of
        None \<Rightarrow> Inl TransportFailed
      | Some resp \<Rightarrow>
          (if rs_status resp = 400 then Inl ErrBadRequest
           else if rs_status resp \<noteq> 200 then Inl (UnexpectedStatus (rs_status resp))
           else (case decode_version (rs_body resp) of None \<Rightarrow> Inl DecodeFailed | Some n \<Rightarrow> Inr n)))"

definition client_delete_request :: "Client \<Rightarrow> string \<Rightarrow> http_request option" where
  "client_delete_request c key = NewRequest ''DELETE'' (key_url c key) None"

definition client_Delete :: "response option \<Rightarrow> client_error + (uint64 \<times> bool)" where
  "client_Delete answer =
     (case answer of
        None \<Rightarrow> Inl TransportFailed
      | Some resp \<Rightarrow>
          (if rs_status resp \<noteq> 200 then Inl (UnexpectedStatus (rs_status resp))
           else (case decode_delete (rs_body resp) of None \<Rightarrow> Inl DecodeFailed | Some r \<Rightarrow> Inr r)))"

definition list_query :: "string \<Rightarrow> int \<Rightarrow> string \<Rightarrow> query" where
  "list_query prefix limit cursor =
     (let q = [];
          q = (if prefix \<noteq> [] then query_Set ''prefix'' prefix q else q);
          q = (if limit > 0 then query_Set ''limit'' (Itoa limit) q else q)
      in if cursor \<noteq> [] then query_Set ''cursor'' cursor q else q)"

definition client_list_request :: "Client \<Rightarrow> string \<Rightarrow> int \<Rightarrow> string \<Rightarrow> http_request option" where
  "client_list_request c prefix limit cursor =
     NewRequest ''GET'' (with_query (c_addr c @ ''/v1/keys'') (query_Encode (list_query prefix limit cursor))) None"

definition client_ListKeys :: "response option \<Rightarrow> client_error + (string list \<times> string)" where
  "client_ListKeys answer =
     (case answer of
        None \<Rightarrow> Inl TransportFailed
      | Some resp \<Rightarrow>
          (if rs_status resp \<noteq> 200 then Inl (UnexpectedStatus (rs_status resp))
           else (case decode_keys (rs_body resp) of None \<Rightarrow> Inl DecodeFailed | Some r \<Rightarrow> Inr r)))"

text \<open>The client's own type for the status; the uptime is kept as the duration it is computed from.\<close>

record ClusterStatus =
  st_NodeID :: string
  st_Role :: string
  st_Uptime :: duration
  st_StoreSize :: int
  st_WALSizeBytes :: int
  st_PeersCount :: int

fun decode_status :: "body \<Rightarrow> ClusterStatus option" where
  "decode_status (StatusResponse cs) = Some \<lparr>st_NodeID = json_string (cs_NodeID cs), st_Role = json_string (cs_Role cs),
     st_Uptime = cs_Uptime cs, st_StoreSize = cs_StoreSize cs, st_WALSizeBytes = cs_WALSizeBytes cs,
     st_PeersCount = cs_PeersCount cs\<rparr>"
| "decode_status b = map_option (\<lambda>_. \<lparr>st_NodeID = [], st_Role = [], st_Uptime = 0, st_StoreSize = 0, st_WALSizeBytes = 0,
     st_PeersCount = 0\<rparr>) (decode_get b)"

definition client_status_request :: "Client \<Rightarrow> http_request option" where
  "client_status_request c = NewRequest ''GET'' (c_addr c @ ''/v1/cluster/status'') None"

definition client_ClusterStatus :: "response option \<Rightarrow> client_error + ClusterStatus" where
  "client_ClusterStatus answer =
     (case answer of
        None \<Rightarrow> Inl TransportFailed
      | Some resp \<Rightarrow>
          (if rs_status resp \<noteq> 200 then Inl (UnexpectedStatus (rs_status resp))
           else (case decode_status (rs_body resp) of None \<Rightarrow> Inl DecodeFailed | Some st \<Rightarrow> Inr st)))"

section \<open>Client requests reach their handlers\<close>

definition plain_addr :: "string \<Rightarrow> bool" where
  "plain_addr addr \<longleftrightarrow> take 7 addr = ''http://'' \<and> list_all (\<lambda>c. alphanumeric c \<or> c \<in> set ''.-:'') (drop 7 addr)"

lemma url_target_plain:
  assumes "plain_addr addr" "t \<noteq> []" "hd t = CHR ''/''" "CHR ''#'' \<notin> set t"
  shows "url_target (addr @ t) = Some t"
proof -
  obtain host where host: "addr = ''http://'' @ host" "list_all (\<lambda>c. alphanumeric c \<or> c \<in> set ''.-:'') host"
    using assms(1) unfolding plain_addr_def by (metis append_take_drop_id)
  have "\<not> alphanumeric CHR ''#''" by (simp add: alphanumeric_def)
  with host(2) have "CHR ''#'' \<notin> set host" "\<forall>c \<in> set host. c \<noteq> CHR ''/''" by (auto simp: list_all_iff)
  with assms host(1) show ?thesis
    by (cases t) (simp_all add: url_target_def cut_free dropWhile_append)
qed

lemma key_request:
  assumes "plain_addr (c_addr c)"
  shows "NewRequest m (key_url c key) put =
    Some \<lparr>hr_method = m, hr_target = ''/v1/kv/'' @ PathEscape key, hr_put = put, hr_replicate = None\<rparr>"
proof -
  have "CHR ''#'' \<notin> set (PathEscape key)"
    by (rule escape_free) (simp_all add: shouldEscape_def alphanumeric_def)
  then have "url_target (key_url c key) = Some (''/v1/kv/'' @ PathEscape key)"
    unfolding key_url_def by (intro url_target_plain [OF assms]) simp_all
  moreover obtain u where "ParseRequestURI (''/v1/kv/'' @ PathEscape key) = Some u"
    "EscapedPath u = ''/v1/kv/'' @ PathEscape key" "u_RawQuery u = []"
    using parse_key_target [of key] by blast
  ultimately show ?thesis by (simp add: NewRequest_def RequestURI_def with_query_def)
qed

lemma key_served:
  assumes "addressable key" "(m, [Lit ''v1'', Lit ''kv'', Wild], e) \<in> set routes"
    and "hr = \<lparr>hr_method = m, hr_target = ''/v1/kv/'' @ PathEscape key, hr_put = put, hr_replicate = None\<rparr>"
    and "endpoint_request e [key] [] hr = Some req"
  shows "answered api (dispatch io req api) (serve files io t t' hr api)"
  using serve_request [OF key_routed [OF assms]] .

text \<open>The three calls for a key, with an answer that is not a redirect.\<close>

lemma client_Do_final:
  "srv hr api = (r, msgs, api') \<Longrightarrow> (\<And>loc. rs_body r \<noteq> MovedTo loc) \<Longrightarrow> client_Do (srv # srvs) hr api = (Some r, api')"
  by (cases "rs_body r") auto

lemma put_key_served:
  assumes "addressable key" "plain_addr (c_addr c)" "client_set_request c key val ttl = Some hr"
    and "p = \<lparr>put_Value = json_string (string_of val), put_TTLSeconds = (if ttl > 0 then Some ttl else None)\<rparr>"
    and "handlePutKey io key (Some p) api = (r, msgs, api')"
  shows "\<exists>mc. client_Do (serve files io t t' # srvs) hr api = (Some r, api'\<lparr>api_metrics := mc\<rparr>)"
proof -
  have hr: "hr = \<lparr>hr_method = ''PUT'', hr_target = ''/v1/kv/'' @ PathEscape key, hr_put = Some p, hr_replicate = None\<rparr>"
    using assms(3,4) key_request [OF assms(2)] by (simp add: client_set_request_def)
  have "answered api (dispatch io (ReqPutKey key (Some p)) api) (serve files io t t' hr api)"
    by (rule key_served [OF assms(1) _ hr, of PutKeyE]) (simp_all add: routes_def hr)
  then obtain mc where "serve files io t t' hr api = (r, msgs, api'\<lparr>api_metrics := mc\<rparr>)"
    using assms(5) by (auto simp: answered_def RecoveryMiddleware_def)
  moreover have "rs_body r \<noteq> MovedTo loc" for loc
    using assms(5) by (auto simp: handlePutKey_def writeJSON_def Let_def split: if_splits prod.splits sum.splits)
  ultimately show ?thesis using client_Do_final by blast
qed

lemma get_key_served:
  assumes "addressable key" "plain_addr (c_addr c)" "client_get_request c key = Some hr"
    and "handleGetKey io key api = (r, api')"
  shows "\<exists>mc. client_Do (serve files io t t' # srvs) hr api = (Some r, api'\<lparr>api_metrics := mc\<rparr>)"
proof -
  have hr: "hr = \<lparr>hr_method = ''GET'', hr_target = ''/v1/kv/'' @ PathEscape key, hr_put = None, hr_replicate = None\<rparr>"
    using assms(3) key_request [OF assms(2)] by (simp add: client_get_request_def)
  have "answered api (dispatch io (ReqGetKey key) api) (serve files io t t' hr api)"
    by (rule key_served [OF assms(1) _ hr, of GetKeyE]) (simp_all add: routes_def)
  then obtain mc where "serve files io t t' hr api = (r, [], api'\<lparr>api_metrics := mc\<rparr>)"
    using assms(4) by (auto simp: answered_def RecoveryMiddleware_def)
  moreover have "rs_body r \<noteq> MovedTo loc" for loc
    using assms(4) by (auto simp: handleGetKey_def writeJSON_def split: if_splits prod.splits option.splits)
  ultimately show ?thesis using client_Do_final by blast
qed

text \<open>A listing: the query comes back as it was set.\<close>

lemma list_query_Get:
  "distinct (map fst (list_query prefix limit cursor))"
  "query_Get ''prefix'' (list_query prefix limit cursor) = prefix"
  "query_Get ''limit'' (list_query prefix limit cursor) = (if limit > 0 then Itoa limit else [])"
  "query_Get ''cursor'' (list_query prefix limit cursor) = cursor"
  by (simp_all add: list_query_def query_Set_def query_Get_def Let_def)

lemma list_request:
  assumes "plain_addr (c_addr c)"
  shows "client_list_request c prefix limit cursor = Some \<lparr>hr_method = ''GET'',
    hr_target = with_query ''/v1/keys'' (query_Encode (list_query prefix limit cursor)), hr_put = None, hr_replicate = None\<rparr>"
proof -
  let ?q = "query_Encode (list_query prefix limit cursor)"
  let ?u = "\<lparr>u_Path = ''/v1/keys'', u_RawPath = [], u_RawQuery = ?q\<rparr>"
  have "CHR ''#'' \<notin> set (QueryEscape x)" for x
    by (rule escape_free) (simp_all add: shouldEscape_def alphanumeric_def)
  then have "CHR ''#'' \<notin> set ?q"
    using set_join [of "CHR ''&''" "map encode_field (sort_key fst (list_query prefix limit cursor))"]
    by (fastforce simp: query_Encode_def encode_field_def)
  then have "url_target (c_addr c @ with_query ''/v1/keys'' ?q) = Some (with_query ''/v1/keys'' ?q)"
    by (intro url_target_plain [OF assms]) (simp_all add: with_query_def)
  moreover have path: "plain_path ''/v1/keys''" by (simp add: plain_path_def alphanumeric_def)
  then have "ParseRequestURI (with_query ''/v1/keys'' ?q) = Some ?u"
    by (rule parse_plain_target) (simp add: query_Encode_def printable_Encode)
  moreover have "with_query (c_addr c @ ''/v1/keys'') ?q = c_addr c @ with_query ''/v1/keys'' ?q" by (simp add: with_query_def)
  ultimately show ?thesis
    by (simp add: client_list_request_def NewRequest_def RequestURI_def EscapedPath_plain [OF path])
qed

lemma list_served:
  assumes "plain_addr (c_addr c)" "client_list_request c prefix limit cursor = Some hr"
    and "handleListKeys io prefix (if limit > 0 then Itoa limit else []) cursor api = Inr r"
  shows "\<exists>mc. client_Do (serve files io t t' # srvs) hr api = (Some r, api\<lparr>api_metrics := mc\<rparr>)"
proof -
  let ?q = "query_Encode (list_query prefix limit cursor)"
  let ?u = "\<lparr>u_Path = ''/v1/keys'', u_RawPath = [], u_RawQuery = ?q\<rparr>"
  have hr: "hr = \<lparr>hr_method = ''GET'', hr_target = with_query ''/v1/keys'' ?q, hr_put = None, hr_replicate = None\<rparr>"
    using list_request [OF assms(1), of prefix limit cursor] assms(2) by simp
  have root: "rooted (hr_target hr)" by (simp add: hr with_query_def)
  have "plain_path ''/v1/keys''" by (simp add: plain_path_def alphanumeric_def)
  then have parsed: "ParseRequestURI (hr_target hr) = Some ?u"
    unfolding hr http_request.simps by (rule parse_plain_target) (simp add: query_Encode_def printable_Encode)
  have "findHandler ''GET'' ?u = ToEndpoint ListKeysE []"
    by (rule findHandler_literal [where ls = "[''v1'', ''keys'']"])
      (simp_all add: proper_def alphanumeric_def routes_def firstSegment_def pathUnescape_plain)
  then have "mux_ServeHTTP files io hr ?u api = Inr (r, [], api)"
    using assms(3) hr query_Get_Encode [OF list_query_Get(1), of _ prefix limit cursor] list_query_Get(2-4) [of prefix limit cursor]
    using rooted_not_star(1) [OF root] by (simp add: mux_ServeHTTP_def)
  from serve_rooted [OF root parsed this, of t t'] obtain mc where "serve files io t t' hr api = (r, [], api\<lparr>api_metrics := mc\<rparr>)"
    by (auto simp: answered_def RecoveryMiddleware_def)
  moreover have "rs_body r \<noteq> MovedTo loc" for loc
    using assms(3) by (auto simp: handleListKeys_def writeJSON_def split: sum.splits)
  ultimately show ?thesis using client_Do_final by blast
qed

lemma status_served:
  assumes "plain_addr (c_addr c)" "client_status_request c = Some hr"
  shows "\<exists>mc. client_Do (serve files io t t' # srvs) hr api = (Some (handleClusterStatus io api), api\<lparr>api_metrics := mc\<rparr>)"
proof -
  let ?p = "''/v1/cluster/status''"
  let ?u = "\<lparr>u_Path = ?p, u_RawPath = [], u_RawQuery = []\<rparr>"
  have path: "plain_path ?p" by (simp add: plain_path_def alphanumeric_def)
  then have parsed: "ParseRequestURI ?p = Some ?u"
    using parse_plain_target [of ?p "[]"] by (simp add: with_query_def)
  have "url_target (c_addr c @ ?p) = Some ?p" by (rule url_target_plain [OF assms(1)]) simp_all
  then have hr: "hr = \<lparr>hr_method = ''GET'', hr_target = ?p, hr_put = None, hr_replicate = None\<rparr>"
    using assms(2) parsed EscapedPath_plain [OF path]
    by (simp add: client_status_request_def NewRequest_def RequestURI_def with_query_def)
  have "findHandler ''GET'' ?u = ToEndpoint ClusterStatusE []"
    by (rule findHandler_literal [where ls = "[''v1'', ''cluster'', ''status'']"])
      (simp_all add: proper_def alphanumeric_def routes_def firstSegment_def pathUnescape_plain)
  then have "mux_ServeHTTP files io hr ?u api = Inr (handleClusterStatus io api, [], api)"
    by (simp add: mux_ServeHTTP_def hr)
  from serve_rooted [OF _ _ this, of t t'] parsed hr
  obtain mc where "serve files io t t' hr api = (handleClusterStatus io api, [], api\<lparr>api_metrics := mc\<rparr>)"
    by (auto simp: answered_def RecoveryMiddleware_def)
  moreover have "rs_body (handleClusterStatus io api) \<noteq> MovedTo loc" for loc by (simp add: handleClusterStatus_def Let_def writeJSON_def)
  ultimately show ?thesis using client_Do_final by blast
qed

section \<open>Properties\<close>

text \<open>
  C10. Client round trip, through escaping, routing and JSON: a client that sets a value and is
  told the version drawn for it reads back, before the time to live is over, that version and
  the value as JSON carries it: the value itself if it is valid UTF-8 (plain ASCII in
  particular), and otherwise the value with every offending byte replaced by U+FFFD. The key may
  contain any bytes; only the empty key, \<open>.\<close>, \<open>..\<close> and \<open>/\<close> are excluded.
\<close>

theorem client_set_then_get:
  assumes "api_inv api" "plain_addr (c_addr c)" "addressable key"
    and "client_set_request c key val ttl = Some hr"
    and "client_Do (serve files io t t' # srvs) hr api = (answer, api')"
    and "client_Set answer = Inr v" "v = fst (NextVersion (io_clock io 1) (api_store api))"
    and "ttl \<le> 0 \<or> (ttl * time_Second < 2 ^ 63 \<and> io_clock io' 0 \<le> io_clock io 0 + ttl * time_Second)"
    and "client_get_request c key = Some hr'"
    and "client_Do (serve files io' u u' # srvs') hr' api' = (answer', api'')"
  shows "client_Get answer' = Inr (bytes_of (json_string (string_of val)), v) \<and>
    (valid_utf8 (string_of val) \<longrightarrow> client_Get answer' = Inr (val, v))"
proof -
  define p where "p = \<lparr>put_Value = json_string (string_of val), put_TTLSeconds = (if ttl > 0 then Some ttl else None)\<rparr>"
  obtain r msgs a where put: "handlePutKey io key (Some p) api = (r, msgs, a)" by (cases "handlePutKey io key (Some p) api")
  then obtain mc where ans: "answer = Some r" "api' = a\<lparr>api_metrics := mc\<rparr>"
    using put_key_served [OF assms(3,2,4) p_def put, of files t t' srvs] assms(5) by auto
  obtain r' a' where get: "handleGetKey io' key api' = (r', a')" by (cases "handleGetKey io' key api'")
  then have ans': "answer' = Some r'" using get_key_served [OF assms(3,2,9) get, of files u u' srvs'] assms(10) by auto
  have status: "rs_status r = 200" using assms(6) ans(1) by (auto simp: client_Set_def split: if_splits)
  then have body: "rs_body r = PutResponse v"
    using handlePutKey_ok [OF put status] assms(6) ans(1) by (auto simp: client_Set_def writeJSON_def)
  have "put_ttl p \<le> 0 \<or> io_clock io' 0 \<le> io_clock io 0 + put_ttl p"
    using assms(8) wrap64_id [of "ttl * time_Second"] by (auto simp: put_ttl_def p_def time_Second_def)
  from put_get_answer [OF assms(1) put status body [unfolded assms(7)] this]
  have "fst (handleGetKey io' key a) = writeJSON 200 (GetResponse (json_string (string_of val)) v)"
    using assms(7) by (simp add: p_def)
  moreover have "fst (handleGetKey io' key api') = fst (handleGetKey io' key a)"
    by (simp add: ans(2) handleGetKey_def split: prod.split option.split)
  ultimately have "r' = writeJSON 200 (GetResponse (json_string (string_of val)) v)" using get by simp
  then show ?thesis by (simp add: ans' client_Get_def writeJSON_def json_string_idem valid_utf8_def)
qed

definition demo_client :: Client where
  "demo_client = NewClient ''http://localhost:8080''"

lemma demo_client [simp]: "plain_addr (c_addr demo_client)"
  by (simp add: demo_client_def NewClient_def plain_addr_def alphanumeric_def)

theorem client_set_then_get_witness:
  "\<exists>hr hr' answer api' answer' api''.
     client_set_request demo_client ''x'' (bytes_of ''hi'') 0 = Some hr \<and> client_get_request demo_client ''x'' = Some hr' \<and>
     client_Do [serve no_static demo_io 5 9] hr demo_api = (answer, api') \<and>
     client_Do [serve no_static demo_io 5 9] hr' api' = (answer', api'') \<and>
     client_Get answer' = Inr (bytes_of ''hi'', 60)"
proof -
  have x: "addressable ''x''" by (simp add: addressable_def proper_def)
  obtain hr where hr: "client_set_request demo_client ''x'' (bytes_of ''hi'') 0 = Some hr"
    by (simp add: client_set_request_def key_request)
  obtain hr' where hr': "client_get_request demo_client ''x'' = Some hr'"
    by (simp add: client_get_request_def key_request)
  have hi: "valid_utf8 (string_of (bytes_of ''hi''))" by (simp add: valid_ascii)
  then have p: "demo_put = \<lparr>put_Value = json_string (string_of (bytes_of ''hi'')), put_TTLSeconds = (if 0 > (0 :: int) then Some 0 else None)\<rparr>"
    by (simp add: demo_put_def valid_utf8_def)
  obtain msgs a where "handlePutKey demo_io ''x'' (Some demo_put) demo_api = (writeJSON 200 (PutResponse 60), msgs, a)"
    using demo_put_answer by blast
  then obtain api' where put: "client_Do [serve no_static demo_io 5 9] hr demo_api = (Some (writeJSON 200 (PutResponse 60)), api')"
    using put_key_served [OF x demo_client hr p, of demo_io demo_api _ msgs a no_static 5 9 "[]"] by blast
  obtain answer' api'' where get: "client_Do [serve no_static demo_io 5 9] hr' api' = (answer', api'')"
    by (cases "client_Do [serve no_static demo_io 5 9] hr' api'")
  have "client_Set (Some (writeJSON 200 (PutResponse 60))) = Inr 60" by (simp add: client_Set_def writeJSON_def)
  from client_set_then_get [OF demo_api(1) demo_client x hr put this _ _ hr' get] hi
  have "client_Get answer' = Inr (bytes_of ''hi'', 60)" by (simp add: valid_utf8_def)
  with hr hr' put get show ?thesis by blast
qed

text \<open>Paths below \<open>/v1\<close> that no route matches.\<close>

lemma no_route:
  assumes "path \<in> {''/v1/kv/'', ''/v1/kv'', ''/v1'', ''/v1/''}"
  shows "tree_match m path = None"
proof -
  have "matchPath ps path = None" if "(m, ps, e) \<in> set routes" for m ps e
    using that assms by (auto simp: routes_def firstSegment_def pathUnescape_plain)
  then have "List.map_filter (\<lambda>(m', ps, e). if m' = m then map_option (\<lambda>caps. (ps, e, caps)) (matchPath ps path) else None) routes = []" for m
    by (auto simp: List.map_filter_def filter_empty_conv split: if_splits)
  then show ?thesis by (simp add: tree_match_def match_method_def)
qed

lemma unrouted:
  assumes "path \<in> {''/v1/kv/'', ''/v1/kv'', ''/v1''}" "cleanPath p = path" "m \<noteq> ''CONNECT''" "EscapedPath u = p" "u_RawQuery u = []"
  shows "findHandler m u = (if p = path then NotFound else Redirected path)"
proof -
  have none: "tree_match m' path = None" "\<not> ends_slash path \<Longrightarrow> tree_match m' (path @ ''/'') = None" for m'
    using assms(1) no_route [of path m'] no_route [of "path @ ''/''" m'] by (auto simp: ends_slash_def)
  then have "matchingMethods path = []" by (auto simp: matchingMethods_def)
  moreover have "url_escape encodePath path = path"
    using assms(1) by (auto simp: url_escape_def escape_char_def shouldEscape_def alphanumeric_def)
  ultimately show ?thesis using none assms(2-5) by (auto simp: findHandler_def Let_def exactMatch_def with_query_def)
qed

lemma serve_unrouted:
  assumes "rooted (hr_target hr)" "ParseRequestURI (hr_target hr) = Some u" "EscapedPath u = p" "u_RawQuery u = []" "hr_method hr \<noteq> ''CONNECT''"
    and "path \<in> {''/v1/kv/'', ''/v1/kv'', ''/v1''}" "cleanPath p = path"
  shows "\<exists>mc. serve files io t t' hr api =
    (if p = path then http_Error 404 ''404 page not found'' else moved path, [], api\<lparr>api_metrics := mc\<rparr>)"
proof -
  have "mux_ServeHTTP files io hr u api =
      Inr (if p = path then http_Error 404 ''404 page not found'' else moved path, [], api)"
    using unrouted [OF assms(6,7,5,3,4)] rooted_not_star(1) [OF assms(1)] by (simp add: mux_ServeHTTP_def)
  from serve_rooted [OF assms(1,2) this] show ?thesis by (auto simp: answered_def RecoveryMiddleware_def)
qed

lemma unaddressable_escaped:
  assumes "key \<in> {[], ''.'', ''..''}"
  shows "PathEscape key = key" "cleanPath (''/v1/kv/'' @ key) = (if key = [] then ''/v1/kv/'' else if key = ''.'' then ''/v1/kv'' else ''/v1'')"
  using assms by (auto simp: url_escape_def escape_char_def shouldEscape_def cleanPath_def path_Clean_def Let_def)

lemma unaddressable_answer:
  assumes "key \<in> {[], ''.'', ''..''}" "m \<noteq> ''CONNECT''" "m \<noteq> ''HEAD''"
    and "hr = \<lparr>hr_method = m, hr_target = ''/v1/kv/'' @ PathEscape key, hr_put = put, hr_replicate = None\<rparr>"
  shows "\<exists>mc. client_Do (serve files io t t' # serve files io' u u' # srvs) hr api =
    (Some (http_Error 404 ''404 page not found''), api\<lparr>api_metrics := mc\<rparr>)"
proof -
  note esc = unaddressable_escaped [OF assms(1)]
  obtain w where w: "rooted (hr_target hr)" "ParseRequestURI (hr_target hr) = Some w" "EscapedPath w = ''/v1/kv/'' @ key" "u_RawQuery w = []"
    using parse_key_target [of key] assms(4) esc(1) by auto
  obtain mc where first: "serve files io t t' hr api = (if key = [] then http_Error 404 ''404 page not found''
      else moved (if key = ''.'' then ''/v1/kv'' else ''/v1''), [], api\<lparr>api_metrics := mc\<rparr>)"
    using serve_unrouted [OF w, of _ files io t t' api, OF _ _ esc(2)] assms(1,2,4) by (auto split: if_splits)
  show ?thesis
  proof (cases "key = []")
    case True
    with first show ?thesis by (auto simp: http_Error_def)
  next
    case False
    define path where "path = (if key = ''.'' then ''/v1/kv'' else ''/v1'')"
    let ?hr = "\<lparr>hr_method = ''GET'', hr_target = path, hr_put = None, hr_replicate = None\<rparr>"
    have path: "path \<in> {''/v1/kv/'', ''/v1/kv'', ''/v1''}" "plain_path path" "cleanPath path = path"
      by (simp_all add: path_def plain_path_def alphanumeric_def cleanPath_def path_Clean_def Let_def)
    have "ParseRequestURI (hr_target ?hr) = Some \<lparr>u_Path = path, u_RawPath = [], u_RawQuery = []\<rparr>"
      using parse_plain_target [OF path(2), of "[]"] by (simp add: with_query_def)
    from serve_unrouted [OF _ this EscapedPath_plain [OF path(2)] _ _ path(1,3), of files io' u u' "api\<lparr>api_metrics := mc\<rparr>"] plain_path_rooted [OF path(2)]
    obtain mc' where "serve files io' u u' ?hr (api\<lparr>api_metrics := mc\<rparr>) =
        (http_Error 404 ''404 page not found'', [], api\<lparr>api_metrics := mc'\<rparr>)" by auto
    then show ?thesis using first False assms(3,4) by (auto simp: moved_def http_Error_def path_def)
  qed
qed

text \<open>
  C33. Keys that the URL scheme cannot carry: for the empty key, \<open>.\<close> and \<open>..\<close> no call of the
  client reaches a handler (no route takes an empty segment, which is a plain 404; \<open>.\<close> and \<open>..\<close> are
  cleaned away and redirected first), so the store keeps its contents; \<open>Get\<close> reports a missing key, and \<open>Set\<close> and \<open>Delete\<close> fail with an unexpected
  status.
\<close>

theorem unaddressable_key_fails:
  assumes "plain_addr (c_addr c)" "key \<in> {[], ''.'', ''..''}"
    and "client_get_request c key = Some hr \<or> client_set_request c key val ttl = Some hr \<or> client_delete_request c key = Some hr"
    and "client_Do (serve files io t t' # serve files io' u u' # srvs) hr api = (answer, api')"
  shows "api_store api' = api_store api \<and> client_Get answer = Inl ErrKeyNotFound \<and>
    client_Set answer = Inl (UnexpectedStatus 404) \<and> client_Delete answer = Inl (UnexpectedStatus 404)"
proof -
  obtain m put where "m \<in> {''GET'', ''PUT'', ''DELETE''}"
    "hr = \<lparr>hr_method = m, hr_target = ''/v1/kv/'' @ PathEscape key, hr_put = put, hr_replicate = None\<rparr>"
    using assms(3) by (auto simp: client_get_request_def client_set_request_def client_delete_request_def key_request [OF assms(1)])
  then obtain mc where "answer = Some (http_Error 404 ''404 page not found'')" "api' = api\<lparr>api_metrics := mc\<rparr>"
    using unaddressable_answer [OF assms(2), of m hr put files io t t' io' u u' srvs api] assms(4) by auto
  then show ?thesis by (simp add: client_Get_def client_Set_def client_Delete_def http_Error_def)
qed

theorem unaddressable_key_fails_witness:
  "\<exists>hr. client_set_request demo_client ''..'' [7] 0 = Some hr \<and>
     client_Set (fst (client_Do (replicate 10 (serve no_static demo_io 5 9)) hr demo_api)) = Inl (UnexpectedStatus 404)"
proof -
  obtain hr where hr: "client_set_request demo_client ''..'' [7] 0 = Some hr"
    by (simp add: client_set_request_def key_request)
  let ?srv = "serve no_static demo_io 5 9"
  obtain answer api' where run: "client_Do (?srv # ?srv # replicate 8 ?srv) hr demo_api = (answer, api')"
    by (cases "client_Do (?srv # ?srv # replicate 8 ?srv) hr demo_api")
  have ten: "replicate 10 ?srv = ?srv # ?srv # replicate 8 ?srv" by (simp add: numeral_eq_Suc)
  have "client_Set answer = Inl (UnexpectedStatus 404)"
    using unaddressable_key_fails [of demo_client "''..''" hr "[7]" 0, OF demo_client _ _ run] hr by simp
  with hr run show ?thesis unfolding ten by auto
qed

text \<open>
  C26. Listing through the client: \<open>ListKeys\<close> never fails; it returns the first \<open>limit\<close> (100 if
  not positive, at most 1000) of the live keys that have the prefix and follow the cursor, in
  order, and the cursor of the next page exactly if keys remain, each as JSON carries it.
\<close>

theorem client_list_page:
  assumes "api_inv api" "visits (io_shards io) (api_store api)" "plain_addr (c_addr c)" "limit < 2 ^ 63"
    and "int (card (matching (io_clock io 0) prefix (api_store api))) + 1000 < 2 ^ 63"
    and "rest = after_cursor cursor (sorted_list_of_set (matching (io_clock io 0) prefix (api_store api)))"
    and "n = nat (if limit \<le> 0 then 100 else min limit 1000)"
    and "client_list_request c prefix limit cursor = Some hr"
    and "client_Do (serve files io t t' # srvs) hr api = (answer, api')"
  shows "client_ListKeys answer = Inr (map json_string (take n rest),
    json_string (if n < length rest then last (take n rest) else []))"
proof -
  let ?lim = "if limit > 0 then Itoa limit else []"
  have n: "n = nat (list_limit ?lim)"
    using Atoi_Itoa [of limit] assms(4,7) by (auto simp: list_limit_def Atoi_def min_def)
  obtain r where r: "handleListKeys io prefix ?lim cursor api = Inr r"
    "r = writeJSON 200 (KeysResponse (take n rest) (if n < length rest then last (take n rest) else []))"
    using list_keys_page [OF assms(1,2,5,6), of ?lim] n by auto
  then have "answer = Some r" using list_served [OF assms(3,8) r(1), of files t t' srvs] assms(9) by auto
  with r(2) show ?thesis by (simp add: client_ListKeys_def writeJSON_def)
qed

theorem client_list_page_witness:
  "\<exists>hr. client_list_request demo_client [] 5000 [] = Some hr \<and>
     client_ListKeys (fst (client_Do [serve no_static demo_io 5 9] hr demo_api)) = Inr ([''k''], [])"
proof -
  obtain hr where hr: "client_list_request demo_client [] 5000 [] = Some hr" by (simp add: list_request)
  obtain answer api' where run: "client_Do [serve no_static demo_io 5 9] hr demo_api = (answer, api')"
    by (cases "client_Do [serve no_static demo_io 5 9] hr demo_api")
  have k: "json_string ''k'' = ''k''" "json_string [] = []"
    using valid_ascii [of "''k''"] valid_ascii [of "[]"] by (simp_all add: valid_utf8_def)
  have "client_ListKeys answer = Inr ([''k''], [])"
    using client_list_page [OF demo_api(1) _ demo_client _ _ _ _ hr run, of "[''k'']" 1000] k
    by (simp add: after_cursor_def)
  with hr run show ?thesis by simp
qed

text \<open>
  What a client learns from a node's status: its name as JSON carries it, its role, the size of
  its store and the number of peers it holds for alive, but always 1024 for the size of the log,
  whatever the log holds.
\<close>

theorem client_status_reports:
  assumes "plain_addr (c_addr c)" "client_status_request c = Some hr"
    and "client_Do (serve files io t t' # srvs) hr api = (answer, api')" "keyed (api_pm api)" "ranges (io_peers io) (api_pm api)"
  shows "\<exists>st. client_ClusterStatus answer = Inr st \<and> st_NodeID st = json_string (cfg_NodeID (api_cfg api)) \<and>
    (st_Role st = ''seed'' \<longleftrightarrow> cfg_SeedAddress (api_cfg api) = []) \<and> st_StoreSize st = Size (api_store api) \<and>
    st_PeersCount st = int (card {k. \<exists>p. api_pm api k = Some p \<and> State p = StateAlive}) \<and> st_WALSizeBytes st = 1024"
proof -
  have answer: "answer = Some (handleClusterStatus io api)"
    using status_served [OF assms(1,2), of files io t t' srvs api] assms(3) by auto
  have "json_string ''seed'' = ''seed''" "json_string ''peer'' = ''peer''"
    using valid_ascii [of "''seed''"] valid_ascii [of "''peer''"] by (simp_all add: valid_utf8_def)
  then show ?thesis
    using GetAll_count [OF assms(4,5), of "\<lambda>p. State p = StateAlive"]
    by (simp add: answer client_ClusterStatus_def handleClusterStatus_def writeJSON_def Let_def)
qed

theorem client_status_reports_witness:
  "\<exists>hr answer api' st. client_status_request demo_client = Some hr \<and>
     client_Do [serve no_static demo_io 5 9] hr demo_api = (answer, api') \<and>
     client_ClusterStatus answer = Inr st \<and> st_PeersCount st = 1 \<and> st_WALSizeBytes st = 1024"
proof -
  let ?p = "''/v1/cluster/status''"
  have path: "plain_path ?p" by (simp add: plain_path_def alphanumeric_def)
  then have "ParseRequestURI ?p = Some \<lparr>u_Path = ?p, u_RawPath = [], u_RawQuery = []\<rparr>"
    using parse_plain_target [of ?p "[]"] by (simp add: with_query_def)
  moreover have "url_target (c_addr demo_client @ ?p) = Some ?p" by (rule url_target_plain [OF demo_client]) simp_all
  ultimately obtain hr where hr: "client_status_request demo_client = Some hr"
    by (simp add: client_status_request_def NewRequest_def)
  obtain answer api' where run: "client_Do [serve no_static demo_io 5 9] hr demo_api = (answer, api')"
    by (cases "client_Do [serve no_static demo_io 5 9] hr demo_api")
  have "{k. \<exists>p. demo_remote StateAlive k = Some p \<and> State p = StateAlive} = {''b''}"
    by (auto simp: demo_remote_def new_peer_def split: if_splits)
  then have "\<exists>st. client_ClusterStatus answer = Inr st \<and> st_PeersCount st = 1 \<and> st_WALSizeBytes st = 1024"
    using client_status_reports [OF demo_client hr run] by simp blast
  with hr run show ?thesis by blast
qed

end
