(* ===== verification/KV_Cluster.thy ===== *)
theory KV_Cluster
  imports KV_Router
begin

text \<open>
  Several nodes and the replication requests between them (\<open>Replicate\<close> and \<open>replicateToPeer\<close> in
  \<open>internal/cluster/replication.go\<close>, \<open>handleInternalReplicate\<close> in \<open>internal/api/handlers.go\<close>).
  Nodes are known by the address they listen at. A request of a client runs a node's handler and
  puts one message per peer on the wire; a message reaches the node at the peer's address, or
  fails; its outcome travels back and updates the sender's lag accounting. Messages are
  delivered in any order, each at most once, which is what one HTTP request per write gives. Each
  request runs without interference on its node; what happens inside one is the subject of
  theory \<open>KV_Concurrent\<close>.
\<close>

section \<open>The cluster\<close>

datatype message =
    Replicating string Peer ReplicateRequest
  | Outcome string Peer uint64 send_result

record cluster =
  cl_nodes :: "string \<rightharpoonup> API"
  cl_wire :: "message multiset"

datatype event =
    Requested string api_io http_request response
  | Delivered api_io string Peer ReplicateRequest response
  | Failed string Peer ReplicateRequest
  | TimedOut string Peer uint64
  | Finished string Peer uint64 send_result
  | Reaped string
  | Gossiped string

definition put_node :: "string \<Rightarrow> API \<Rightarrow> cluster \<Rightarrow> cluster" where
  "put_node a api c = c\<lparr>cl_nodes := (cl_nodes c)(a \<mapsto> api)\<rparr>"

definition send :: "message multiset \<Rightarrow> cluster \<Rightarrow> cluster" where
  "send ms c = c\<lparr>cl_wire := cl_wire c + ms\<rparr>"

definition take_off :: "message \<Rightarrow> cluster \<Rightarrow> cluster" where
  "take_off m c = c\<lparr>cl_wire := cl_wire c - {#m#}\<rparr>"

text \<open>Where a handler ranges over the membership table, it visits every entry once.\<close>

definition orders_ok :: "api_io \<Rightarrow> http_request \<Rightarrow> API \<Rightarrow> bool" where
  "orders_ok io hr api =
     (case request_of hr of Some (ReqPing _ _) \<Rightarrow> True | _ \<Rightarrow> ranges (io_peers io) (api_pm api))"

inductive net_step :: "cluster \<Rightarrow> event \<Rightarrow> cluster \<Rightarrow> bool" where
  requested: "cl_nodes c a = Some api \<Longrightarrow> orders_ok io hr api \<Longrightarrow> serve files io t t' hr api = (r, msgs, api') \<Longrightarrow>
    net_step c (Requested a io hr r) (send (mset (map (\<lambda>(p, rq). Replicating a p rq) msgs)) (put_node a api' c))"
| delivered: "Replicating a p rq \<in># cl_wire c \<Longrightarrow> cl_nodes c a = Some sender \<Longrightarrow> cl_nodes c (Address p) = Some api \<Longrightarrow>
    replicate_http (rp_nodeID (api_replicator sender)) rq = Some hr \<Longrightarrow> serve files io t t' hr api = (r, msgs, api') \<Longrightarrow>
    net_step c (Delivered io a p rq r)
      (send {#Outcome a p (rq_Version rq) (Answered (rs_status r))#} (put_node (Address p) api' (take_off (Replicating a p rq) c)))"
| failed: "Replicating a p rq \<in># cl_wire c \<Longrightarrow> result \<noteq> Answered 200 \<Longrightarrow>
    net_step c (Failed a p rq) (send {#Outcome a p (rq_Version rq) result#} (take_off (Replicating a p rq) c))"
| timed_out: "Outcome a p v (Answered code) \<in># cl_wire c \<Longrightarrow>
    net_step c (TimedOut a p v) (send {#Outcome a p v SendFailed#} (take_off (Outcome a p v (Answered code)) c))"
| finished: "Outcome a p v result \<in># cl_wire c \<Longrightarrow> cl_nodes c a = Some api \<Longrightarrow>
    net_step c (Finished a p v result)
      (put_node a (api\<lparr>api_pm := replicateToPeer_done p v result (api_replicator api) (api_pm api)\<rparr>)
        (take_off (Outcome a p v result) c))"
| reaped: "cl_nodes c a = Some api \<Longrightarrow>
    net_step c (Reaped a) (put_node a (api\<lparr>api_store := reap now order (api_store api)\<rparr>) c)"
| pinged: "cl_nodes c a = Some api \<Longrightarrow>
    net_step c (Gossiped a) (put_node a (api\<lparr>api_pm := pingPeer (api_gossip api) pc p result (api_pm api)\<rparr>) c)"
| checked: "cl_nodes c a = Some api \<Longrightarrow>
    net_step c (Gossiped a) (put_node a (api\<lparr>api_pm := checkSuspicious (api_gossip api) now clk order (api_pm api)\<rparr>) c)"

inductive net_run :: "cluster \<Rightarrow> event list \<Rightarrow> cluster \<Rightarrow> bool" for c where
  run_nil: "net_run c [] c"
| run_step: "net_run c es c' \<Longrightarrow> net_step c' e c'' \<Longrightarrow> net_run c (es @ [e]) c''"

lemma put_node_simps [simp]: "cl_nodes (put_node a api c) = (cl_nodes c)(a \<mapsto> api)" "cl_wire (put_node a api c) = cl_wire c"
  by (simp_all add: put_node_def)

lemma send_simps [simp]: "cl_nodes (send ms c) = cl_nodes c" "cl_wire (send ms c) = cl_wire c + ms"
  by (simp_all add: send_def)

lemma take_off_simps [simp]: "cl_nodes (take_off m c) = cl_nodes c" "cl_wire (take_off m c) = cl_wire c - {#m#}"
  by (simp_all add: take_off_def)

section \<open>Nodes stay well formed\<close>

text \<open>An invariant of single nodes that every handler and every background step keeps.\<close>

definition all_nodes :: "(API \<Rightarrow> bool) \<Rightarrow> cluster \<Rightarrow> bool" where
  "all_nodes P c \<longleftrightarrow> (\<forall>a api. cl_nodes c a = Some api \<longrightarrow> P api)"

lemma all_nodes_put: "all_nodes P c \<Longrightarrow> P api \<Longrightarrow> all_nodes P (put_node a api c)"
  by (simp add: all_nodes_def)

lemma all_nodes_wire [simp]: "all_nodes P (send ms c) = all_nodes P c" "all_nodes P (take_off m c) = all_nodes P c"
  by (simp_all add: all_nodes_def)

lemma serve_inv:
  assumes "api_inv api" "serve files io t t' hr api = (r, msgs, api')"
  shows "api_inv api'"
proof (cases "request_of hr")
  case None
  with serve_no_request [OF None assms(2)] assms(1) show ?thesis by auto
next
  case (Some req)
  from serve_request [OF Some, of api io files t t'] assms show ?thesis
    by (auto simp: answered_def RecoveryMiddleware_def split: sum.splits intro: dispatch_inv)
qed

lemma replicateToPeer_done_keyed: "keyed pm \<Longrightarrow> keyed (replicateToPeer_done p v result r pm)"
  by (auto simp: replicateToPeer_done_def UpdateLag_keyed Let_def split: send_result.split)

lemma net_step_inv:
  assumes "net_step c e c'" "all_nodes api_inv c"
  shows "all_nodes api_inv c'"
  using assms
proof (cases rule: net_step.cases)
  case (requested a api io hr files t t' r msgs api')
  then show ?thesis using assms(2) serve_inv [of api files io t t' hr r msgs api'] all_nodes_put [OF assms(2)]
    by (auto simp: all_nodes_def)
next
  case (delivered a p rq sender api hr files io t t' r msgs api')
  then show ?thesis using assms(2) serve_inv [of api files io t t' hr r msgs api']
    by (auto simp: all_nodes_def)
next
  case (finished a p v result api)
  then show ?thesis using assms(2) replicateToPeer_done_keyed by (auto simp: all_nodes_def api_inv_def)
next
  case (reaped a api now order)
  then show ?thesis using assms(2) reap_inv by (auto simp: all_nodes_def api_inv_def)
next
  case (pinged a api pc p result)
  then show ?thesis using assms(2) pingPeer_keyed by (auto simp: all_nodes_def api_inv_def)
next
  case (checked a api now clk order)
  then show ?thesis using assms(2) checkSuspicious_keyed by (auto simp: all_nodes_def api_inv_def)
qed simp_all

lemma net_run_inv: "net_run c es c' \<Longrightarrow> all_nodes api_inv c \<Longrightarrow> all_nodes api_inv c'"
  by (induction rule: net_run.induct) (auto intro: net_step_inv)

section \<open>Where values come from\<close>

fun offers :: "request \<Rightarrow> (string \<times> bytes) set" where
  "offers (ReqPutKey k (Some pr)) = {(k, bytes_of (put_Value pr))}"
| "offers (ReqReplicate (Some rq)) = (if rq_Action rq = ''SET'' then {(rq_Key rq, rq_Value rq)} else {})"
| "offers _ = {}"

lemma Set_source:
  assumes "store_inv s" "Set io now now' k v ttl ver s = (r, s')" "contents s' k' = Some e"
  shows "contents s k' = Some e \<or> (k' = k \<and> Value e = v)"
  using assms(1,2)
proof (cases rule: Set_phases)
  case (applied s1)
  with assms(3) show ?thesis by (auto simp: Set_apply_contents lww_put_def split: option.splits if_splits)
qed (use assms(3) in simp)

lemma Delete_source:
  assumes "store_inv s" "Delete io now k ver s = (r, s')" "contents s' k' = Some e"
  shows "contents s k' = Some e"
  using assms(1,2)
proof (cases rule: Delete_phases)
  case (applied s1)
  with assms(3) show ?thesis by (auto simp: Delete_apply_contents lww_remove_def split: option.splits if_splits)
qed (use assms(3) in simp)

lemma Get_source:
  assumes "store_inv s" "Get now now' k s = (r, s')" "contents s' k' = Some e"
  shows "contents s k' = Some e"
  using assms Get_reap_contents [OF assms(1), of now' k]
  by (auto simp: Get_def split: option.splits if_splits)

lemma reap_source:
  assumes "store_inv s" "contents (reap now order s) k = Some e"
  shows "contents s k = Some e"
  using assms reap_step [OF assms(1) order_refl, of now order]
  by (auto simp: reap_def live_def split: if_splits option.splits)

lemma dispatch_source:
  assumes "api_inv api" "dispatch io req api = Inr (r, msgs, api')" "contents (api_store api') k = Some e"
  shows "contents (api_store api) k = Some e \<or> (k, Value e) \<in> offers req"
proof -
  have inv: "store_inv (api_store api)" using assms(1) by (simp add: api_inv_def)
  note sources = Set_source [OF inv] Delete_source [OF inv] Get_source [OF inv]
  show ?thesis
  proof (cases req)
    case (ReqGetKey key)
    with assms(2,3) show ?thesis
      by (auto simp: handleGetKey_def split: if_splits prod.splits option.splits dest: sources(3))
  next
    case (ReqPutKey key body)
    with assms(2,3) show ?thesis
      by (cases body) (auto simp: handlePutKey_def Let_def split: if_splits prod.splits sum.splits dest: sources(1))
  next
    case (ReqDeleteKey key)
    with assms(2,3) show ?thesis
      by (auto simp: handleDeleteKey_def Let_def split: if_splits prod.splits sum.splits dest: sources(2))
  next
    case (ReqReplicate body)
    with assms(2,3) show ?thesis
      by (cases body) (auto simp: handleInternalReplicate_def Let_def split: if_splits prod.splits sum.splits option.splits
          dest: sources(1,2))
  qed (use assms(2,3) in \<open>auto simp: handleInternalPing_def Let_def split: sum.splits\<close>)
qed

definition from_offer :: "(string \<times> bytes) set \<Rightarrow> ReplicateRequest \<Rightarrow> bool" where
  "from_offer S rq \<longleftrightarrow> rq_Action rq = ''DELETE'' \<or> (rq_Action rq = ''SET'' \<and> (rq_Key rq, rq_Value rq) \<in> S)"

lemma dispatch_messages:
  assumes "dispatch io req api = Inr (r, msgs, api')" "(p, rq) \<in> set msgs"
  shows "from_offer (offers req) rq"
proof (cases req)
  case (ReqPutKey key body)
  with assms show ?thesis
    by (cases body) (auto simp: handlePutKey_def Let_def Replicate_def replicate_request_def from_offer_def split: if_splits prod.splits sum.splits)
next
  case (ReqDeleteKey key)
  with assms show ?thesis
    by (auto simp: handleDeleteKey_def Let_def Replicate_def replicate_request_def from_offer_def split: if_splits prod.splits sum.splits)
qed (use assms(1,2) in \<open>auto split: prod.splits sum.splits\<close>)

text \<open>What clients asked to store, and the form it has after a hop between nodes.\<close>

definition offers_of :: "http_request \<Rightarrow> (string \<times> bytes) set" where
  "offers_of hr = (case request_of hr of None \<Rightarrow> {} | Some req \<Rightarrow> offers req)"

fun event_offers :: "event \<Rightarrow> (string \<times> bytes) set" where
  "event_offers (Requested a io hr r) = offers_of hr"
| "event_offers _ = {}"

definition offered :: "event list \<Rightarrow> (string \<times> bytes) set" where
  "offered es = (\<Union>e \<in> set es. event_offers e)"

definition carried :: "(string \<times> bytes) set \<Rightarrow> (string \<times> bytes) set" where
  "carried S = S \<union> (\<lambda>(k, v). (json_string k, v)) ` S"

definition traced :: "(string \<times> bytes) set \<Rightarrow> cluster \<Rightarrow> bool" where
  "traced S c \<longleftrightarrow> all_nodes (\<lambda>api. \<forall>k e. contents (api_store api) k = Some e \<longrightarrow> (k, Value e) \<in> carried S) c \<and>
     (\<forall>a p rq. Replicating a p rq \<in># cl_wire c \<longrightarrow> from_offer S rq)"

lemma serve_source:
  assumes "api_inv api" "serve files io t t' hr api = (r, msgs, api')"
  shows "(contents (api_store api') k = Some e \<longrightarrow> contents (api_store api) k = Some e \<or> (k, Value e) \<in> offers_of hr) \<and>
    ((p, rq) \<in> set msgs \<longrightarrow> from_offer (offers_of hr) rq)"
proof (cases "request_of hr")
  case None
  with serve_no_request [OF None assms(2)] show ?thesis by auto
next
  case (Some req)
  from serve_request [OF Some, of api io files t t'] assms(2) show ?thesis
    by (cases "dispatch io req api")
      (auto simp: answered_def RecoveryMiddleware_def offers_of_def Some
        dest: dispatch_source [OF assms(1)] dispatch_messages)
qed

lemma carried_mono: "S \<subseteq> T \<Longrightarrow> carried S \<subseteq> carried T"
  by (auto simp: carried_def)

lemma traced_mono: "traced S c \<Longrightarrow> S \<subseteq> T \<Longrightarrow> traced T c"
  using carried_mono [of S T] unfolding traced_def all_nodes_def from_offer_def by blast

text \<open>Steps that only remove entries or messages.\<close>

lemma traced_shrink:
  assumes "traced S c" "\<And>m. m \<in># cl_wire c' \<Longrightarrow> m \<in># cl_wire c \<or> (\<forall>a p rq. m \<noteq> Replicating a p rq)"
    and "\<And>a api' k e. cl_nodes c' a = Some api' \<Longrightarrow> contents (api_store api') k = Some e \<Longrightarrow>
      \<exists>api. cl_nodes c a = Some api \<and> contents (api_store api) k = Some e"
  shows "traced S c'"
  unfolding traced_def all_nodes_def
proof (intro conjI allI impI)
  fix a api' k e assume "cl_nodes c' a = Some api'" "contents (api_store api') k = Some e"
  then obtain api where "cl_nodes c a = Some api" "contents (api_store api) k = Some e" using assms(3) by blast
  with assms(1) show "(k, Value e) \<in> carried S" unfolding traced_def all_nodes_def by blast
next
  fix a p rq assume "Replicating a p rq \<in># cl_wire c'"
  with assms(1,2) show "from_offer S rq" unfolding traced_def by blast
qed

lemma json_action:
  assumes "from_offer S rq" "replicate_http node rq = Some hr"
  shows "offers_of hr \<subseteq> carried S"
proof -
  have "json_string ''SET'' = ''SET''" "json_string ''DELETE'' = ''DELETE''"
    using valid_ascii [of "''SET''"] valid_ascii [of "''DELETE''"] by (simp_all add: valid_utf8_def)
  then show ?thesis using assms(1)
    by (auto simp: from_offer_def offers_of_def replicate_routed [OF assms(2)] json_request_def carried_def)
qed

lemma traced_step:
  assumes "net_step c e c'" "all_nodes api_inv c" "traced S c"
  shows "traced (S \<union> event_offers e) c'"
  using assms(1)
proof (cases rule: net_step.cases)
  case (requested a api io hr files t t' r msgs api')
  have "api_inv api" using assms(2) requested by (simp add: all_nodes_def)
  note src = serve_source [OF this requested(5)]
  have old: "traced (S \<union> offers_of hr) c" using traced_mono [OF assms(3)] by blast
  have "(k, Value e') \<in> carried (S \<union> offers_of hr)" if "contents (api_store api') k = Some e'" for k e'
    using src [of k e'] that old requested(3) unfolding traced_def all_nodes_def carried_def by blast
  moreover have "from_offer (S \<union> offers_of hr) rq" if "(p, rq) \<in> set msgs" for p rq
    using src [of _ _ p rq] that by (auto simp: from_offer_def)
  ultimately show ?thesis using old requested(1,2)
    by (auto simp: traced_def all_nodes_def image_iff)
next
  case (delivered a p rq sender api hr files io t t' r msgs api')
  have "api_inv api" using assms(2) delivered by (simp add: all_nodes_def)
  note src = serve_source [OF this delivered(7)]
  have "from_offer S rq" using assms(3) delivered(3) by (auto simp: traced_def)
  from json_action [OF this delivered(6)] have "offers_of hr \<subseteq> carried S" .
  then have "(k, Value e') \<in> carried S" if "contents (api_store api') k = Some e'" for k e'
    using src [of k e'] that assms(3) delivered(5) unfolding traced_def all_nodes_def by blast
  then show ?thesis using assms(3) delivered(1,2) by (auto simp: traced_def all_nodes_def dest: in_diffD)
next
  case (reaped a api now order)
  have "store_inv (api_store api)" using assms(2) reaped by (simp add: all_nodes_def api_inv_def)
  then show ?thesis using assms(3) reaped reap_source [of "api_store api" now order]
    by (intro traced_shrink [OF traced_mono [OF assms(3)]]) (auto split: if_splits)
qed (use assms(3) in \<open>auto intro!: traced_shrink [OF assms(3)] dest: in_diffD split: if_splits\<close>)

lemma traced_run:
  assumes "net_run c es c'" "all_nodes api_inv c" "traced {} c"
  shows "traced (offered es) c'"
  using assms
proof (induction rule: net_run.induct)
  case (run_step es c' e c'')
  from traced_step [OF run_step(2) net_run_inv [OF run_step(1,4)] run_step(3) [OF run_step(4,5)]] show ?case
    by (simp add: offered_def Un_commute)
qed (simp add: offered_def)

section \<open>A write that arrives\<close>

lemma put_delivered_http:
  assumes "handlePutKey io key (Some req) api = (r, msgs, api')" "rs_status r = 200" "rs_body r = PutResponse v" "v \<noteq> 0"
    and "(p, rq) \<in> set msgs" "api_inv b" "wal_ready (api_store b)" "io_log io' = io_ok" "length (json_string key) \<le> 65535"
    and "replicate_http node rq = Some hr" "serve files io' t t' hr b = (r', msgs', b')"
  shows "rs_status r' = 200 \<and> msgs' = [] \<and> api_inv b' \<and>
    values_of (contents (api_store b')) =
      lww_put snd (json_string key) (bytes_of (put_Value req), v) (values_of (contents (api_store b)))"
proof -
  obtain x repl where "Replicate (io_peers io) key (bytes_of (put_Value req)) v x ''SET'' (api_pm api) (api_replicator api) = (msgs, repl)"
    using handlePutKey_ok [OF assms(1,2)] assms(3) by (auto simp: writeJSON_def)
  then have "rq = replicate_request key (bytes_of (put_Value req)) v x ''SET''" using assms(5) by (auto simp: Replicate_def Let_def)
  moreover have "json_string ''SET'' = ''SET''" using valid_ascii [of "''SET''"] by (simp add: valid_utf8_def)
  ultimately have rq: "rq_Key (json_request rq) = json_string key" "rq_Value (json_request rq) = bytes_of (put_Value req)"
    "rq_Version (json_request rq) = v" "rq_Action (json_request rq) = ''SET''"
    by (simp_all add: replicate_request_def Let_def json_request_def)
  obtain v' s' where "Set io_ok (io_clock io' 1) (io_clock io' 2) (json_string key) (bytes_of (put_Value req))
      (replica_ttl (io_clock io' 0) (rq_ExpiresAt (json_request rq))) v (api_store b) = (Inr v', s')" "store_inv s'"
    "values_of (contents s') = lww_put snd (json_string key) (bytes_of (put_Value req), v) (values_of (contents (api_store b)))"
    using replicated_Set [of "api_store b" "json_string key" v] assms(4,6,7,9) unfolding api_inv_def by metis
  then have handled: "handleInternalReplicate io' (Some (json_request rq)) b = (\<lparr>rs_status = 200, rs_body = NoBody\<rparr>, b\<lparr>api_store := s'\<rparr>)"
    and s': "api_inv (b\<lparr>api_store := s'\<rparr>)"
      "values_of (contents s') = lww_put snd (json_string key) (bytes_of (put_Value req), v) (values_of (contents (api_store b)))"
    using assms(6,8) rq by (simp_all add: handleInternalReplicate_def Let_def api_inv_def)
  have "answered b (dispatch io' (ReqReplicate (Some (json_request rq))) b) (r', msgs', b')"
    using serve_request [OF replicate_routed [OF assms(10)], of b io' files t t'] assms(11) by simp
  then obtain mc b0 where "RecoveryMiddleware b (dispatch io' (ReqReplicate (Some (json_request rq))) b) = (r', msgs', b0)"
    and b': "b' = b0\<lparr>api_metrics := mc\<rparr>" by (rule answered_out)
  then have "r' = \<lparr>rs_status = 200, rs_body = NoBody\<rparr>" "msgs' = []" "b0 = b\<lparr>api_store := s'\<rparr>"
    using handled by (auto simp: RecoveryMiddleware_def)
  with s' show ?thesis by (simp add: b')
qed

lemma net_step_dom: "net_step c e c' \<Longrightarrow> dom (cl_nodes c') = dom (cl_nodes c)"
  by (induction rule: net_step.induct) (auto simp: insert_absorb split: if_splits)

lemma net_run_dom: "net_run c es c' \<Longrightarrow> dom (cl_nodes c') = dom (cl_nodes c)"
  by (induction rule: net_run.induct) (simp_all add: net_step_dom)

text \<open>What a GET answers is stored.\<close>

lemma read_stored:
  assumes "api_inv api" "handleGetKey io key api = (r, api')" "rs_body r = GetResponse val v"
  shows "\<exists>e. contents (api_store api) key = Some e \<and> val = string_of (Value e)"
proof -
  obtain res s' where get: "Get (io_clock io 0) (io_clock io 1) key (api_store api) = (res, s')" by fastforce
  with assms(2,3) obtain x where "res = Some (x, v)" "val = string_of x"
    by (auto simp: handleGetKey_def writeJSON_def split: if_splits option.splits)
  with get show ?thesis by (auto simp: Get_def contents_def split: option.splits if_splits)
qed

section \<open>A concrete run\<close>

definition demo_node :: "string \<Rightarrow> string \<Rightarrow> API" where
  "demo_node i j = demo_api\<lparr>api_store := NewStore None, api_replicator := NewReplicator i 500,
     api_pm := [j \<mapsto> (new_peer j (j @ '':1''))\<lparr>State := StateAlive\<rparr>]\<rparr>"

definition demo_cluster :: cluster where
  "demo_cluster = \<lparr>cl_nodes = [''a:1'' \<mapsto> demo_node ''a'' ''b'', ''b:1'' \<mapsto> demo_node ''b'' ''a''], cl_wire = {#}\<rparr>"

definition put_request :: "string \<Rightarrow> http_request" where
  "put_request key = \<lparr>hr_method = ''PUT'', hr_target = ''/v1/kv/'' @ PathEscape key, hr_put = Some demo_put, hr_replicate = None\<rparr>"

lemma demo_node [simp]: "api_inv (demo_node i j)" "contents (api_store (demo_node i j)) = Map.empty" "wal_ready (api_store (demo_node i j))"
  "rp_nodeID (api_replicator (demo_node i j)) = i" "api_pm (demo_node ''a'' ''b'') = demo_remote StateAlive"
  by (auto simp: demo_node_def api_inv_def keyed_def wal_ready_def NewReplicator_def new_peer_def demo_remote_def NewStore_inv
      split: if_splits)

lemma demo_cluster [simp]: "all_nodes api_inv demo_cluster" "cl_wire demo_cluster = {#}"
  "cl_nodes demo_cluster ''a:1'' = Some (demo_node ''a'' ''b'')" "cl_nodes demo_cluster ''b:1'' = Some (demo_node ''b'' ''a'')"
  by (auto simp: demo_cluster_def all_nodes_def split: if_splits)

lemma put_routed: "addressable key \<Longrightarrow> request_of (put_request key) = Some (ReqPutKey key (Some demo_put))"
  by (rule key_routed [where e = PutKeyE]) (simp_all add: put_request_def routes_def)

text \<open>A PUT at one node and its delivery at the other.\<close>

abbreviation demo_rq :: "string \<Rightarrow> ReplicateRequest" where
  "demo_rq key \<equiv> replicate_request key (bytes_of ''hi'') 60 zero_time ''SET''"

abbreviation demo_hr :: "string \<Rightarrow> http_request" where
  "demo_hr key \<equiv> the (replicate_http ''a'' (demo_rq key))"

lemma demo_hr: "replicate_http ''a'' rq = Some (the (replicate_http ''a'' rq))"
  using replicate_plain [of "''a''" rq] by (auto simp: alphanumeric_def)

lemma demo_put_at_node:
  assumes "key \<noteq> []"
  shows "\<exists>a'. handlePutKey demo_io key (Some demo_put) (demo_node ''a'' ''b'') = (writeJSON 200 (PutResponse 60), [(demo_target, demo_rq key)], a')"
proof -
  have "fst (NextVersion 60 (NewStore None)) = 60" by (simp add: NextVersion_def NewStore_def Let_def UnixNano_def wrap64_def)
  moreover have "contents (snd (NextVersion 60 (NewStore None))) = Map.empty" "wal (snd (NextVersion 60 (NewStore None))) = None"
    by (simp_all add: NextVersion_def Let_def)
  ultimately have "fst (Set io_ok 60 60 key (bytes_of ''hi'') 0 0 (api_store (demo_node ''a'' ''b''))) = Inr 60"
    unfolding demo_node_def
    by (simp add: Set_unfold assign_version_def log_append_def Let_def case_prod_beta Set_apply_result)
  then show ?thesis using demo_put_sent [of key 60 "demo_node ''a'' ''b''" 60] assms by simp
qed

lemma demo_run:
  assumes "addressable key" "key \<noteq> []"
  obtains r r' c' a' mc where "net_run demo_cluster
      [Requested ''a:1'' demo_io (put_request key) r, Delivered demo_io ''a:1'' demo_target (demo_rq key) r'] c'"
    "rs_body r = PutResponse 60" "cl_wire c' = {#Outcome ''a:1'' demo_target 60 (Answered (rs_status r'))#}"
    "dom (cl_nodes c') = {''a:1'', ''b:1''}" "cl_nodes c' ''a:1'' = Some (a'\<lparr>api_metrics := mc\<rparr>)"
    "handlePutKey demo_io key (Some demo_put) (demo_node ''a'' ''b'') = (writeJSON 200 (PutResponse 60), [(demo_target, demo_rq key)], a')"
proof -
  obtain a' where put: "handlePutKey demo_io key (Some demo_put) (demo_node ''a'' ''b'') =
    (writeJSON 200 (PutResponse 60), [(demo_target, demo_rq key)], a')" using demo_put_at_node [OF assms(2)] by blast
  then obtain mc where srv: "serve no_static demo_io 5 9 (put_request key) (demo_node ''a'' ''b'') =
      (writeJSON 200 (PutResponse 60), [(demo_target, demo_rq key)], a'\<lparr>api_metrics := mc\<rparr>)"
    using serve_request [OF put_routed [OF assms(1)], of "demo_node ''a'' ''b''" demo_io no_static 5 9]
    by (auto simp: answered_def RecoveryMiddleware_def)
  have "orders_ok demo_io (put_request key) (demo_node ''a'' ''b'')" using put_routed [OF assms(1)] by (simp add: orders_ok_def)
  from net_step.requested [OF demo_cluster(3) this srv]
  have 1: "net_step demo_cluster (Requested ''a:1'' demo_io (put_request key) (writeJSON 200 (PutResponse 60)))
      (send {#Replicating ''a:1'' demo_target (demo_rq key)#} (put_node ''a:1'' (a'\<lparr>api_metrics := mc\<rparr>) demo_cluster))"
    (is "net_step _ ?e ?c") by simp
  define hr where "hr = the (replicate_http ''a'' (demo_rq key))"
  obtain r' msgs b' where del: "serve no_static demo_io 5 9 hr (demo_node ''b'' ''a'') = (r', msgs, b')"
    by (rule prod_cases3)
  have id: "rp_nodeID (api_replicator (a'\<lparr>api_metrics := mc\<rparr>)) = ''a''"
    using handlePutKey_nodeID [OF put] by simp
  have hr: "replicate_http (rp_nodeID (api_replicator (a'\<lparr>api_metrics := mc\<rparr>))) (demo_rq key) = Some hr"
    unfolding id hr_def by (rule demo_hr)
  have b: "cl_nodes ?c (Address demo_target) = Some (demo_node ''b'' ''a'')" "cl_nodes ?c ''a:1'' = Some (a'\<lparr>api_metrics := mc\<rparr>)"
    "Replicating ''a:1'' demo_target (demo_rq key) \<in># cl_wire ?c"
    by (simp_all add: new_peer_def)
  define c' where "c' = send {#Outcome ''a:1'' demo_target (rq_Version (demo_rq key)) (Answered (rs_status r'))#}
    (put_node (Address demo_target) b' (take_off (Replicating ''a:1'' demo_target (demo_rq key)) ?c))"
  have "net_run demo_cluster ([] @ [?e]) ?c" by (rule net_run.run_step [OF net_run.run_nil 1])
  from net_run.run_step [OF this net_step.delivered [OF b(3,2,1) hr del, folded c'_def]]
  have run: "net_run demo_cluster [?e, Delivered demo_io ''a:1'' demo_target (demo_rq key) r'] c'" by simp
  have wire: "cl_wire c' = {#Outcome ''a:1'' demo_target 60 (Answered (rs_status r'))#}" "dom (cl_nodes c') = {''a:1'', ''b:1''}"
    by (auto simp: c'_def replicate_request_def demo_cluster_def new_peer_def)
  have node: "cl_nodes c' ''a:1'' = Some (a'\<lparr>api_metrics := mc\<rparr>)" by (simp add: c'_def new_peer_def)
  have body: "rs_body (writeJSON 200 (PutResponse 60)) = PutResponse 60" by (simp add: writeJSON_def)
  show thesis by (rule that [OF run body wire node put])
qed

lemma demo_key [simp]: "addressable ''x''" "valid_utf8 ''x''"
  by (simp_all add: addressable_def proper_def valid_ascii)

section \<open>Properties\<close>

text \<open>
  C11. Replication end to end, over HTTP and JSON: every request a successful PUT hands to the
  replicator, when it reaches any other node whose log write succeeds (the key, as JSON carries
  it, within the log's 65535 bytes), is routed to the replication handler and accepted,
  and the values and versions of that node change by exactly the last-writer-wins put of the
  value, under the version the PUT returned and under the key as JSON carries it, which is the
  key itself if it is valid UTF-8.
\<close>

theorem put_replicates:
  assumes "handlePutKey io key (Some req) api = (r, msgs, api')" "rs_status r = 200" "rs_body r = PutResponse v" "v \<noteq> 0"
    and "(p, rq) \<in> set msgs" "api_inv b" "wal_ready (api_store b)" "io_log io' = io_ok" "length (json_string key) \<le> 65535"
    and "replicate_http node rq = Some hr" "serve files io' t t' hr b = (r', msgs', b')"
  shows "rs_status r' = 200 \<and> msgs' = [] \<and> api_inv b' \<and> (valid_utf8 key \<longrightarrow> json_string key = key) \<and>
    values_of (contents (api_store b')) =
      lww_put snd (json_string key) (bytes_of (put_Value req), v) (values_of (contents (api_store b)))"
  using put_delivered_http [OF assms] by (simp add: valid_utf8_def)

text \<open>
  C34. A key that is not valid UTF-8 ends up under two names. Take a PUT without a time to live of
  such a key, that neither the node nor its peer holds, nor holds in its JSON form. The node that
  takes the PUT stores the value under the key and answers reads of it; the peer that receives
  the write (its log write succeeding) stores the same value and version under another key, with
  U+FFFD in place of the offending bytes, and answers reads of the original key with 404.
\<close>

theorem invalid_key_misplaced:
  assumes "\<not> valid_utf8 key" "put_ttl req = 0" "api_inv api"
    and "key' = json_string key" "contents (api_store api) key = None" "contents (api_store api) key' = None"
    and "contents (api_store b) key = None" "contents (api_store b) key' = None"
    and "handlePutKey io key (Some req) api = (r, msgs, api')" "rs_status r = 200" "rs_body r = PutResponse v" "v \<noteq> 0"
    and "(p, rq) \<in> set msgs" "api_inv b" "wal_ready (api_store b)" "io_log io' = io_ok" "length key' \<le> 65535"
    and "replicate_http node rq = Some hr" "serve files io' t t' hr b = (r', msgs', b')"
  shows "fst (handleGetKey io2 key api') = writeJSON 200 (GetResponse (put_Value req) v) \<and>
    contents (api_store api') key' = None \<and>
    rs_status (fst (handleGetKey io2 key b')) = 404 \<and>
    values_of (contents (api_store b')) key' = Some (bytes_of (put_Value req), v)"
proof -
  have other: "key' \<noteq> key" using assms(1,4) by (simp add: valid_utf8_def)
  have inv: "store_inv (api_store api)" using assms(3) by (simp add: api_inv_def)
  obtain s where set: "key \<noteq> []" "api_store api' = s"
    "Set (io_log io) (io_clock io 0) (io_clock io 1) key (bytes_of (put_Value req)) 0 0 (api_store api) = (Inr v, s)"
    using handlePutKey_ok [OF assms(9,10)] assms(2,11) by (auto simp: writeJSON_def)
  then have put: "contents s = lww_put Version key \<lparr>Value = bytes_of (put_Value req), Version = v, ExpiresAt = zero_time\<rparr> (contents (api_store api))"
    using assms(5) by (cases rule: Set_phases [OF inv set(3)]) (simp_all add: Set_apply_result Set_apply_contents expiry_of_def)
  have sent: "fst (handleGetKey io2 key api') = writeJSON 200 (GetResponse (put_Value req) v)"
    using Get_result [of "io_clock io2 0" "io_clock io2 1" key s] set put assms(5)
    by (cases "Get (io_clock io2 0) (io_clock io2 1) key s")
      (auto simp: handleGetKey_def live_def lww_put_def IsExpired_def IsZero_def)
  have received: "values_of (contents (api_store b')) =
      lww_put snd key' (bytes_of (put_Value req), v) (values_of (contents (api_store b)))"
    using put_delivered_http [OF assms(9-16) _ assms(18,19)] assms(4,17) by simp
  have "contents (api_store b') key = None"
    using fun_cong [OF received, of key] other assms(7,8) by (simp add: values_of_def lww_put_def)
  then have "rs_status (fst (handleGetKey io2 key b')) = 404"
    using Get_result [of "io_clock io2 0" "io_clock io2 1" key "api_store b'"] set(1)
    by (cases "Get (io_clock io2 0) (io_clock io2 1) key (api_store b')")
      (auto simp: handleGetKey_def live_def writeJSON_def)
  moreover have "values_of (contents (api_store b')) key' = Some (bytes_of (put_Value req), v)"
    using fun_cong [OF received, of key'] assms(8) by (simp add: values_of_def lww_put_def)
  moreover have "contents (api_store api') key' = None" using put set(2) other assms(5,6) by (simp add: lww_put_def)
  ultimately show ?thesis using sent by blast
qed

theorem put_replicates_witness:
  "values_of (contents (api_store (snd (snd (serve no_static demo_io 5 9 (demo_hr ''x'') demo_api))))) ''x'' =
     Some (bytes_of ''hi'', 60)"
proof -
  let ?r = "serve no_static demo_io 5 9 (demo_hr ''x'') demo_api"
  obtain a' where a': "handlePutKey demo_io ''x'' (Some demo_put) demo_api = (writeJSON 200 (PutResponse 60), [(demo_target, demo_rq ''x'')], a')"
    using demo_put_answer by blast
  have "json_string ''x'' = ''x''" using valid_ascii [of "''x''"] by (simp add: valid_utf8_def)
  then have "values_of (contents (api_store (snd (snd ?r)))) = lww_put snd ''x'' (bytes_of ''hi'', 60) (values_of (contents demo_store))"
    using put_replicates [OF a', of 60 demo_target _ demo_api demo_io "''a''" "demo_hr ''x''" no_static 5 9 "fst ?r" "fst (snd ?r)" "snd (snd ?r)"]
    by (simp add: writeJSON_def demo_hr [symmetric])
  moreover have "values_of (contents demo_store) ''x'' = None" by (simp add: values_of_def)
  ultimately show ?thesis by (simp add: lww_put_def)
qed

theorem invalid_key_misplaced_witness:
  "\<exists>key key'. \<not> valid_utf8 key \<and> key' \<noteq> key \<and>
     values_of (contents (api_store (snd (snd (serve no_static demo_io 5 9 (demo_hr key) (demo_node ''b'' ''a'')))))) key' =
       Some (bytes_of ''hi'', 60)"
proof -
  let ?k = "[CHR 0xFF]"
  let ?r = "serve no_static demo_io 5 9 (demo_hr ?k) (demo_node ''b'' ''a'')"
  have len: "length (json_string ?k) = 3" by (simp add: json_string_def)
  then have k: "\<not> valid_utf8 ?k" "json_string ?k \<noteq> ?k" "length (json_string ?k) \<le> 65535" by (auto simp: valid_utf8_def)
  obtain a' where a': "handlePutKey demo_io ?k (Some demo_put) (demo_node ''a'' ''b'') =
    (writeJSON 200 (PutResponse 60), [(demo_target, demo_rq ?k)], a')" using demo_put_at_node [of ?k] by blast
  have hr: "replicate_http ''a'' (demo_rq ?k) = Some (demo_hr ?k)" by (rule demo_hr)
  have srv: "?r = (fst ?r, fst (snd ?r), snd (snd ?r))" by simp
  from invalid_key_misplaced [OF k(1) _ _ refl _ _ _ _ a' _ _ _ _ _ _ _ k(3) hr srv, of 60 demo_target] k
  show ?thesis by (intro exI [of _ ?k] exI [of _ "json_string ?k"]) (simp add: writeJSON_def)
qed

text \<open>
  C15. Every node of a cluster stays well formed in every run, whatever requests arrive, in
  whatever order messages are delivered or lost, and whenever the reaper or the gossip loops run:
  each store keeps its representation invariant and each membership table its keys. No node
  appears or disappears.
\<close>

theorem cluster_well_formed:
  assumes "net_run c es c'" "all_nodes api_inv c"
  shows "all_nodes api_inv c' \<and> dom (cl_nodes c') = dom (cl_nodes c)"
  using net_run_inv [OF assms] net_run_dom [OF assms(1)] by blast

theorem cluster_well_formed_witness:
  "\<exists>es c'. length es = 2 \<and> net_run demo_cluster es c' \<and> all_nodes api_inv c'"
proof -
  obtain r r' c' where run: "net_run demo_cluster
      [Requested ''a:1'' demo_io (put_request ''x'') r, Delivered demo_io ''a:1'' demo_target (demo_rq ''x'') r'] c'" (is "net_run _ ?es _")
    by (rule demo_run [of "''x''"]) simp_all
  have "length ?es = 2" by simp
  with run cluster_well_formed [OF run] show ?thesis by (metis demo_cluster(1))
qed

text \<open>
  C16. No value out of nowhere: in a cluster whose nodes start empty, whatever a node answers to a
  GET is a value some client asked to store (with a PUT, or by posting a replication request)
  under that key, or under a key whose JSON form it is.
\<close>

theorem read_values_were_offered:
  assumes "net_run c es c'" "all_nodes (\<lambda>api. api_inv api \<and> contents (api_store api) = Map.empty) c" "cl_wire c = {#}"
    and "cl_nodes c' a = Some api" "handleGetKey io key api = (r, api')" "rs_body r = GetResponse val v"
  shows "\<exists>k x. (k, x) \<in> offered es \<and> key \<in> {k, json_string k} \<and> val = string_of x"
proof -
  have inv: "all_nodes api_inv c" using assms(2) by (simp add: all_nodes_def)
  have "traced {} c" using assms(2,3) by (simp add: traced_def all_nodes_def)
  from traced_run [OF assms(1) inv this] have traced: "traced (offered es) c'" .
  have "api_inv api" using net_run_inv [OF assms(1) inv] assms(4) by (simp add: all_nodes_def)
  from read_stored [OF this assms(5,6)] obtain e where e: "contents (api_store api) key = Some e" "val = string_of (Value e)"
    by blast
  then have "(key, Value e) \<in> carried (offered es)" using traced assms(4) by (simp add: traced_def all_nodes_def)
  with e(2) show ?thesis by (auto simp: carried_def)
qed

theorem read_values_were_offered_witness:
  "\<exists>es c' api api'. net_run demo_cluster es c' \<and> cl_nodes c' ''a:1'' = Some api \<and>
     handleGetKey demo_io ''x'' api = (writeJSON 200 (GetResponse ''hi'' 60), api') \<and>
     (\<exists>k x. (k, x) \<in> offered es \<and> ''x'' \<in> {k, json_string k} \<and> ''hi'' = string_of x)"
proof -
  obtain r r' c' a' mc where run: "net_run demo_cluster
      [Requested ''a:1'' demo_io (put_request ''x'') r, Delivered demo_io ''a:1'' demo_target (demo_rq ''x'') r'] c'" (is "net_run _ ?es _")
    and a': "cl_nodes c' ''a:1'' = Some (a'\<lparr>api_metrics := mc\<rparr>)"
      "handlePutKey demo_io ''x'' (Some demo_put) (demo_node ''a'' ''b'') = (writeJSON 200 (PutResponse 60), [(demo_target, demo_rq ''x'')], a')"
    by (rule demo_run [of "''x''"]) simp_all
  have v: "fst (NextVersion 60 (api_store (demo_node ''a'' ''b''))) = 60"
    by (simp add: demo_node_def NextVersion_def NewStore_def Let_def UnixNano_def wrap64_def)
  have "fst (handleGetKey demo_io ''x'' (a'\<lparr>api_metrics := mc\<rparr>)) = fst (handleGetKey demo_io ''x'' a')"
    by (simp add: handleGetKey_def split: prod.split option.split)
  also have "\<dots> = writeJSON 200 (GetResponse ''hi'' 60)"
    using put_get_answer [OF demo_node(1) a'(2), of demo_io] v by (simp add: writeJSON_def)
  finally obtain api' where get: "handleGetKey demo_io ''x'' (a'\<lparr>api_metrics := mc\<rparr>) = (writeJSON 200 (GetResponse ''hi'' 60), api')"
    by (metis prod.collapse)
  have "all_nodes (\<lambda>api. api_inv api \<and> contents (api_store api) = Map.empty) demo_cluster"
    by (auto simp: all_nodes_def demo_cluster_def split: if_splits)
  from read_values_were_offered [OF run this demo_cluster(2) a'(1) get, of "''hi''" 60]
  have "\<exists>k x. (k, x) \<in> offered ?es \<and> ''x'' \<in> {k, json_string k} \<and> ''hi'' = string_of x" unfolding writeJSON_def response.simps by iprover
  with run a'(1) get show ?thesis by iprover
qed

end
