(* ===== verification/KV_Convergence.thy ===== *)
theory KV_Convergence
  imports KV_Cluster
begin

text \<open>
  Eventual consistency of the cluster: in runs whose writes are PUTs without time to live, with
  complete membership tables and without failed messages, every node ends with the newest value
  of every key once nothing is in flight, provided no two writes of a key carry the same version
  and different values. The invariant says that a node holds the last-writer-wins merge of the
  writes that reached it, and that every other write is still on its way to it.
\<close>

section \<open>Merging a list of writes\<close>

type_synonym stored = "bytes \<times> uint64"

definition lww_all :: "(string \<times> stored) list \<Rightarrow> (string \<rightharpoonup> stored)" where
  "lww_all ws = fold (\<lambda>(k, e). lww_put snd k e) ws Map.empty"

definition agree :: "(string \<times> stored) set \<Rightarrow> bool" where
  "agree W \<longleftrightarrow> (\<forall>k e e'. (k, e) \<in> W \<longrightarrow> (k, e') \<in> W \<longrightarrow> snd e = snd e' \<longrightarrow> e = e')"

lemma lww_all_snoc: "lww_all (ws @ [(k, e)]) = lww_put snd k e (lww_all ws)"
  by (simp add: lww_all_def)

lemma lww_all_member: "lww_all ws k = Some e \<Longrightarrow> (k, e) \<in> set ws"
proof (induction ws rule: rev_induct)
  case (snoc w ws)
  obtain k' e' where "w = (k', e')" by (cases w)
  with snoc show ?case by (auto simp: lww_all_snoc lww_put_def split: option.splits if_splits)
qed (simp add: lww_all_def)

lemma lww_all_set:
  assumes "set ws = set ws'" "agree (set ws)"
  shows "lww_all ws = lww_all ws'"
  unfolding lww_all_def by (rule fold_lww_put_set [OF assms(1)]) (use assms(2) in \<open>unfold agree_def, blast\<close>)

text \<open>A key holds a write of the list that no other write of the key surpasses.\<close>

lemma lww_all_newest: "(k, e) \<in> set ws \<Longrightarrow> \<exists>e'. lww_all ws k = Some e' \<and> snd e \<le> snd e'"
proof (induction ws rule: rev_induct)
  case (snoc w ws)
  obtain k' e' where w: "w = (k', e')" by (cases w)
  show ?case
  proof (cases "(k, e) \<in> set ws")
    case True
    with snoc.IH obtain c where "lww_all ws k = Some c" "snd e \<le> snd c" by blast
    with lww_put_version [of "lww_all ws" k c snd k' e'] show ?thesis by (auto simp: w lww_all_snoc)
  next
    case False
    then have "w = (k, e)" using snoc.prems by auto
    then have "lww_all (ws @ [w]) k = Some e \<or> (\<exists>c. lww_all (ws @ [w]) k = Some c \<and> snd e < snd c)"
      by (cases "lww_all ws k") (auto simp: lww_all_snoc lww_put_def)
    then show ?thesis by (metis order_refl less_imp_le)
  qed
qed simp

section \<open>Writes on one node\<close>

definition permanent :: "Store \<Rightarrow> bool" where
  "permanent s \<longleftrightarrow> (\<forall>k e. contents s k = Some e \<longrightarrow> IsZero (ExpiresAt e))"

definition steady :: "API \<Rightarrow> bool" where
  "steady api \<longleftrightarrow> api_inv api \<and> wal_ready (api_store api) \<and> permanent (api_store api)"

abbreviation node_values :: "API \<Rightarrow> (string \<rightharpoonup> stored)" where
  "node_values api \<equiv> values_of (contents (api_store api))"

lemma permanent_live: "permanent s \<Longrightarrow> live now (contents s) = contents s"
  by (auto simp: permanent_def live_def fun_eq_iff IsExpired_iff split: option.split)

lemma plain_Set:
  assumes "store_inv s" "wal_ready s" "permanent s" "length k \<le> 65535" "ttl \<le> 0"
  shows "\<exists>r s'. Set io_ok now now' k v ttl ver s = (Inr r, s') \<and> store_inv s' \<and> wal_ready s' \<and> permanent s' \<and>
    (values_of (contents s') = lww_put snd k (v, r) (values_of (contents s)) \<or>
     (contents s' = contents s \<and> (\<exists>c. contents s k = Some c \<and> Version c = r))) \<and>
    (ver \<noteq> 0 \<longrightarrow> values_of (contents s') = lww_put snd k (v, ver) (values_of (contents s)))"
proof -
  define ver' s0 where v: "ver' = fst (assign_version now' ver s)" "s0 = snd (assign_version now' ver s)"
  define l where "l = log_append io_ok RecordTypeSet k v ver' (expiry_of now ttl) s0"
  have l: "fst l = None" "wal_ready (snd l)" "store_inv (snd l)" "contents (snd l) = contents s"
    using log_append_ready [of s0 k] assms(1,2,4) by (simp_all add: l_def v)
  have x: "expiry_of now ttl = zero_time" using assms(5) by (simp add: expiry_of_def)
  define a where "a = Set_apply k v ver' zero_time (snd l)"
  have set: "Set io_ok now now' k v ttl ver s = (Inr (fst a), snd a)"
    using l(1) by (simp add: Set_unfold Let_def case_prod_beta a_def l_def v x)
  have a: "contents (snd a) = lww_put Version k \<lparr>Value = v, Version = ver', ExpiresAt = zero_time\<rparr> (contents s)"
    using Set_apply_contents [OF l(3)] l(4) by (simp add: a_def)
  have "permanent (snd a)"
    using assms(3) by (auto simp: permanent_def a lww_put_def IsZero_def split: option.splits if_splits)
  moreover have "values_of (contents (snd a)) = lww_put snd k (v, ver') (values_of (contents s))"
    by (simp add: a values_lww_put)
  moreover have "fst a = ver' \<or> (contents (snd a) = contents s \<and> (\<exists>c. contents s k = Some c \<and> Version c = fst a))"
    using Set_apply_result [of k v ver' zero_time "snd l"] l(4) a by (auto simp: a_def lww_put_def split: option.splits)
  moreover have "ver \<noteq> 0 \<Longrightarrow> ver' = ver" by (simp add: v assign_version_def)
  ultimately show ?thesis using set l Set_apply_inv [OF l(3)] by (auto simp: a_def)
qed

lemma plain_put:
  assumes "steady api" "length key \<le> 65535" "put_ttl pr \<le> 0" "io_log io = io_ok" "key \<noteq> []"
    and "handlePutKey io key (Some pr) api = (r, msgs, api')"
  shows "\<exists>v. rs_body r = PutResponse v \<and> steady api' \<and>
    msgs = map (\<lambda>p. (p, replicate_request key (bytes_of (put_Value pr)) v zero_time ''SET''))
      (filter (\<lambda>p. \<not> (NodeID p = rp_nodeID (api_replicator api) \<or> State p = StateDead)) (GetAll (io_peers io) (api_pm api))) \<and>
    api_pm api' = api_pm api \<and> rp_nodeID (api_replicator api') = rp_nodeID (api_replicator api) \<and>
    (node_values api' = lww_put snd key (bytes_of (put_Value pr), v) (node_values api) \<or>
     (node_values api' = node_values api \<and> (\<exists>x. node_values api key = Some (x, v))))"
proof -
  have st: "store_inv (api_store api)" "wal_ready (api_store api)" "permanent (api_store api)"
    using assms(1) by (simp_all add: steady_def api_inv_def)
  obtain v s' where set: "Set io_ok (io_clock io 0) (io_clock io 1) key (bytes_of (put_Value pr)) (put_ttl pr) 0 (api_store api) = (Inr v, s')"
    and s': "store_inv s'" "wal_ready s'" "permanent s'"
      "values_of (contents s') = lww_put snd key (bytes_of (put_Value pr), v) (node_values api) \<or>
       (contents s' = contents (api_store api) \<and> (\<exists>c. contents (api_store api) key = Some c \<and> Version c = v))"
    using plain_Set [OF st assms(2,3)] by metis
  from assms(3-6) set
  have "rs_body r = PutResponse v" "api_store api' = s'" "api_pm api' = api_pm api"
    "msgs = map (\<lambda>p. (p, replicate_request key (bytes_of (put_Value pr)) v zero_time ''SET''))
      (filter (\<lambda>p. \<not> (NodeID p = rp_nodeID (api_replicator api) \<or> State p = StateDead)) (GetAll (io_peers io) (api_pm api)))"
    "rp_nodeID (api_replicator api') = rp_nodeID (api_replicator api)"
    by (auto simp: handlePutKey_def Let_def writeJSON_def Replicate_def)
  with s' assms(1) show ?thesis by (auto simp: steady_def api_inv_def values_of_def)
qed

text \<open>A replicated write of this kind, as it arrives.\<close>

definition plain_rq :: "ReplicateRequest \<Rightarrow> bool" where
  "plain_rq rq \<longleftrightarrow> rq_Action rq = ''SET'' \<and> rq_ExpiresAt rq = 0 \<and> rq_Version rq \<noteq> 0 \<and>
     valid_utf8 (rq_Key rq) \<and> length (rq_Key rq) \<le> 65535"

definition rq_write :: "ReplicateRequest \<Rightarrow> string \<times> stored" where
  "rq_write rq = (rq_Key rq, rq_Value rq, rq_Version rq)"

lemma plain_delivery:
  assumes "steady api" "plain_rq rq" "io_log io = io_ok" "replicate_http node rq = Some hr" "serve files io t t' hr api = (r, msgs, api')"
  shows "steady api' \<and> api_pm api' = api_pm api \<and> api_replicator api' = api_replicator api \<and>
    node_values api' = (\<lambda>(k, e). lww_put snd k e) (rq_write rq) (node_values api)"
proof -
  have "json_string ''SET'' = ''SET''" using valid_ascii [of "''SET''"] by (simp add: valid_utf8_def)
  then have json: "json_request rq = rq" using assms(2) by (simp add: json_request_def plain_rq_def valid_utf8_def)
  have st: "store_inv (api_store api)" "wal_ready (api_store api)" "permanent (api_store api)"
    using assms(1) by (simp_all add: steady_def api_inv_def)
  obtain v s' where "Set io_ok (io_clock io 1) (io_clock io 2) (rq_Key rq) (rq_Value rq) 0 (rq_Version rq) (api_store api) = (Inr v, s')"
    "store_inv s'" "wal_ready s'" "permanent s'"
    "values_of (contents s') = lww_put snd (rq_Key rq) (rq_Value rq, rq_Version rq) (node_values api)"
    using plain_Set [OF st, of "rq_Key rq" 0] assms(2) unfolding plain_rq_def by (metis order_refl)
  then have "\<exists>r'. handleInternalReplicate io (Some rq) api = (r', api\<lparr>api_store := s'\<rparr>) \<and> steady (api\<lparr>api_store := s'\<rparr>) \<and>
      node_values (api\<lparr>api_store := s'\<rparr>) = (\<lambda>(k, e). lww_put snd k e) (rq_write rq) (node_values api)"
    using assms(1-3) by (simp add: handleInternalReplicate_def Let_def plain_rq_def replica_ttl_def steady_def api_inv_def rq_write_def)
  then show ?thesis
    using serve_request [OF replicate_routed [OF assms(4)], of api io files t t'] assms(5)
    by (auto simp: answered_def RecoveryMiddleware_def json steady_def)
qed

text \<open>Requests that leave the values of a node without time to live alone.\<close>

fun quiet :: "request \<Rightarrow> bool" where
  "quiet (ReqPutKey k (Some pr)) = (k = [])"
| "quiet (ReqDeleteKey k) = False"
| "quiet (ReqReplicate rq) = False"
| "quiet _ = True"

definition reaches :: "API \<Rightarrow> string \<Rightarrow> bool" where
  "reaches api b \<longleftrightarrow> (\<exists>k p. api_pm api k = Some p \<and> Address p = b \<and> State p \<noteq> StateDead \<and> k \<noteq> rp_nodeID (api_replicator api))"

lemma reaches_store [simp]: "reaches (api\<lparr>api_store := s\<rparr>) b = reaches api b"
  by (simp add: reaches_def)

lemma steady_Get:
  assumes "store_inv s" "permanent s" "Get now now' k s = (r, s')"
  shows "contents s' = contents s" "wal s' = wal s" "store_inv s'"
proof -
  have "getShard k s k = Some e \<Longrightarrow> \<not> IsExpired now e" for e
    using assms(2) by (auto simp: permanent_def contents_def IsExpired_iff)
  then have "s' = s" using assms(3) by (auto simp: Get_def split: option.splits)
  then show "contents s' = contents s" "wal s' = wal s" "store_inv s'" using assms(1) by simp_all
qed

lemma reaches_update:
  assumes "reaches api b"
  shows "reaches (api\<lparr>api_pm := AddOrUpdate now i a StateAlive (api_pm api)\<rparr>) b"
    and "reaches (api\<lparr>api_pm := replicateToPeer_done p v result (api_replicator api) (api_pm api)\<rparr>) b"
proof -
  obtain k q where q: "api_pm api k = Some q" "Address q = b" "State q \<noteq> StateDead" "k \<noteq> rp_nodeID (api_replicator api)"
    using assms by (auto simp: reaches_def)
  have "\<exists>q'. AddOrUpdate now i a StateAlive (api_pm api) k = Some q' \<and> Address q' = b \<and> State q' \<noteq> StateDead"
    using q by (cases "k = i") (auto simp: AddOrUpdate_def Let_def)
  then show "reaches (api\<lparr>api_pm := AddOrUpdate now i a StateAlive (api_pm api)\<rparr>) b"
    using q(4) by (auto simp: reaches_def)
  have "\<exists>q'. UpdateLag i lag (api_pm api) k = Some q' \<and> Address q' = b \<and> State q' \<noteq> StateDead" for i lag
    using q by (cases "k = i") (auto simp: UpdateLag_def split: option.split)
  then have "\<exists>q'. replicateToPeer_done p v result (api_replicator api) (api_pm api) k = Some q' \<and> Address q' = b \<and> State q' \<noteq> StateDead"
    using q(1-3) by (auto simp: replicateToPeer_done_def Let_def split: send_result.split)
  then show "reaches (api\<lparr>api_pm := replicateToPeer_done p v result (api_replicator api) (api_pm api)\<rparr>) b"
    using q(4) by (auto simp: reaches_def)
qed

lemma quiet_dispatch:
  assumes "steady api" "quiet req" "dispatch io req api = Inr (r, msgs, api')"
  shows "steady api' \<and> msgs = [] \<and> node_values api' = node_values api \<and> (\<forall>b. reaches api b \<longrightarrow> reaches api' b)"
proof (cases req)
  case (ReqGetKey key)
  have st: "store_inv (api_store api)" "permanent (api_store api)" using assms(1) by (simp_all add: steady_def api_inv_def)
  obtain r' s' where get: "Get (io_clock io 0) (io_clock io 1) key (api_store api) = (r', s')" by fastforce
  with steady_Get [OF st get] assms(1,3) ReqGetKey show ?thesis
    by (auto simp: handleGetKey_def steady_def api_inv_def permanent_def wal_ready_def
        split: if_splits option.splits)
next
  case (ReqPutKey key body)
  with assms show ?thesis by (cases body) (auto simp: handlePutKey_def split: if_splits)
next
  case (ReqPing i a)
  with assms show ?thesis
    by (auto simp: handleInternalPing_def Let_def steady_def api_inv_def AddOrUpdate_keyed reaches_update split: if_splits)
qed (use assms in \<open>auto split: sum.splits\<close>)

section \<open>The invariant of a run\<close>

definition pending :: "cluster \<Rightarrow> string \<Rightarrow> (string \<times> stored) set" where
  "pending c b = {rq_write rq |a p rq. Replicating a p rq \<in># cl_wire c \<and> Address p = b}"

definition caught_up :: "(string \<times> stored) set \<Rightarrow> (string \<times> stored) set \<Rightarrow> API \<Rightarrow> bool" where
  "caught_up W P api \<longleftrightarrow> steady api \<and> (\<exists>ws. node_values api = lww_all ws \<and> set ws \<subseteq> W \<and> W \<subseteq> set ws \<union> P)"

definition connected :: "cluster \<Rightarrow> bool" where
  "connected c \<longleftrightarrow> (\<forall>a api b. cl_nodes c a = Some api \<longrightarrow> b \<in> dom (cl_nodes c) \<longrightarrow> b \<noteq> a \<longrightarrow> reaches api b)"

definition converging :: "(string \<times> stored) set \<Rightarrow> cluster \<Rightarrow> bool" where
  "converging W c \<longleftrightarrow> connected c \<and> (\<forall>a api. cl_nodes c a = Some api \<longrightarrow> caught_up W (pending c a) api) \<and>
     (\<forall>a p rq. Replicating a p rq \<in># cl_wire c \<longrightarrow> plain_rq rq \<and> rq_write rq \<in> W)"

lemma caught_up_later: "caught_up W P api \<Longrightarrow> P \<subseteq> P' \<Longrightarrow> W' \<subseteq> P' \<Longrightarrow> caught_up (W \<union> W') P' api"
  unfolding caught_up_def by blast

lemma caught_up_same:
  assumes "caught_up W P api" "steady api'" "node_values api' = node_values api" "P \<subseteq> P'"
  shows "caught_up W P' api'"
proof -
  obtain ws where "node_values api = lww_all ws" "set ws \<subseteq> W" "W \<subseteq> set ws \<union> P" using assms(1) by (auto simp: caught_up_def)
  with assms(2-4) show ?thesis unfolding caught_up_def by (intro conjI exI [of _ ws]) auto
qed

lemma caught_up_write:
  assumes "caught_up W P api" "steady api'" "node_values api' = lww_put snd k e (node_values api)"
    and "P \<subseteq> insert (k, e) P'"
  shows "caught_up (insert (k, e) W) P' api'"
proof -
  obtain ws where "node_values api = lww_all ws" "set ws \<subseteq> W" "W \<subseteq> set ws \<union> P" using assms(1) by (auto simp: caught_up_def)
  then have "node_values api' = lww_all (ws @ [(k, e)])" "set (ws @ [(k, e)]) \<subseteq> insert (k, e) W"
    "insert (k, e) W \<subseteq> set (ws @ [(k, e)]) \<union> P'"
    using assms(3,4) by (auto simp: lww_all_snoc)
  with assms(2) show ?thesis unfolding caught_up_def by blast
qed

text \<open>A write that lost against an equal version changes nothing; if versions name values, it was there already.\<close>

lemma caught_up_stale:
  assumes "caught_up W P api" "steady api'" "node_values api' = node_values api" "node_values api k = Some (x, v)"
    and "agree (insert (k, y, v) W)" "P \<subseteq> P'"
  shows "caught_up (insert (k, y, v) W) P' api'"
proof -
  obtain ws where ws: "node_values api = lww_all ws" "set ws \<subseteq> W" "W \<subseteq> set ws \<union> P" using assms(1) by (auto simp: caught_up_def)
  then have mem: "(k, x, v) \<in> set ws" using assms(4) by (intro lww_all_member) simp
  then have "(k, x, v) \<in> insert (k, y, v) W" "(k, y, v) \<in> insert (k, y, v) W" using ws(2) by auto
  then have "(x, v) = (y, v)" using assms(5) unfolding agree_def by (metis snd_conv)
  with mem ws assms(2,3,6) show ?thesis unfolding caught_up_def by (intro conjI exI [of _ ws]) auto
qed

lemma caught_up_put:
  assumes "caught_up W P api" "steady api'"
    and "node_values api' = lww_put snd k (y, v) (node_values api) \<or>
      (node_values api' = node_values api \<and> (\<exists>x. node_values api k = Some (x, v)))"
    and "P \<subseteq> P'" "agree (insert (k, y, v) W)"
  shows "caught_up (insert (k, y, v) W) P' api'"
  using assms(3)
proof
  assume "node_values api' = lww_put snd k (y, v) (node_values api)"
  from caught_up_write [OF assms(1,2) this, of P'] assms(4) show ?thesis by auto
next
  assume "node_values api' = node_values api \<and> (\<exists>x. node_values api k = Some (x, v))"
  then obtain x where "node_values api' = node_values api" "node_values api k = Some (x, v)" by blast
  from caught_up_stale [OF assms(1,2) this assms(5,4)] show ?thesis .
qed

fun plain_request :: "request \<Rightarrow> bool" where
  "plain_request (ReqPutKey k (Some pr)) = (put_ttl pr \<le> 0 \<and> length k \<le> 65535 \<and> valid_utf8 k)"
| "plain_request req = quiet req"

fun plain_event :: "event \<Rightarrow> bool" where
  "plain_event (Requested a io hr r) =
     (io_log io = io_ok \<and> rs_body r \<noteq> PutResponse 0 \<and> (case request_of hr of None \<Rightarrow> True | Some req \<Rightarrow> plain_request req))"
| "plain_event (Delivered io a p rq r) = (io_log io = io_ok)"
| "plain_event (Failed a p rq) = False"
| "plain_event (Gossiped a) = False"
| "plain_event _ = True"

text \<open>The write a client's request made, under the version the node answered with.\<close>

definition put_write :: "string \<Rightarrow> PutRequest \<Rightarrow> body \<Rightarrow> (string \<times> stored) set" where
  "put_write k pr b = (case b of PutResponse v \<Rightarrow> {(k, bytes_of (put_Value pr), v)} | _ \<Rightarrow> {})"

fun request_write :: "request \<Rightarrow> body \<Rightarrow> (string \<times> stored) set" where
  "request_write (ReqPutKey k (Some pr)) b = put_write k pr b"
| "request_write _ b = {}"

fun write_of :: "event \<Rightarrow> (string \<times> stored) set" where
  "write_of (Requested a io hr r) = (case request_of hr of None \<Rightarrow> {} | Some req \<Rightarrow> request_write req (rs_body r))"
| "write_of _ = {}"

definition writes :: "event list \<Rightarrow> (string \<times> stored) set" where
  "writes es = (\<Union>e \<in> set es. write_of e)"

lemma taken_other: "m \<noteq> m' \<Longrightarrow> m \<in># M - {#m'#} \<longleftrightarrow> m \<in># M"
  by (auto simp: in_diff_count)

lemma pending_send: "pending c b \<subseteq> pending (send ms c) b"
  unfolding pending_def by auto

lemma pending_put [simp]: "pending (put_node a api c) b = pending c b"
  by (simp add: pending_def)

lemma pending_outcome [simp]:
  "pending (send {#Outcome a p v result#} c) b = pending c b" "pending (take_off (Outcome a p v result) c) b = pending c b"
  by (simp_all add: pending_def taken_other)

lemma pending_taken:
  "pending c b \<subseteq> (if Address p = b then insert (rq_write rq) (pending (take_off (Replicating a p rq) c) b)
     else pending (take_off (Replicating a p rq) c) b)"
proof
  fix w assume "w \<in> pending c b"
  then obtain a' p' rq' where w: "w = rq_write rq'" "Replicating a' p' rq' \<in># cl_wire c" "Address p' = b" by (auto simp: pending_def)
  show "w \<in> (if Address p = b then insert (rq_write rq) (pending (take_off (Replicating a p rq) c) b)
     else pending (take_off (Replicating a p rq) c) b)"
  proof (cases "Replicating a' p' rq' = Replicating a p rq")
    case True
    with w show ?thesis by simp
  next
    case False
    then have "Replicating a' p' rq' \<in># cl_wire (take_off (Replicating a p rq) c)" using w(2) by (simp only: take_off_simps taken_other not_False_eq_True)
    with w show ?thesis unfolding pending_def by auto
  qed
qed

lemma connected_put:
  assumes "connected c" "cl_nodes c a = Some api" "\<And>b. reaches api b \<Longrightarrow> reaches api' b"
  shows "connected (put_node a api' c)"
  using assms unfolding connected_def by (auto split: if_splits)

lemma connected_wire [simp]: "connected (send ms c) = connected c" "connected (take_off m c) = connected c"
  by (simp_all add: connected_def)

text \<open>A step at one node: what it must do to the node, to the others' messages and to the wire.\<close>

lemma converging_step:
  assumes "converging W c" "cl_nodes c a = Some api" "\<And>b. reaches api b \<Longrightarrow> reaches api' b"
    and "cl_nodes c' = (cl_nodes c)(a \<mapsto> api')" "caught_up (W \<union> W') (pending c' a) api'"
    and "\<And>b. b \<noteq> a \<Longrightarrow> b \<in> dom (cl_nodes c) \<Longrightarrow> pending c b \<subseteq> pending c' b \<and> W' \<subseteq> pending c' b"
    and "\<And>a p rq. Replicating a p rq \<in># cl_wire c' \<Longrightarrow> Replicating a p rq \<in># cl_wire c \<or> plain_rq rq \<and> rq_write rq \<in> W'"
  shows "converging (W \<union> W') c'"
proof -
  have "connected c" using assms(1) by (simp add: converging_def)
  then have "connected (put_node a api' c)" using assms(2,3) by (rule connected_put)
  then have "connected c'" using assms(4) by (simp add: connected_def)
  moreover have "caught_up (W \<union> W') (pending c' b) x" if "cl_nodes c' b = Some x" for b x
  proof (cases "b = a")
    case False
    with that assms(4) have b: "cl_nodes c b = Some x" by simp
    then have "caught_up W (pending c b) x" using assms(1) by (simp add: converging_def)
    with assms(6) [OF False] b show ?thesis by (intro caught_up_later) auto
  qed (use that assms(4,5) in simp)
  moreover have "plain_rq rq \<and> rq_write rq \<in> W \<union> W'" if "Replicating a p rq \<in># cl_wire c'" for a p rq
    using assms(1,7) that unfolding converging_def by blast
  ultimately show ?thesis by (auto simp: converging_def)
qed

lemma steady_frame [simp]:
  "steady (api\<lparr>api_metrics := mc\<rparr>) = steady api" "steady (api\<lparr>api_replicator := r\<rparr>) = steady api"
  by (simp_all add: steady_def)

lemma reaches_metrics [simp]: "reaches (api\<lparr>api_metrics := mc\<rparr>) b = reaches api b"
  by (simp add: reaches_def)

lemma reap_steady:
  assumes "steady api"
  shows "steady (api\<lparr>api_store := reap now order (api_store api)\<rparr>) \<and>
    node_values (api\<lparr>api_store := reap now order (api_store api)\<rparr>) = node_values api"
proof -
  have st: "store_inv (api_store api)" "permanent (api_store api)" using assms by (simp_all add: steady_def api_inv_def)
  have "contents (reap now order (api_store api)) = contents (api_store api)"
    using reap_step [OF st(1) order_refl, of now order] permanent_live [OF st(2)] by (auto simp: reap_def fun_eq_iff)
  then show ?thesis using assms reap_inv [OF st(1)] by (simp add: steady_def api_inv_def permanent_def wal_ready_def)
qed

lemma serve_quiet:
  assumes "steady api" "case request_of hr of None \<Rightarrow> True | Some req \<Rightarrow> quiet req"
    and "serve files io t t' hr api = (r, msgs, api')"
  shows "steady api' \<and> msgs = [] \<and> node_values api' = node_values api \<and> (\<forall>b. reaches api b \<longrightarrow> reaches api' b) \<and>
    write_of (Requested a io hr r) = {}"
proof (cases "request_of hr")
  case None
  with serve_no_request [OF None assms(3)] assms(1) show ?thesis by auto
next
  case (Some req)
  have "answered api (dispatch io req api) (r, msgs, api')"
    using serve_request [OF Some, of api io files t t'] assms(3) by simp
  then obtain mc api0 where out: "RecoveryMiddleware api (dispatch io req api) = (r, msgs, api0)" "api' = api0\<lparr>api_metrics := mc\<rparr>"
    by (rule answered_out)
  have "quiet req" using assms(2) Some by simp
  have "request_write req (rs_body r) = {}"
  proof (cases "\<exists>k pr. req = ReqPutKey k (Some pr)")
    case True
    with \<open>quiet req\<close> out(1) show ?thesis by (auto simp: RecoveryMiddleware_def handlePutKey_def writeJSON_def put_write_def)
  next
    case False
    then show ?thesis by (cases "(req, rs_body r)" rule: request_write.cases) simp_all
  qed
  then have "write_of (Requested a io hr r) = {}" by (simp add: Some)
  moreover have "steady api0 \<and> msgs = [] \<and> node_values api0 = node_values api \<and> (\<forall>b. reaches api b \<longrightarrow> reaches api0 b)"
    using quiet_dispatch [OF assms(1) \<open>quiet req\<close>] out(1) assms(1)
    by (cases "dispatch io req api") (auto simp: RecoveryMiddleware_def)
  ultimately show ?thesis using out(2) by simp
qed

lemma serve_put:
  assumes "steady api" "request_of hr = Some (ReqPutKey k (Some pr))" "plain_request (ReqPutKey k (Some pr))" "k \<noteq> []"
    and "io_log io = io_ok" "serve files io t t' hr api = (r, msgs, api')"
  shows "\<exists>v. rs_body r = PutResponse v \<and> steady api' \<and>
    msgs = map (\<lambda>p. (p, replicate_request k (bytes_of (put_Value pr)) v zero_time ''SET''))
      (filter (\<lambda>p. \<not> (NodeID p = rp_nodeID (api_replicator api) \<or> State p = StateDead)) (GetAll (io_peers io) (api_pm api))) \<and>
    (\<forall>b. reaches api' b = reaches api b) \<and>
    (node_values api' = lww_put snd k (bytes_of (put_Value pr), v) (node_values api) \<or>
     (node_values api' = node_values api \<and> (\<exists>x. node_values api k = Some (x, v))))"
proof -
  have "answered api (dispatch io (ReqPutKey k (Some pr)) api) (r, msgs, api')"
    using serve_request [OF assms(2), of api io files t t'] assms(6) by simp
  then obtain mc api0 where "RecoveryMiddleware api (dispatch io (ReqPutKey k (Some pr)) api) = (r, msgs, api0)"
    and api': "api' = api0\<lparr>api_metrics := mc\<rparr>" by (rule answered_out)
  then have out: "handlePutKey io k (Some pr) api = (r, msgs, api0)" by (simp add: RecoveryMiddleware_def)
  have pre: "length k \<le> 65535" "put_ttl pr \<le> 0" using assms(3) by simp_all
  obtain v where v: "rs_body r = PutResponse v" "steady api0"
    "msgs = map (\<lambda>p. (p, replicate_request k (bytes_of (put_Value pr)) v zero_time ''SET''))
      (filter (\<lambda>p. \<not> (NodeID p = rp_nodeID (api_replicator api) \<or> State p = StateDead)) (GetAll (io_peers io) (api_pm api)))"
    "api_pm api0 = api_pm api" "rp_nodeID (api_replicator api0) = rp_nodeID (api_replicator api)"
    "node_values api0 = lww_put snd k (bytes_of (put_Value pr), v) (node_values api) \<or>
     (node_values api0 = node_values api \<and> (\<exists>x. node_values api k = Some (x, v)))"
    using plain_put [OF assms(1) pre assms(5,4) out] by (elim exE conjE) (rule that; assumption)
  have "reaches api' b = reaches api b" for b using v(4,5) by (simp add: api' reaches_def)
  with v(1-3,6) show ?thesis by (intro exI [of _ v]) (simp add: api')
qed

lemma fan_out_reaches:
  assumes "steady api" "ranges order (api_pm api)" "reaches api b"
  shows "\<exists>p. Address p = b \<and>
    p \<in> set (filter (\<lambda>p. \<not> (NodeID p = rp_nodeID (api_replicator api) \<or> State p = StateDead)) (GetAll order (api_pm api)))"
proof -
  obtain i p where p: "api_pm api i = Some p" "Address p = b" "State p \<noteq> StateDead" "i \<noteq> rp_nodeID (api_replicator api)"
    using assms(3) unfolding reaches_def by blast
  have keyed: "keyed (api_pm api)" using assms(1) by (simp add: steady_def api_inv_def)
  then have "p \<in> set (GetAll order (api_pm api))" "NodeID p = i" using GetAll_set [OF keyed assms(2)] p(1) by (auto simp: keyed_def)
  with p(2-4) show ?thesis by auto
qed

lemma converging_put:
  assumes "converging W c" "cl_nodes c a = Some api" "orders_ok io hr api" "serve files io t t' hr api = (r, msgs, api')"
    and "plain_event (Requested a io hr r)" "agree (W \<union> write_of (Requested a io hr r))"
    and req: "request_of hr = Some (ReqPutKey k (Some pr))" "plain_request (ReqPutKey k (Some pr))" "k \<noteq> []"
  shows "converging (W \<union> write_of (Requested a io hr r)) (send (mset (map (\<lambda>(p, rq). Replicating a p rq) msgs)) (put_node a api' c))"
    (is "converging _ ?c'")
proof -
  have caught: "caught_up W (pending c a) api" using assms(1,2) by (simp add: converging_def)
  then have st: "steady api" by (simp add: caught_up_def)
  have io: "io_log io = io_ok" using assms(5) by simp
  obtain v where v: "rs_body r = PutResponse v" "steady api'"
    "msgs = map (\<lambda>p. (p, replicate_request k (bytes_of (put_Value pr)) v zero_time ''SET''))
      (filter (\<lambda>p. \<not> (NodeID p = rp_nodeID (api_replicator api) \<or> State p = StateDead)) (GetAll (io_peers io) (api_pm api)))"
    "\<forall>b. reaches api' b = reaches api b"
    "node_values api' = lww_put snd k (bytes_of (put_Value pr), v) (node_values api) \<or>
     (node_values api' = node_values api \<and> (\<exists>x. node_values api k = Some (x, v)))"
    using serve_put [OF st req io assms(4)] by (elim exE conjE) (rule that; assumption)
  define w where "w = (k, bytes_of (put_Value pr), v)"
  have W: "write_of (Requested a io hr r) = {w}" by (simp add: req v(1) put_write_def w_def)
  have rq: "plain_rq rq \<and> rq_write rq = w" if "(p, rq) \<in> set msgs" for p rq
    using that req(2) v(1) assms(5) by (auto simp: v(3) replicate_request_def plain_rq_def rq_write_def w_def IsZero_def)
  have mono: "pending c b \<subseteq> pending ?c' b" for b using pending_send [of "put_node a api' c" b] by simp
  have "agree (insert w W)" using assms(6) unfolding W by simp
  with caught_up_put [OF caught v(2) v(5), of "pending ?c' a"] mono
  have "caught_up (W \<union> {w}) (pending ?c' a) api'" by (simp add: w_def)
  moreover have "w \<in> pending ?c' b" if "b \<noteq> a" "b \<in> dom (cl_nodes c)" for b
  proof -
    have "reaches api b" using assms(1,2) that by (auto simp: converging_def connected_def)
    moreover have "ranges (io_peers io) (api_pm api)" using assms(3) req(1) by (simp add: orders_ok_def)
    ultimately obtain p where p: "Address p = b" "p \<in> set (filter (\<lambda>p. \<not> (NodeID p = rp_nodeID (api_replicator api) \<or> State p = StateDead))
        (GetAll (io_peers io) (api_pm api)))"
      using fan_out_reaches [OF st] by blast
    have "(p, replicate_request k (bytes_of (put_Value pr)) v zero_time ''SET'') \<in> set msgs"
      unfolding v(3) set_map by (rule imageI [OF p(2)])
    then show ?thesis using rq p unfolding pending_def by force
  qed
  ultimately show ?thesis unfolding W
    using v(4) mono rq by (intro converging_step [OF assms(1,2), where api' = api']) auto
qed

lemma converging_request:
  assumes "converging W c" "cl_nodes c a = Some api" "orders_ok io hr api" "serve files io t t' hr api = (r, msgs, api')"
    and "plain_event (Requested a io hr r)" "agree (W \<union> write_of (Requested a io hr r))"
  shows "converging (W \<union> write_of (Requested a io hr r)) (send (mset (map (\<lambda>(p, rq). Replicating a p rq) msgs)) (put_node a api' c))"
    (is "converging _ ?c'")
proof (cases "case request_of hr of None \<Rightarrow> True | Some req \<Rightarrow> quiet req")
  case True
  have caught: "caught_up W (pending c a) api" using assms(1,2) by (simp add: converging_def)
  then have "steady api" by (simp add: caught_up_def)
  note out = serve_quiet [OF this True assms(4), of a]
  then have "pending ?c' b = pending c b" for b by (simp add: pending_def)
  with out caught show ?thesis
    by (intro converging_step [OF assms(1,2), where api' = api']) (auto intro: caught_up_same)
next
  case False
  then obtain k pr where "request_of hr = Some (ReqPutKey k (Some pr))" "plain_request (ReqPutKey k (Some pr))" "k \<noteq> []"
    using assms(5) by (auto split: option.splits elim: plain_request.elims)
  with converging_put [OF assms] show ?thesis .
qed

lemma converging_delivery:
  assumes "converging W c" "Replicating a p rq \<in># cl_wire c" "cl_nodes c (Address p) = Some api" "io_log io = io_ok"
    and "replicate_http node rq = Some hr" "serve files io t t' hr api = (r, msgs, api')"
  shows "converging W (send {#Outcome a p v result#} (put_node (Address p) api' (take_off (Replicating a p rq) c)))"
    (is "converging W ?c'")
proof -
  have rq: "plain_rq rq" "rq_write rq \<in> W" using assms(1,2) by (auto simp: converging_def)
  have caught: "caught_up W (pending c (Address p)) api" using assms(1,3) by (simp add: converging_def)
  then have "steady api" by (simp add: caught_up_def)
  note out = plain_delivery [OF this rq(1) assms(4-6)]
  have pend: "pending c b \<subseteq> (if Address p = b then insert (rq_write rq) (pending ?c' b) else pending ?c' b)" for b
    using pending_taken [of c b p rq a] by (simp only: pending_outcome pending_put)
  obtain k e where w: "rq_write rq = (k, e)" by (cases "rq_write rq")
  have "caught_up (insert (rq_write rq) W) (pending ?c' (Address p)) api'"
    using caught_up_write [OF caught, of api' k e "pending ?c' (Address p)"] out pend [of "Address p"] by (simp add: w)
  then have "caught_up (W \<union> {}) (pending ?c' (Address p)) api'" using rq(2) by (simp add: insert_absorb)
  moreover have "pending c b \<subseteq> pending ?c' b" if "b \<noteq> Address p" for b using pend [of b] that by simp
  ultimately have "converging (W \<union> {}) ?c'" using out
    by (intro converging_step [OF assms(1,3), where api' = api']) (auto simp: reaches_def dest: in_diffD)
  then show ?thesis by simp
qed

lemma converging_net_step:
  assumes "net_step c e c'" "converging W c" "plain_event e" "agree (W \<union> write_of e)"
  shows "converging (W \<union> write_of e) c'"
  using assms(1)
proof (cases rule: net_step.cases)
  case (requested a api io hr files t t' r msgs api')
  from converging_request [OF assms(2) this(3-5)] assms(3,4) this(1,2) show ?thesis by simp
next
  case (delivered a p rq sender api hr files io t t' r msgs api')
  with converging_delivery [OF assms(2) delivered(3,5) _ delivered(6,7)] assms(3) show ?thesis by simp
next
  case (timed_out a p v code)
  then have "converging W c'" using assms(2) by (auto simp: converging_def dest: in_diffD)
  then show ?thesis using timed_out by simp
next
  case (finished a p v result api)
  have caught: "caught_up W (pending c a) api" using assms(2) finished by (simp add: converging_def)
  then have "steady (api\<lparr>api_pm := replicateToPeer_done p v result (api_replicator api) (api_pm api)\<rparr>)"
    by (simp add: caught_up_def steady_def api_inv_def replicateToPeer_done_keyed)
  with caught have "caught_up (W \<union> {}) (pending c' a) (api\<lparr>api_pm := replicateToPeer_done p v result (api_replicator api) (api_pm api)\<rparr>)"
    using finished(2) by (auto intro: caught_up_same)
  then have "converging (W \<union> {}) c'" using finished
    by (intro converging_step [OF assms(2) finished(4) reaches_update(2)]) (auto dest: in_diffD)
  then show ?thesis using finished by simp
next
  case (reaped a api now order)
  have caught: "caught_up W (pending c a) api" using assms(2) reaped by (simp add: converging_def)
  then have "steady api" by (simp add: caught_up_def)
  from caught_up_same [OF caught conjunct1 [OF reap_steady [OF this]] conjunct2 [OF reap_steady [OF this]] subset_refl]
  have "converging (W \<union> {}) c'" using reaped
    by (intro converging_step [OF assms(2) reaped(3), where api' = "api\<lparr>api_store := reap now order (api_store api)\<rparr>"]) auto
  then show ?thesis using reaped by simp
qed (use assms(3) in simp_all)

lemma agree_subset: "agree W \<Longrightarrow> W' \<subseteq> W \<Longrightarrow> agree W'"
  unfolding agree_def by blast

lemma converging_run:
  assumes "net_run c es c'" "converging {} c" "list_all plain_event es" "agree (writes es)"
  shows "converging (writes es) c'"
  using assms
proof (induction rule: net_run.induct)
  case (run_step es c' e c'')
  have W: "writes (es @ [e]) = writes es \<union> write_of e" by (auto simp: writes_def)
  have "agree (writes es)" by (rule agree_subset [OF run_step(6)]) (simp add: W)
  with run_step have "converging (writes es) c'" by simp
  from converging_net_step [OF run_step(2) this] run_step(5,6) show ?case by (simp add: W)
qed (simp add: writes_def)

section \<open>Property\<close>

definition fresh :: "cluster \<Rightarrow> bool" where
  "fresh c \<longleftrightarrow> connected c \<and> cl_wire c = {#} \<and> all_nodes (\<lambda>api. steady api \<and> contents (api_store api) = Map.empty) c"

definition drained :: "cluster \<Rightarrow> bool" where
  "drained c \<longleftrightarrow> (\<forall>a p rq. Replicating a p rq \<notin># cl_wire c)"

lemma fresh_converging: "fresh c \<Longrightarrow> converging {} c"
  by (auto simp: fresh_def converging_def all_nodes_def caught_up_def values_of_def lww_all_def fun_eq_iff intro!: exI [of _ "[]"])

text \<open>
  C2. Eventual consistency. A cluster starts empty, with every node knowing every other, and takes
  PUTs without time to live (and reads, pings, metrics and any other request that writes nothing)
  at any of its nodes; replication messages arrive in any order and outcomes may be lost, the
  reapers run at any time. Keys are valid UTF-8 and at most 65535 bytes long, logs take every
  record, no replication request fails and no membership entry changes by gossip. If versions
  name values, then as soon as every replication message has
  arrived all nodes hold the same values: for every key the value of the newest write any client
  made, and nothing for a key nobody wrote.
\<close>

theorem cluster_converges:
  assumes "net_run c es c'" "fresh c" "list_all plain_event es" "agree (writes es)" "drained c'"
    and "cl_nodes c' a = Some api" "cl_nodes c' b = Some api'"
  shows "values_of (contents (api_store api)) = values_of (contents (api_store api')) \<and>
    (\<forall>k. case values_of (contents (api_store api)) k of
        None \<Rightarrow> \<nexists>e. (k, e) \<in> writes es
      | Some e \<Rightarrow> (k, e) \<in> writes es \<and> (\<forall>e'. (k, e') \<in> writes es \<longrightarrow> snd e' \<le> snd e))"
proof -
  have conv: "converging (writes es) c'" using converging_run [OF assms(1) fresh_converging [OF assms(2)] assms(3,4)] .
  have "\<exists>ws. node_values x = lww_all ws \<and> set ws = writes es" if "cl_nodes c' i = Some x" for i x
  proof -
    have "pending c' i = {}" using assms(5) by (auto simp: pending_def drained_def)
    with that conv show ?thesis unfolding converging_def caught_up_def by (metis sup_bot.right_neutral subset_antisym)
  qed
  then obtain ws ws' where ws: "node_values api = lww_all ws" "set ws = writes es" "node_values api' = lww_all ws'" "set ws' = writes es"
    using assms(6,7) by metis
  then have "node_values api = node_values api'" using lww_all_set [of ws ws'] assms(4) by simp
  moreover have "case lww_all ws k of None \<Rightarrow> \<nexists>e. (k, e) \<in> writes es
      | Some e \<Rightarrow> (k, e) \<in> writes es \<and> (\<forall>e'. (k, e') \<in> writes es \<longrightarrow> snd e' \<le> snd e)" for k
    using lww_all_newest [of k _ ws] lww_all_member [of ws k] unfolding ws(2) by (cases "lww_all ws k") fastforce+
  ultimately show ?thesis unfolding ws(1) by blast
qed

theorem cluster_converges_witness:
  "\<exists>es c' api api'. net_run demo_cluster es c' \<and> writes es = {(''x'', bytes_of ''hi'', 60)} \<and>
     cl_nodes c' ''a:1'' = Some api \<and> cl_nodes c' ''b:1'' = Some api' \<and>
     values_of (contents (api_store api)) ''x'' = values_of (contents (api_store api')) ''x''"
proof -
  obtain r r' c' where run: "net_run demo_cluster
      [Requested ''a:1'' demo_io (put_request ''x'') r, Delivered demo_io ''a:1'' demo_target (demo_rq ''x'') r'] c'" (is "net_run _ ?es _")
    and c': "rs_body r = PutResponse 60" "cl_wire c' = {#Outcome ''a:1'' demo_target 60 (Answered (rs_status r'))#}"
      "dom (cl_nodes c') = {''a:1'', ''b:1''}"
    by (rule demo_run [of "''x''"]) simp_all
  obtain api api' where nodes: "cl_nodes c' ''a:1'' = Some api" "cl_nodes c' ''b:1'' = Some api'"
    using c'(3) by (metis domD insertI1 insertI2)
  have writes: "writes ?es = {(''x'', bytes_of ''hi'', 60)}" by (simp add: writes_def put_routed c'(1) put_write_def)
  have plain: "list_all plain_event ?es" by (simp add: put_routed c'(1))
  have "reaches (demo_node ''a'' ''b'') ''b:1''" "reaches (demo_node ''b'' ''a'') ''a:1''"
    by (auto simp: reaches_def demo_remote_def new_peer_def) (simp add: demo_node_def new_peer_def)
  then have "connected demo_cluster" by (auto simp: connected_def demo_cluster_def split: if_splits)
  then have fresh: "fresh demo_cluster"
    by (auto simp: fresh_def all_nodes_def demo_cluster_def steady_def permanent_def split: if_splits)
  have drained: "drained c'" by (simp add: drained_def c'(2))
  have agree: "agree (writes ?es)" unfolding writes by (simp add: agree_def)
  from cluster_converges [OF run fresh plain agree drained nodes]
  have "values_of (contents (api_store api)) ''x'' = values_of (contents (api_store api')) ''x''" by simp
  with run writes nodes show ?thesis by iprover
qed

end
