(* ===== verification/KV_Gossip_Loop.thy ===== *)
theory KV_Gossip_Loop
  imports KV_Gossip
begin

text \<open>
  The gossip goroutines (\<open>internal/cluster/gossip.go\<close>): \<open>Start\<close> runs the gossip loop, the
  suspicion loop and the bootstrap, every tick of the gossip loop starts one more goroutine for a
  ping, and all of them share the membership table with the HTTP handlers. The table's lock makes
  single table operations atomic, nothing more: here every goroutine is the list of table
  operations it still has to do, and a step runs one of them. The functions of theory
  \<open>KV_Gossip\<close> are the runs in which nobody else gets in between.
\<close>

section \<open>The code\<close>

text \<open>
  What a goroutine does to the table under one hold of the lock: the \<open>delete\<close> of the provisional
  entry, \<open>AddOrUpdate\<close>, \<open>UpdateRTT\<close>, the \<open>Get\<close> of one turn of \<open>MergePeers\<close>; and the request of a
  ping.
\<close>

datatype action =
    Forget
  | Update string string string
  | SetRTT string duration
  | Merge Peer
  | SendPing Peer

text \<open>One turn of the loop in \<open>MergePeers\<close> after its \<open>Get\<close>.\<close>

definition merge_next :: "GossipManager \<Rightarrow> Peer \<Rightarrow> Peer option \<Rightarrow> action list" where
  "merge_next gm rp local =
     (if NodeID rp = gm_nodeID gm then []
      else
        (case local of
           None \<Rightarrow> (if State rp \<noteq> StateDead then [Update (NodeID rp) (Address rp) (State rp)] else [])
         | Some localPeer \<Rightarrow>
             (if State localPeer = StateDead then []
              else if State rp = StateDead then [Update (NodeID rp) (Address rp) StateDead]
              else if State rp = StateSuspect \<and> State localPeer = StateAlive
              then [Update (NodeID rp) (Address rp) StateSuspect]
              else if State rp = StateAlive \<and> State localPeer = StateSuspect then
                (if After (LastSeen rp) (time_Add (LastSeen localPeer) (gm_suspicionWindow gm))
                 then [Update (NodeID rp) (Address rp) StateAlive] else [])
              else [])))"

text \<open>An operation on the table, with the readings of the clock, and what it leads to.\<close>

fun act :: "GossipManager \<Rightarrow> gotime \<times> gotime \<Rightarrow> action \<Rightarrow> PeerManager \<Rightarrow> PeerManager \<times> action list" where
  "act gm now Forget pm = (pm(''seed'' := None), [])"
| "act gm now (Update i a s) pm = (AddOrUpdate now i a s pm, [])"
| "act gm now (SetRTT i rtt) pm = (UpdateRTT (fst now) i rtt pm, [])"
| "act gm now (Merge rp) pm = (pm, merge_next gm rp (pm_Get (NodeID rp) pm))"
| "act gm now (SendPing p) pm = (pm, [])"

text \<open>The rest of \<open>pingPeer\<close> after the HTTP exchange.\<close>

definition failed_actions :: "Peer \<Rightarrow> action list" where
  "failed_actions p = (if State p = StateAlive \<or> NodeID p = ''seed'' then [Update (NodeID p) (Address p) StateSuspect] else [])"

definition ping_actions :: "Peer \<Rightarrow> duration \<Rightarrow> ping_result \<Rightarrow> action list" where
  "ping_actions p rtt result =
     (case result of
        BadUrl \<Rightarrow> []
      | Unreachable \<Rightarrow> failed_actions p
      | PingStatus code \<Rightarrow> (if code \<noteq> 200 then failed_actions p else [])
      | BodyUnreadable \<Rightarrow> []
      | BodyNotJson \<Rightarrow> []
      | PeerList remotePeers \<Rightarrow>
          (let (actualNodeID, forget) =
                 (if NodeID p = ''seed'' then
                    (case find (\<lambda>rp. Address rp = Address p) remotePeers of
                       None \<Rightarrow> (NodeID p, [])
                     | Some rp \<Rightarrow> (NodeID rp, [Forget]))
                  else (NodeID p, []))
           in forget @ [Update actualNodeID (Address p) StateAlive, SetRTT actualNodeID rtt] @ map Merge remotePeers))"

text \<open>\<open>bootstrap\<close>, and \<open>checkSuspicious\<close> after its \<open>GetAll\<close> and its reading of the clock.\<close>

definition bootstrap_actions :: "GossipManager \<Rightarrow> action list" where
  "bootstrap_actions gm =
     [Update ''seed'' (gm_seedAddr gm) StateAlive, SendPing (new_peer ''seed'' (gm_seedAddr gm))]"

definition check_actions :: "GossipManager \<Rightarrow> gotime \<Rightarrow> Peer list \<Rightarrow> action list" where
  "check_actions gm now peers =
     map (\<lambda>p. Update (NodeID p) (Address p) StateDead)
       (filter (\<lambda>p. State p = StateSuspect \<and> time_Sub now (SuspiciousAt p) \<ge> gm_suspicionWindow gm) peers)"

text \<open>
  The goroutines of a node. \<open>gn_check\<close> is what the suspicion loop still has to do in its current
  round; \<open>None\<close> after it returned. A ping waits for its answer with the time it was sent.
\<close>

datatype task = Acting "action list" | Awaiting Peer gotime

record gossip_node =
  gn_gm :: GossipManager
  gn_pm :: PeerManager
  gn_loop :: bool
  gn_check :: "action list option"
  gn_tasks :: "task multiset"
  gn_crashed :: bool

definition Start :: "GossipManager \<Rightarrow> PeerManager \<Rightarrow> gossip_node" where
  "Start gm pm = \<lparr>gn_gm = gm, gn_pm = pm, gn_loop = True, gn_check = Some [],
     gn_tasks = (if gm_seedAddr gm \<noteq> [] then {#Acting (bootstrap_actions gm)#} else {#}), gn_crashed = False\<rparr>"

definition replace_task :: "task \<Rightarrow> task \<Rightarrow> gossip_node \<Rightarrow> gossip_node" where
  "replace_task t t' s = s\<lparr>gn_tasks := gn_tasks s - {#t#} + {#t'#}\<rparr>"

text \<open>
  The steps. \<open>GHeard\<close> and \<open>GLagged\<close> are the table operations of the ping handler and of the
  replicator; the other events are those of this node's gossip goroutines. A \<open>select\<close> with a tick
  and a closed stop channel may choose either.
\<close>

datatype gossip_event =
    GTick gotime
  | GActed action
  | GSent Peer
  | GAnswered Peer ping_result
  | GCheck gotime
  | GChecked action
  | GStop
  | GLoopExit
  | GCheckExit
  | GHeard string string
  | GLagged string int

inductive gossipLoop :: "gossip_node \<Rightarrow> gossip_event \<Rightarrow> gossip_node \<Rightarrow> bool" where
  ticks: "gn_loop s \<Longrightarrow> ranges order (gn_pm s) \<Longrightarrow> tick (gn_gm s) now order (gn_pm s) = Inr target \<Longrightarrow>
    gossipLoop s (GTick now)
      (s\<lparr>gn_tasks := gn_tasks s + (case target of None \<Rightarrow> {#} | Some p \<Rightarrow> {#Acting [SendPing p]#})\<rparr>)"
| panics: "gn_loop s \<Longrightarrow> ranges order (gn_pm s) \<Longrightarrow> tick (gn_gm s) now order (gn_pm s) = Inl () \<Longrightarrow>
    gossipLoop s (GTick now) (s\<lparr>gn_crashed := True\<rparr>)"
| returns: "gn_loop s \<Longrightarrow> gm_stopped (gn_gm s) \<Longrightarrow> gossipLoop s GLoopExit (s\<lparr>gn_loop := False\<rparr>)"

inductive suspicionCheckLoop :: "gossip_node \<Rightarrow> gossip_event \<Rightarrow> gossip_node \<Rightarrow> bool" where
  starts: "gn_check s = Some [] \<Longrightarrow> ranges order (gn_pm s) \<Longrightarrow>
    suspicionCheckLoop s (GCheck now) (s\<lparr>gn_check := Some (check_actions (gn_gm s) now (GetAll order (gn_pm s)))\<rparr>)"
| turns: "gn_check s = Some (a # as) \<Longrightarrow> act (gn_gm s) now a (gn_pm s) = (pm', rest) \<Longrightarrow>
    suspicionCheckLoop s (GChecked a) (s\<lparr>gn_pm := pm', gn_check := Some (rest @ as)\<rparr>)"
| returns: "gn_check s = Some [] \<Longrightarrow> gm_stopped (gn_gm s) \<Longrightarrow> suspicionCheckLoop s GCheckExit (s\<lparr>gn_check := None\<rparr>)"

inductive gossip_step :: "gossip_node \<Rightarrow> gossip_event \<Rightarrow> gossip_node \<Rightarrow> bool" where
  looped: "\<not> gn_crashed s \<Longrightarrow> gossipLoop s e s' \<Longrightarrow> gossip_step s e s'"
| suspected: "\<not> gn_crashed s \<Longrightarrow> suspicionCheckLoop s e s' \<Longrightarrow> gossip_step s e s'"
| acted: "\<not> gn_crashed s \<Longrightarrow> Acting (a # as) \<in># gn_tasks s \<Longrightarrow> (\<And>p. a \<noteq> SendPing p) \<Longrightarrow> act (gn_gm s) now a (gn_pm s) = (pm', rest) \<Longrightarrow>
    gossip_step s (GActed a) (replace_task (Acting (a # as)) (Acting (rest @ as)) (s\<lparr>gn_pm := pm'\<rparr>))"
| sent: "\<not> gn_crashed s \<Longrightarrow> Acting [SendPing p] \<in># gn_tasks s \<Longrightarrow>
    gossip_step s (GSent p) (replace_task (Acting [SendPing p]) (Awaiting p start) s)"
| answered: "\<not> gn_crashed s \<Longrightarrow> Awaiting p start \<in># gn_tasks s \<Longrightarrow>
    gossip_step s (GAnswered p result)
      (replace_task (Awaiting p start) (Acting (ping_actions p (time_Sub done_at start) result)) s)"
| stops: "\<not> gn_crashed s \<Longrightarrow> gm_Stop (gn_gm s) = Some gm' \<Longrightarrow> gossip_step s GStop (s\<lparr>gn_gm := gm'\<rparr>)"
| stop_panic: "\<not> gn_crashed s \<Longrightarrow> gm_Stop (gn_gm s) = None \<Longrightarrow> gossip_step s GStop (s\<lparr>gn_crashed := True\<rparr>)"
| heard: "\<not> gn_crashed s \<Longrightarrow> gossip_step s (GHeard i a) (s\<lparr>gn_pm := AddOrUpdate now i a StateAlive (gn_pm s)\<rparr>)"
| lagged: "\<not> gn_crashed s \<Longrightarrow> gossip_step s (GLagged i lag) (s\<lparr>gn_pm := UpdateLag i lag (gn_pm s)\<rparr>)"

lemmas loop_exits = looped [OF _ gossipLoop.returns]
lemmas check_starts = suspected [OF _ suspicionCheckLoop.starts]
lemmas checks = suspected [OF _ suspicionCheckLoop.turns]
lemmas check_exits = suspected [OF _ suspicionCheckLoop.returns]

lemma gossip_step_cases [consumes 1, case_names ticked tick_panic loop_exits check_starts checks check_exits
    acted sent answered stops stop_panic heard lagged]:
  assumes "gossip_step s e s'"
  obtains (ticked) order now target where "e = GTick now"
      "s' = s\<lparr>gn_tasks := gn_tasks s + (case target of None \<Rightarrow> {#} | Some p \<Rightarrow> {#Acting [SendPing p]#})\<rparr>"
      "\<not> gn_crashed s" "gn_loop s" "ranges order (gn_pm s)" "tick (gn_gm s) now order (gn_pm s) = Inr target"
  | (tick_panic) order now where "e = GTick now" "s' = s\<lparr>gn_crashed := True\<rparr>" "\<not> gn_crashed s" "gn_loop s"
  | (loop_exits) "e = GLoopExit" "s' = s\<lparr>gn_loop := False\<rparr>" "\<not> gn_crashed s" "gn_loop s" "gm_stopped (gn_gm s)"
  | (check_starts) order now where "e = GCheck now"
      "s' = s\<lparr>gn_check := Some (check_actions (gn_gm s) now (GetAll order (gn_pm s)))\<rparr>" "\<not> gn_crashed s"
      "gn_check s = Some []" "ranges order (gn_pm s)"
  | (checks) a as now pm' rest where "e = GChecked a" "s' = s\<lparr>gn_pm := pm', gn_check := Some (rest @ as)\<rparr>" "\<not> gn_crashed s"
      "gn_check s = Some (a # as)" "act (gn_gm s) now a (gn_pm s) = (pm', rest)"
  | (check_exits) "e = GCheckExit" "s' = s\<lparr>gn_check := None\<rparr>" "\<not> gn_crashed s" "gn_check s = Some []" "gm_stopped (gn_gm s)"
  | (acted) a as now pm' rest where "e = GActed a"
      "s' = replace_task (Acting (a # as)) (Acting (rest @ as)) (s\<lparr>gn_pm := pm'\<rparr>)" "\<not> gn_crashed s"
      "Acting (a # as) \<in># gn_tasks s" "\<And>p. a \<noteq> SendPing p" "act (gn_gm s) now a (gn_pm s) = (pm', rest)"
  | (sent) p start where "e = GSent p" "s' = replace_task (Acting [SendPing p]) (Awaiting p start) s" "\<not> gn_crashed s"
      "Acting [SendPing p] \<in># gn_tasks s"
  | (answered) p start result done_at where "e = GAnswered p result"
      "s' = replace_task (Awaiting p start) (Acting (ping_actions p (time_Sub done_at start) result)) s" "\<not> gn_crashed s"
      "Awaiting p start \<in># gn_tasks s"
  | (stops) gm' where "e = GStop" "s' = s\<lparr>gn_gm := gm'\<rparr>" "\<not> gn_crashed s" "gm_Stop (gn_gm s) = Some gm'"
  | (stop_panic) "e = GStop" "s' = s\<lparr>gn_crashed := True\<rparr>" "\<not> gn_crashed s" "gm_Stop (gn_gm s) = None"
  | (heard) now i a where "e = GHeard i a" "s' = s\<lparr>gn_pm := AddOrUpdate now i a StateAlive (gn_pm s)\<rparr>" "\<not> gn_crashed s"
  | (lagged) i lag where "e = GLagged i lag" "s' = s\<lparr>gn_pm := UpdateLag i lag (gn_pm s)\<rparr>" "\<not> gn_crashed s"
  using assms
proof (cases rule: gossip_step.cases)
  case looped
  from looped(2) show thesis using looped(1) ticked tick_panic loop_exits by (cases rule: gossipLoop.cases) auto
next
  case suspected
  from suspected(2) show thesis using suspected(1) check_starts checks check_exits by (cases rule: suspicionCheckLoop.cases) auto
qed (rule acted sent answered stops stop_panic heard lagged; assumption)+

inductive gossip_run :: "gossip_node \<Rightarrow> gossip_event list \<Rightarrow> gossip_node \<Rightarrow> bool" for s where
  gossip_nil: "gossip_run s [] s"
| gossip_snoc: "gossip_run s es s' \<Longrightarrow> gossip_step s' e s'' \<Longrightarrow> gossip_run s (es @ [e]) s''"

inductive_simps gossip_run_nil [simp]: "gossip_run s [] s'"

section \<open>Goroutines without interference\<close>

text \<open>A goroutine that is alone with the table; each of its own turns has one reading of the clock.\<close>

fun perform :: "GossipManager \<Rightarrow> (nat \<Rightarrow> gotime \<times> gotime) \<Rightarrow> nat \<Rightarrow> action list \<Rightarrow> PeerManager \<Rightarrow> PeerManager" where
  "perform gm clk n [] pm = pm"
| "perform gm clk n (a # as) pm =
     (let (pm', rest) = act gm (clk n) a pm
      in perform gm clk (Suc n) as (fold (\<lambda>b pm. fst (act gm (clk n) b pm)) rest pm'))"

lemma perform_append: "perform gm clk n (as @ bs) pm = perform gm clk (n + length as) bs (perform gm clk n as pm)"
  by (induction as arbitrary: n pm) (simp_all add: case_prod_beta Let_def)

lemma merge_next_act:
  "fold (\<lambda>b pm. fst (act gm now b pm)) (merge_next gm rp (pm_Get (NodeID rp) pm)) pm = merge_peer gm now rp pm"
  by (auto simp: merge_next_def merge_peer_def split: option.split)

lemma perform_merge: "perform gm clk n (map Merge rps) pm = MergePeers gm (\<lambda>i. clk (n + i)) rps pm"
proof -
  have "perform gm clk (n + m) (map Merge rps) pm = fold (\<lambda>(i, rp). merge_peer gm (clk (n + i)) rp) (enumerate m rps) pm" for m
    by (induction rps arbitrary: m pm) (simp_all add: merge_next_act flip: add_Suc_right)
  from this [of 0] show ?thesis by (simp add: MergePeers_def)
qed

lemma perform_checks:
  "perform gm clk n (check_actions gm now ps) pm =
     fold (\<lambda>(i, p) pm. AddOrUpdate (clk i) (NodeID p) (Address p) StateDead pm)
       (enumerate n (filter (\<lambda>p. State p = StateSuspect \<and> time_Sub now (SuspiciousAt p) \<ge> gm_suspicionWindow gm) ps)) pm"
  by (induction ps arbitrary: n pm) (simp_all add: check_actions_def)

text \<open>Readings of the clock for all turns of a loop give readings for the selected ones.\<close>

lemma selected_readings:
  "\<exists>clk. fold (\<lambda>(i, p). g (clk i) p) (enumerate n (filter P ps)) x =
     fold (\<lambda>(i, p). if P p then g (clk' i) p else id) (enumerate m ps) x"
proof (induction ps arbitrary: n m x)
  case (Cons p ps)
  show ?case
  proof (cases "P p")
    case True
    obtain clk where clk: "fold (\<lambda>(i, p). g (clk i) p) (enumerate (Suc n) (filter P ps)) (g (clk' m) p x) =
        fold (\<lambda>(i, p). if P p then g (clk' i) p else id) (enumerate (Suc m) ps) (g (clk' m) p x)"
      using Cons.IH by blast
    have "fold (\<lambda>(i, p). g (clk i) p) (enumerate (Suc n) (filter P ps)) (g (clk' m) p x) =
        fold (\<lambda>(i, p). g ((clk(n := clk' m)) i) p) (enumerate (Suc n) (filter P ps)) (g (clk' m) p x)"
      by (rule fold_cong) (auto simp: in_set_enumerate_eq)
    with clk True show ?thesis by (intro exI [of _ "clk(n := clk' m)"]) simp
  next
    case False
    with Cons.IH [of n x "Suc m"] show ?thesis by simp
  qed
qed simp

lemma perform_check:
  "\<exists>clk. perform gm clk 0 (check_actions gm now (GetAll order pm)) pm = checkSuspicious gm now clk' order pm"
proof -
  let ?P = "\<lambda>p. State p = StateSuspect \<and> time_Sub now (SuspiciousAt p) \<ge> gm_suspicionWindow gm"
  obtain clk where "perform gm clk 0 (check_actions gm now (GetAll order pm)) pm =
      fold (\<lambda>(i, p). if ?P p then AddOrUpdate (clk' i) (NodeID p) (Address p) StateDead else id) (enumerate 0 (GetAll order pm)) pm"
    using selected_readings [of "\<lambda>t p. AddOrUpdate t (NodeID p) (Address p) StateDead" 0 ?P "GetAll order pm" pm clk' 0]
    by (auto simp: perform_checks)
  also have "\<dots> = checkSuspicious gm now clk' order pm"
    unfolding checkSuspicious_def by (rule fold_cong) (auto simp: check_peer_def fun_eq_iff)
  finally show ?thesis by blast
qed

lemma perform_ping:
  "\<exists>clk. perform gm clk 0 (ping_actions p (time_Sub (pc_done pc) (pc_start pc)) result) pm = pingPeer gm pc p result pm"
proof -
  let ?seed = "NodeID p = ''seed'' \<and> (\<exists>rps rp. result = PeerList rps \<and> find (\<lambda>rp. Address rp = Address p) rps = Some rp)"
  define n where "n = (if ?seed then 1 else 0 :: nat)"
  define clk where "clk i = (if i = n then pc_update pc else if i = Suc n then (pc_rtt pc, 0) else pc_merge pc (i - Suc (Suc n)))" for i
  have "perform gm clk 0 (ping_actions p (time_Sub (pc_done pc) (pc_start pc)) result) pm = pingPeer gm pc p result pm"
    by (cases result) (auto simp: ping_actions_def pingPeer_def failed_actions_def ping_failed_def clk_def n_def perform_merge
        perform_append split: option.split)
  then show ?thesis by blast
qed

section \<open>Runs\<close>

lemma run_trans: "gossip_run s' es' s'' \<Longrightarrow> gossip_run s es s' \<Longrightarrow> gossip_run s (es @ es') s''"
proof (induction rule: gossip_run.induct)
  case (gossip_snoc es' s'' e t)
  from gossip_run.gossip_snoc [OF gossip_snoc.IH [OF gossip_snoc.prems] gossip_snoc.hyps(2)] show ?case by simp
qed simp

lemma run_single: "gossip_step s e s' \<Longrightarrow> gossip_run s [e] s'"
  using gossip_run.gossip_snoc [OF gossip_run.gossip_nil, of s e s'] by simp

lemma run_cons: "gossip_step s e s' \<Longrightarrow> gossip_run s' es s'' \<Longrightarrow> gossip_run s (e # es) s''"
  using run_trans [OF _ run_single] by fastforce

lemma replace_simps [simp]:
  "gn_gm (replace_task t t' s) = gn_gm s" "gn_pm (replace_task t t' s) = gn_pm s" "gn_crashed (replace_task t t' s) = gn_crashed s"
  "gn_loop (replace_task t t' s) = gn_loop s" "gn_check (replace_task t t' s) = gn_check s"
  "gn_tasks (replace_task t t' s) = gn_tasks s - {#t#} + {#t'#}"
  "(replace_task t t' s)\<lparr>gn_pm := pm\<rparr> = replace_task t t' (s\<lparr>gn_pm := pm\<rparr>)"
  by (simp_all add: replace_task_def)

lemma replace_trans [simp]: "replace_task t' t'' (replace_task t t' s) = replace_task t t'' s"
  by (simp add: replace_task_def)

definition local_action :: "action \<Rightarrow> bool" where
  "local_action a \<longleftrightarrow> (\<forall>p. a \<noteq> SendPing p)"

lemma ping_actions_local: "list_all local_action (ping_actions p rtt result)"
  by (auto simp: ping_actions_def failed_actions_def local_action_def list_all_iff split: ping_result.split option.split)

lemma merge_next_cases: "merge_next gm rp local = [] \<or> (\<exists>st. merge_next gm rp local = [Update (NodeID rp) (Address rp) st])"
  by (auto simp: merge_next_def split: option.split)

text \<open>A turn of a goroutine that is not interrupted, follow-up included.\<close>

lemma task_turn:
  assumes "\<not> gn_crashed s" "Acting (a # as) \<in># gn_tasks s" "local_action a" "act (gn_gm s) now a (gn_pm s) = (pm', rest)"
  shows "\<exists>es. gossip_run s es (replace_task (Acting (a # as)) (Acting as)
    (s\<lparr>gn_pm := fold (\<lambda>b pm. fst (act (gn_gm s) now b pm)) rest pm'\<rparr>))"
proof -
  let ?s1 = "replace_task (Acting (a # as)) (Acting (rest @ as)) (s\<lparr>gn_pm := pm'\<rparr>)"
  have first: "gossip_step s (GActed a) ?s1"
    using assms by (intro gossip_step.acted) (auto simp: local_action_def)
  have "rest = [] \<or> (\<exists>i ad st. rest = [Update i ad st])" using assms(4) merge_next_cases [of "gn_gm s"] by (cases a) (auto; metis)+
  then show ?thesis
  proof (elim disjE exE)
    assume "rest = []"
    with run_single [OF first] show ?thesis by auto
  next
    fix i ad st assume r: "rest = [Update i ad st]"
    have "gossip_step ?s1 (GActed (Update i ad st)) (replace_task (Acting (Update i ad st # as)) (Acting ([] @ as))
        (?s1\<lparr>gn_pm := AddOrUpdate now i ad st pm'\<rparr>))"
      by (rule gossip_step.acted [where now = now]) (use assms(1) in \<open>simp_all add: r\<close>)
    from run_cons [OF first run_single [OF this]] r show ?thesis by auto
  qed
qed

lemma task_runs:
  assumes "\<not> gn_crashed s" "Acting as \<in># gn_tasks s" "list_all local_action as"
  shows "\<exists>es. gossip_run s es (replace_task (Acting as) (Acting []) (s\<lparr>gn_pm := perform (gn_gm s) clk n as (gn_pm s)\<rparr>))"
  using assms
proof (induction as arbitrary: s n)
  case Nil
  then have "replace_task (Acting []) (Acting []) s = s" by (simp add: replace_task_def)
  then show ?case by (auto intro: gossip_run.gossip_nil)
next
  case (Cons a as)
  obtain pm' rest where act: "act (gn_gm s) (clk n) a (gn_pm s) = (pm', rest)" by fastforce
  let ?pm = "fold (\<lambda>b pm. fst (act (gn_gm s) (clk n) b pm)) rest pm'"
  let ?s = "replace_task (Acting (a # as)) (Acting as) (s\<lparr>gn_pm := ?pm\<rparr>)"
  obtain es where es: "gossip_run s es ?s" using task_turn [OF Cons.prems(1,2) _ act] Cons.prems(3) by auto
  obtain es' where "gossip_run ?s es' (replace_task (Acting as) (Acting []) (?s\<lparr>gn_pm := perform (gn_gm ?s) clk (Suc n) as (gn_pm ?s)\<rparr>))"
    using Cons.IH [of ?s "Suc n"] Cons.prems by auto
  from run_trans [OF this es] act show ?case by auto
qed

lemma check_runs:
  assumes "\<not> gn_crashed s" "gn_check s = Some (check_actions gm now ps)" "gm = gn_gm s"
  shows "\<exists>es. gossip_run s es (s\<lparr>gn_check := Some [], gn_pm := perform gm clk n (check_actions gm now ps) (gn_pm s)\<rparr>) \<and>
    (\<forall>e \<in> set es. \<exists>u. e = GChecked u)"
  using assms
proof (induction ps arbitrary: s n)
  case Nil
  then have "s\<lparr>gn_check := Some [], gn_pm := gn_pm s\<rparr> = s" by (simp add: check_actions_def)
  then show ?case by (intro exI [of _ "[]"]) (simp add: check_actions_def)
next
  case (Cons p ps)
  show ?case
  proof (cases "State p = StateSuspect \<and> time_Sub now (SuspiciousAt p) \<ge> gm_suspicionWindow gm")
    case True
    let ?u = "Update (NodeID p) (Address p) StateDead"
    let ?s = "s\<lparr>gn_pm := AddOrUpdate (clk n) (NodeID p) (Address p) StateDead (gn_pm s), gn_check := Some ([] @ check_actions gm now ps)\<rparr>"
    have c: "check_actions gm now (p # ps) = ?u # check_actions gm now ps" using True by (simp add: check_actions_def)
    have "gossip_step s (GChecked ?u) ?s"
      by (rule checks [where now = "clk n"]) (use Cons.prems c in simp_all)
    moreover obtain es where "gossip_run ?s es (?s\<lparr>gn_check := Some [], gn_pm := perform gm clk (Suc n) (check_actions gm now ps) (gn_pm ?s)\<rparr>)"
      "\<forall>e \<in> set es. \<exists>u. e = GChecked u"
      using Cons.IH [of ?s "Suc n"] Cons.prems by auto
    ultimately show ?thesis using run_cons by (intro exI [of _ "GChecked ?u # es"]) (fastforce simp: c)
  next
    case False
    then have "check_actions gm now (p # ps) = check_actions gm now ps" by (auto simp: check_actions_def)
    with Cons show ?thesis by simp
  qed
qed

section \<open>What every interleaving keeps\<close>

definition known_state :: "string \<Rightarrow> bool" where
  "known_state st \<longleftrightarrow> st = StateAlive \<or> st = StateSuspect \<or> st = StateDead"

definition table_ok :: "PeerManager \<Rightarrow> bool" where
  "table_ok pm \<longleftrightarrow> keyed pm \<and> (\<forall>k p. pm k = Some p \<longrightarrow> known_state (State p))"

definition target_ok :: "GossipManager \<Rightarrow> Peer \<Rightarrow> bool" where
  "target_ok gm p \<longleftrightarrow> NodeID p \<noteq> gm_nodeID gm \<and> State p \<noteq> StateDead"

fun action_ok :: "GossipManager \<Rightarrow> action \<Rightarrow> bool" where
  "action_ok gm (Update i a st) = known_state st"
| "action_ok gm (Merge rp) = known_state (State rp)"
| "action_ok gm (SendPing p) = target_ok gm p"
| "action_ok gm _ = True"

fun task_ok :: "GossipManager \<Rightarrow> task \<Rightarrow> bool" where
  "task_ok gm (Acting as) = list_all (action_ok gm) as"
| "task_ok gm (Awaiting p start) = target_ok gm p"

definition gossip_inv :: "gossip_node \<Rightarrow> bool" where
  "gossip_inv s \<longleftrightarrow> table_ok (gn_pm s) \<and> (\<forall>t. t \<in># gn_tasks s \<longrightarrow> task_ok (gn_gm s) t) \<and>
     (\<forall>as. gn_check s = Some as \<longrightarrow> list_all (action_ok (gn_gm s)) as)"

text \<open>Remote lists name only the three states; the code does not check this.\<close>

fun event_ok :: "gossip_event \<Rightarrow> bool" where
  "event_ok (GAnswered p (PeerList rps)) = list_all (\<lambda>rp. known_state (State rp)) rps"
| "event_ok _ = True"

lemma known_states [simp]: "known_state StateAlive" "known_state StateSuspect" "known_state StateDead"
  by (simp_all add: known_state_def)

lemma table_ok_AddOrUpdate: "table_ok pm \<Longrightarrow> known_state st \<Longrightarrow> table_ok (AddOrUpdate now i a st pm)"
  by (auto simp: table_ok_def AddOrUpdate_keyed) (auto simp: AddOrUpdate_def Let_def split: if_splits)

lemma table_ok_frame:
  "table_ok pm \<Longrightarrow> table_ok (UpdateRTT now i rtt pm)" "table_ok pm \<Longrightarrow> table_ok (UpdateLag i lag pm)" "table_ok pm \<Longrightarrow> table_ok (pm(k := None))"
  by (auto simp: table_ok_def UpdateRTT_keyed UpdateLag_keyed keyed_delete)
    (auto simp: UpdateRTT_def UpdateLag_def split: option.splits if_splits)

lemma act_ok:
  assumes "table_ok pm" "action_ok gm a" "act gm now a pm = (pm', rest)"
  shows "table_ok pm' \<and> list_all (action_ok gm) rest"
  using assms
  by (cases a) (auto simp: merge_next_def intro: table_ok_AddOrUpdate table_ok_frame split: option.splits if_splits)

lemma ping_actions_ok:
  assumes "event_ok (GAnswered p result)"
  shows "list_all (action_ok gm) (ping_actions p rtt result)"
  using assms by (cases result) (auto simp: ping_actions_def failed_actions_def list_all_iff split: option.split)

lemma go_rem_less:
  assumes "0 < b"
  shows "go_rem a b < b"
proof (cases "a \<ge> 0")
  case False
  have "go_rem a b = - ((- a) mod b)" using False assms by (simp add: go_rem_def)
  also have "\<dots> \<le> 0" using assms by simp
  finally show ?thesis using assms by simp
qed (use assms in \<open>simp add: go_rem_def\<close>)

lemma tick_candidate:
  assumes "tick gm now order pm = Inr (Some p)"
  shows "p \<in> set (GetAll order pm) \<and> target_ok gm p"
proof -
  let ?cs = "candidates gm (GetAll order pm)" and ?i = "go_rem (UnixNano now) (int (length (candidates gm (GetAll order pm))))"
  have p: "?cs \<noteq> []" "\<not> ?i < 0" "p = ?cs ! nat ?i" using assms by (auto simp: tick_def Let_def split: if_splits)
  have "?i < int (length ?cs)" using p(1) by (intro go_rem_less) simp
  with p have "p \<in> set ?cs" by simp
  then show ?thesis by (simp add: candidates_set target_ok_def)
qed

lemma inv_tasks:
  assumes "gossip_inv s" "task_ok (gn_gm s) t'"
  shows "gossip_inv (replace_task t t' s)"
  using assms by (auto simp: gossip_inv_def dest: in_diffD)

lemma inv_table: "gossip_inv s \<Longrightarrow> table_ok pm \<Longrightarrow> gossip_inv (s\<lparr>gn_pm := pm\<rparr>)"
  by (simp add: gossip_inv_def)

lemma same_name:
  assumes "gm_nodeID gm' = gm_nodeID gm"
  shows "action_ok gm' = action_ok gm" "task_ok gm' t = task_ok gm t"
proof -
  have "action_ok gm' a = action_ok gm a" for a using assms by (cases a) (simp_all add: target_ok_def)
  then show "action_ok gm' = action_ok gm" by blast
  then show "task_ok gm' t = task_ok gm t" using assms by (cases t) (simp_all add: target_ok_def)
qed

lemma gossip_step_inv:
  assumes "gossip_step s e s'" "gossip_inv s" "event_ok e"
  shows "gossip_inv s' \<and> gm_nodeID (gn_gm s') = gm_nodeID (gn_gm s)"
  using assms(1)
proof (cases rule: gossip_step_cases)
  case (ticked order now target)
  then show ?thesis using assms(2) tick_candidate [of "gn_gm s" now order "gn_pm s"]
    by (auto simp: gossip_inv_def split: option.splits)
next
  case (acted a as now pm' rest)
  then have "action_ok (gn_gm s) a" "list_all (action_ok (gn_gm s)) as" "table_ok (gn_pm s)" using assms(2) by (auto simp: gossip_inv_def)
  with act_ok [of "gn_pm s" "gn_gm s" a now pm' rest] acted assms(2) show ?thesis
    by (auto intro!: inv_tasks inv_table)
next
  case (sent p start)
  then have "target_ok (gn_gm s) p" using assms(2) by (auto simp: gossip_inv_def)
  with sent assms(2) show ?thesis by (auto intro!: inv_tasks)
next
  case (answered p start result done_at)
  then show ?thesis using assms(2,3) ping_actions_ok [of p result] by (auto intro!: inv_tasks)
next
  case (check_starts order now)
  then show ?thesis using assms(2) by (auto simp: gossip_inv_def check_actions_def list_all_iff)
next
  case (checks a as now pm' rest)
  then have "action_ok (gn_gm s) a" "list_all (action_ok (gn_gm s)) as" "table_ok (gn_pm s)" using assms(2) by (auto simp: gossip_inv_def)
  with act_ok [of "gn_pm s" "gn_gm s" a now pm' rest] checks assms(2) show ?thesis by (auto simp: gossip_inv_def)
next
  case (stops gm')
  then have "gm_nodeID gm' = gm_nodeID (gn_gm s)" by (auto simp: gm_Stop_def split: if_splits)
  with stops assms(2) same_name [OF this] show ?thesis by (auto simp: gossip_inv_def)
next
  case (heard now i a)
  then show ?thesis using assms(2) by (auto intro!: inv_table table_ok_AddOrUpdate simp: gossip_inv_def)
next
  case (lagged i lag)
  then show ?thesis using assms(2) by (auto intro!: inv_table table_ok_frame simp: gossip_inv_def)
qed (use assms(2) in \<open>auto simp: gossip_inv_def split: option.splits\<close>)

lemma gossip_run_inv:
  assumes "gossip_run s es s'" "gossip_inv s" "list_all event_ok es"
  shows "gossip_inv s' \<and> gm_nodeID (gn_gm s') = gm_nodeID (gn_gm s)"
  using assms by (induction rule: gossip_run.induct) (auto dest: gossip_step_inv)

lemma Start_inv:
  assumes "table_ok pm" "gm_nodeID gm \<noteq> ''seed''"
  shows "gossip_inv (Start gm pm)"
  using assms by (auto simp: gossip_inv_def Start_def bootstrap_actions_def target_ok_def new_peer_def StateDead_def)

lemma performed_checks_kill:
  assumes "p \<in> set ps" "State p = StateSuspect" "time_Sub now (SuspiciousAt p) \<ge> gm_suspicionWindow gm"
  shows "map_option State (perform gm clk n (check_actions gm now ps) pm (NodeID p)) = Some StateDead"
proof -
  have keep: "map_option State (fold (\<lambda>(i, q) pm. AddOrUpdate (clk i) (NodeID q) (Address q) StateDead pm) qs pm k) = Some StateDead"
    if "map_option State (pm k) = Some StateDead" for qs pm k
    using that
  proof (induction qs arbitrary: pm)
    case (Cons q qs)
    have "map_option State (AddOrUpdate now i a StateDead pm k) = Some StateDead" for now i a
      using Cons.prems AddOrUpdate_same [of now k a StateDead pm] by (cases "k = i") auto
    with Cons.IH show ?case by (simp add: case_prod_beta)
  qed simp
  have "map_option State (fold (\<lambda>(i, q) pm. AddOrUpdate (clk i) (NodeID q) (Address q) StateDead pm) (enumerate n qs) pm (NodeID p)) = Some StateDead"
    if "p \<in> set qs" for qs
    using that
  proof (induction qs arbitrary: n pm)
    case (Cons q qs)
    show ?case
    proof (cases "p = q")
      case True
      have "map_option State (AddOrUpdate (clk n) (NodeID p) (Address p) StateDead pm (NodeID p)) = Some StateDead"
        using AddOrUpdate_same [of "clk n" "NodeID p" "Address p" StateDead pm] by auto
      from keep [of "AddOrUpdate (clk n) (NodeID p) (Address p) StateDead pm" "NodeID p", OF this, of "enumerate (Suc n) qs"] True
      show ?thesis by simp
    qed (use Cons in auto)
  qed simp
  then show ?thesis using assms by (simp add: perform_checks)
qed

text \<open>
  The goroutines refine the functions: a ping goroutine that gets its answer and runs through
  without another one in between has the effect of \<open>pingPeer\<close> on the membership table, and a
  round of the suspicion loop that nothing interrupts has that of \<open>checkSuspicious\<close>.
\<close>

lemma goroutines_refine:
  assumes "\<not> gn_crashed s"
    and "Awaiting p (pc_start pc) \<in># gn_tasks s" "gn_check s = Some []" "ranges order (gn_pm s)"
  shows "(\<exists>es. gossip_run s (GAnswered p result # es)
       (replace_task (Awaiting p (pc_start pc)) (Acting []) (s\<lparr>gn_pm := pingPeer (gn_gm s) pc p result (gn_pm s)\<rparr>))) \<and>
    (\<exists>es. gossip_run s (GCheck now # es) (s\<lparr>gn_pm := checkSuspicious (gn_gm s) now clk order (gn_pm s)\<rparr>))"
proof
  let ?as = "ping_actions p (time_Sub (pc_done pc) (pc_start pc)) result"
  let ?s = "replace_task (Awaiting p (pc_start pc)) (Acting ?as) s"
  have first: "gossip_step s (GAnswered p result) ?s" by (rule gossip_step.answered [OF assms(1,2)])
  obtain clk where "perform (gn_gm s) clk 0 ?as (gn_pm s) = pingPeer (gn_gm s) pc p result (gn_pm s)" using perform_ping by blast
  then obtain es where "gossip_run ?s es (replace_task (Acting ?as) (Acting []) (?s\<lparr>gn_pm := pingPeer (gn_gm s) pc p result (gn_pm s)\<rparr>))"
    using task_runs [of ?s ?as clk 0] assms(1) ping_actions_local by auto
  from run_cons [OF first this]
  show "\<exists>es. gossip_run s (GAnswered p result # es)
      (replace_task (Awaiting p (pc_start pc)) (Acting []) (s\<lparr>gn_pm := pingPeer (gn_gm s) pc p result (gn_pm s)\<rparr>))" by auto
next
  let ?cs = "check_actions (gn_gm s) now (GetAll order (gn_pm s))"
  let ?s = "s\<lparr>gn_check := Some ?cs\<rparr>"
  have first: "gossip_step s (GCheck now) ?s" by (rule check_starts [OF assms(1,3,4)])
  obtain clk' where "perform (gn_gm s) clk' 0 ?cs (gn_pm s) = checkSuspicious (gn_gm s) now clk order (gn_pm s)"
    using perform_check by blast
  then obtain es where "gossip_run ?s es (?s\<lparr>gn_check := Some [], gn_pm := checkSuspicious (gn_gm s) now clk order (gn_pm s)\<rparr>)"
    using check_runs [of ?s "gn_gm s" now "GetAll order (gn_pm s)" clk' 0] assms(1) by auto
  moreover have "s\<lparr>gn_check := Some [], gn_pm := pm\<rparr> = s\<lparr>gn_pm := pm\<rparr>" for pm using assms(3) by simp
  ultimately show "\<exists>es. gossip_run s (GCheck now # es) (s\<lparr>gn_pm := checkSuspicious (gn_gm s) now clk order (gn_pm s)\<rparr>)"
    using run_cons [OF first] by auto
qed

section \<open>A peer that is not heard of\<close>

text \<open>
  What may still happen to a suspect of which nothing good is heard: it is declared dead. A
  pending operation or ping that would not clear or renew the suspicion, and an event that is no
  sign of life: the peer neither sends a ping nor answers one (under its own name, or under its
  address as the seed), and no list that comes in calls it alive.
\<close>

fun quiet_action :: "string \<Rightarrow> action \<Rightarrow> bool" where
  "quiet_action k (Update i a st) \<longleftrightarrow> (i = k \<longrightarrow> st = StateDead)"
| "quiet_action k (Merge rp) \<longleftrightarrow> (NodeID rp = k \<longrightarrow> State rp \<noteq> StateAlive)"
| "quiet_action k (SendPing p) \<longleftrightarrow> (NodeID p = k \<longrightarrow> State p \<noteq> StateAlive)"
| "quiet_action k _ \<longleftrightarrow> True"

fun quiet_task :: "string \<Rightarrow> task \<Rightarrow> bool" where
  "quiet_task k (Acting as) \<longleftrightarrow> list_all (quiet_action k) as"
| "quiet_task k (Awaiting p start) \<longleftrightarrow> (NodeID p = k \<longrightarrow> State p \<noteq> StateAlive)"

definition quiet :: "string \<Rightarrow> gossip_node \<Rightarrow> bool" where
  "quiet k s \<longleftrightarrow> (\<forall>t. t \<in># gn_tasks s \<longrightarrow> quiet_task k t) \<and> (\<forall>as. gn_check s = Some as \<longrightarrow> list_all (quiet_action k) as)"

fun no_sign_of :: "string \<Rightarrow> gossip_event \<Rightarrow> bool" where
  "no_sign_of k (GHeard i a) \<longleftrightarrow> i \<noteq> k"
| "no_sign_of k (GAnswered p (PeerList rps)) \<longleftrightarrow> NodeID p \<noteq> k \<and>
     list_all (\<lambda>rp. NodeID rp = k \<longrightarrow> State rp \<noteq> StateAlive \<and> (NodeID p = ''seed'' \<longrightarrow> Address rp \<noteq> Address p)) rps"
| "no_sign_of k e \<longleftrightarrow> True"

definition suspect_since :: "string \<Rightarrow> gotime \<Rightarrow> PeerManager \<Rightarrow> bool" where
  "suspect_since k t pm \<longleftrightarrow>
     (\<exists>p. pm k = Some p \<and> (State p = StateDead \<or> (State p = StateSuspect \<and> SuspiciousAt p = t)))"

lemma suspect_since_table:
  assumes "suspect_since k t pm"
  shows "suspect_since k t (AddOrUpdate now k a StateDead pm)" "i \<noteq> k \<Longrightarrow> suspect_since k t (AddOrUpdate now i a st pm)"
    and "suspect_since k t (UpdateRTT u i rtt pm)" "suspect_since k t (UpdateLag i lag pm)" "i \<noteq> k \<Longrightarrow> suspect_since k t (pm(i := None))"
  using assms AddOrUpdate_same [of now k a StateDead pm]
  by (auto simp: suspect_since_def UpdateRTT_def UpdateLag_def split: option.splits)

lemma quiet_act:
  assumes "act gm now a pm = (pm', rest)" "quiet_action k a" "suspect_since k t pm" "k \<noteq> ''seed''"
  shows "suspect_since k t pm' \<and> list_all (quiet_action k) rest"
proof (cases a)
  case (Update i ad st)
  with assms(1,2) show ?thesis by (cases "i = k") (auto simp: suspect_since_table(1,2) [OF assms(3)])
next
  case (Merge rp)
  with assms show ?thesis
    by (auto simp: merge_next_def suspect_since_def pm_Get_def split: option.splits if_splits)
qed (use assms suspect_since_table [OF assms(3)] in auto)

lemma quiet_ping:
  assumes "no_sign_of k (GAnswered p result)" "NodeID p = k \<Longrightarrow> State p \<noteq> StateAlive" "k \<noteq> ''seed''"
  shows "list_all (quiet_action k) (ping_actions p rtt result)"
proof (cases result)
  case (PeerList rps)
  have "NodeID rp \<noteq> k" if "find (\<lambda>rp. Address rp = Address p) rps = Some rp" "NodeID p = ''seed''" for rp
    using that assms(1) PeerList by (auto simp: find_Some_iff list_all_iff)
  with PeerList assms show ?thesis by (auto simp: ping_actions_def list_all_iff split: option.split)
qed (use assms in \<open>auto simp: ping_actions_def failed_actions_def\<close>)

lemma quiet_replace: "quiet k s \<Longrightarrow> quiet_task k t' \<Longrightarrow> quiet k (replace_task t t' s)"
  by (auto simp: quiet_def dest: in_diffD)

lemma quiet_pm [simp]: "quiet k (s\<lparr>gn_pm := pm\<rparr>) = quiet k s"
  by (simp add: quiet_def)

text \<open>The suspicion of the peer stands, or it is dead.\<close>

definition fading :: "string \<Rightarrow> gotime \<Rightarrow> duration \<Rightarrow> gossip_node \<Rightarrow> bool" where
  "fading k t w s \<longleftrightarrow> suspect_since k t (gn_pm s) \<and> quiet k s \<and> keyed (gn_pm s) \<and> gm_suspicionWindow (gn_gm s) = w"

lemma act_keyed: "act gm now a pm = (pm', rest) \<Longrightarrow> keyed pm \<Longrightarrow> keyed pm'"
  by (cases a) (auto simp: AddOrUpdate_keyed UpdateRTT_keyed keyed_delete)

lemma fading_step:
  assumes "gossip_step s e s'" "fading k t w s" "no_sign_of k e" "k \<noteq> ''seed''"
  shows "fading k t w s'"
proof -
  have since: "suspect_since k t (gn_pm s)" and quiet: "quiet k s" and keyed: "keyed (gn_pm s)"
    using assms(2) by (auto simp: fading_def)
  show ?thesis
    using assms(1)
  proof (cases rule: gossip_step_cases)
    case (ticked order now target)
    have "State p \<noteq> StateAlive" if "target = Some p" "NodeID p = k" for p
      using tick_candidate [of "gn_gm s" now order "gn_pm s" p] ticked(6) that since GetAll_set [OF keyed ticked(5)]
      by (auto simp: suspect_since_def)
    with ticked assms(2) show ?thesis by (auto simp: fading_def quiet_def split: option.split)
  next
    case (acted a as now pm' rest)
    then have "quiet_action k a" "list_all (quiet_action k) as" using quiet by (auto simp: quiet_def)
    with quiet_act [OF acted(6) _ since assms(4)] act_keyed [OF acted(6) keyed] acted assms(2) show ?thesis
      by (auto simp: fading_def intro!: quiet_replace)
  next
    case (sent p start)
    then have "quiet_task k (Awaiting p start)" using quiet by (auto simp: quiet_def)
    with sent assms(2) show ?thesis by (auto simp: fading_def intro!: quiet_replace)
  next
    case (answered p start result done_at)
    then have "NodeID p = k \<Longrightarrow> State p \<noteq> StateAlive" using quiet by (auto simp: quiet_def)
    with quiet_ping [of k p result] answered assms(2-4) show ?thesis by (auto simp: fading_def intro!: quiet_replace)
  next
    case (check_starts order now)
    then show ?thesis using assms(2) by (auto simp: fading_def quiet_def check_actions_def list_all_iff)
  next
    case (checks a as now pm' rest)
    then have "quiet_action k a" "list_all (quiet_action k) as" using quiet by (auto simp: quiet_def)
    with quiet_act [OF checks(5) _ since assms(4)] act_keyed [OF checks(5) keyed] checks assms(2) show ?thesis
      by (auto simp: fading_def quiet_def)
  next
    case (stops gm')
    then show ?thesis using assms(2) by (auto simp: fading_def quiet_def gm_Stop_def split: if_splits)
  next
    case (heard now i a)
    then show ?thesis using assms(2,3) suspect_since_table(2) [OF since, of i] by (auto simp: fading_def AddOrUpdate_keyed)
  next
    case (lagged i lag)
    then show ?thesis using assms(2) suspect_since_table(4) [OF since] by (auto simp: fading_def UpdateLag_keyed)
  qed (use assms(2) in \<open>auto simp: fading_def quiet_def\<close>)
qed

lemma fading_run:
  "gossip_run s es s' \<Longrightarrow> fading k t w s \<Longrightarrow> list_all (no_sign_of k) es \<Longrightarrow> k \<noteq> ''seed'' \<Longrightarrow> fading k t w s'"
  by (induction rule: gossip_run.induct) (auto dest: fading_step)

text \<open>After a check that finds the window over, the peer is dead or about to be declared so.\<close>

definition condemned :: "string \<Rightarrow> gossip_node \<Rightarrow> bool" where
  "condemned k s \<longleftrightarrow> map_option State (gn_pm s k) = Some StateDead \<or>
     (\<exists>as a. gn_check s = Some as \<and> Update k a StateDead \<in> set as)"

lemma dead_stays:
  assumes "gossip_step s e s'" "fading k t w s" "no_sign_of k e" "k \<noteq> ''seed''" "map_option State (gn_pm s k) = Some StateDead"
  shows "map_option State (gn_pm s' k) = Some StateDead"
proof -
  obtain p where p: "gn_pm s k = Some p" "State p = StateDead" using assms(5) by auto
  have "fading k u w s" if "u \<noteq> t" for u using assms(2) p by (auto simp: fading_def suspect_since_def)
  from fading_step [OF assms(1) this assms(3,4), of "t + 1"] fading_step [OF assms(1-4)] show ?thesis
    by (auto simp: fading_def suspect_since_def)
qed

lemma condemned_step:
  assumes "gossip_step s e s'" "fading k t w s" "no_sign_of k e" "k \<noteq> ''seed''" "condemned k s"
  shows "condemned k s'"
proof (cases "map_option State (gn_pm s k) = Some StateDead")
  case True
  with dead_stays [OF assms(1-4)] show ?thesis by (simp add: condemned_def)
next
  case False
  then obtain as a where as: "gn_check s = Some as" "Update k a StateDead \<in> set as" using assms(5) by (auto simp: condemned_def)
  from assms(1) show ?thesis
  proof (cases rule: gossip_step_cases)
    case (checks b bs now pm' rest)
    show ?thesis
    proof (cases "b = Update k a StateDead")
      case True
      with checks AddOrUpdate_same [of now k a StateDead "gn_pm s"] show ?thesis by (auto simp: condemned_def)
    next
      case False
      with checks as show ?thesis by (auto simp: condemned_def)
    qed
  qed (use as in \<open>auto simp: condemned_def\<close>)
qed

lemma condemned_run:
  assumes "gossip_run s es s'" "fading k t w s" "list_all (no_sign_of k) es" "k \<noteq> ''seed''" "condemned k s"
  shows "condemned k s'"
  using assms
proof (induction rule: gossip_run.induct)
  case (gossip_snoc es s' e s'')
  then show ?case using condemned_step [OF gossip_snoc(2) fading_run [OF gossip_snoc(1)]] by auto
qed simp

lemma check_condemns:
  assumes "gossip_step s (GCheck now) s'" "fading k t w s" "w \<le> time_Sub now t"
  shows "condemned k s'"
  using assms(1)
proof (cases rule: gossip_step_cases)
  case (check_starts order now')
  obtain p where p: "gn_pm s k = Some p" "State p = StateDead \<or> (State p = StateSuspect \<and> SuspiciousAt p = t)"
    using assms(2) by (auto simp: fading_def suspect_since_def)
  have keyed: "keyed (gn_pm s)" using assms(2) by (simp add: fading_def)
  then have "NodeID p = k" using p(1) by (auto simp: keyed_def)
  then have "p \<in> set (GetAll order (gn_pm s))" using GetAll_set [OF keyed check_starts(5)] p(1) by simp
  with p check_starts assms(2,3) \<open>NodeID p = k\<close> show ?thesis
    by (auto simp: condemned_def check_actions_def fading_def image_iff)
qed simp_all

lemma run_split: "gossip_run s (es @ es') s'' \<Longrightarrow> \<exists>s'. gossip_run s es s' \<and> gossip_run s' es' s''"
proof (induction es' arbitrary: s'' rule: rev_induct)
  case Nil
  then show ?case by auto
next
  case (snoc e es')
  from snoc.prems obtain s1 where s1: "gossip_run s (es @ es') s1" "gossip_step s1 e s''"
    by (cases rule: gossip_run.cases) (auto simp flip: append_assoc)
  with snoc.IH show ?case using gossip_run.gossip_snoc by blast
qed

section \<open>Stopping\<close>

text \<open>
  After both loops returned, only the goroutines of pings are left. Their work: pings not sent or
  not answered, then operations on the table.
\<close>

definition quiesced :: "gossip_node \<Rightarrow> bool" where
  "quiesced s \<longleftrightarrow> \<not> gn_loop s \<and> gn_check s = None"

fun work :: "gossip_event \<Rightarrow> bool" where
  "work (GHeard i a) = False"
| "work (GLagged i lag) = False"
| "work GStop = False"
| "work _ = True"

fun action_weight :: "action \<Rightarrow> nat" where
  "action_weight (Merge rp) = 2"
| "action_weight _ = 1"

fun send_weight :: "action \<Rightarrow> nat" where
  "send_weight (SendPing p) = 2"
| "send_weight _ = 0"

fun pings_left :: "task \<Rightarrow> nat" where
  "pings_left (Acting as) = sum_list (map send_weight as)"
| "pings_left (Awaiting p start) = 1"

fun actions_left :: "task \<Rightarrow> nat" where
  "actions_left (Acting as) = sum_list (map action_weight as)"
| "actions_left (Awaiting p start) = 0"

definition todo :: "gossip_node \<Rightarrow> nat \<times> nat" where
  "todo s = (sum_mset (image_mset pings_left (gn_tasks s)), sum_mset (image_mset actions_left (gn_tasks s)))"

lemma todo_replace:
  assumes "t \<in># gn_tasks s"
    and "pings_left t' < pings_left t \<or> pings_left t' = pings_left t \<and> actions_left t' < actions_left t"
  shows "(todo (replace_task t t' s), todo s) \<in> less_than <*lex*> less_than"
proof -
  obtain M where M: "gn_tasks s = add_mset t M" using assms(1) by (metis multi_member_split)
  with assms(2) show ?thesis by (auto simp: todo_def)
qed

lemma act_lighter:
  assumes "act gm now a pm = (pm', rest)"
  shows "sum_list (map send_weight rest) = 0" "sum_list (map action_weight rest) < action_weight a"
proof -
  have "rest = [] \<or> (\<exists>rp i ad st. a = Merge rp \<and> rest = [Update i ad st])"
    using assms merge_next_cases [of gm] by (cases a) (auto; metis)+
  then show "sum_list (map send_weight rest) = 0" "sum_list (map action_weight rest) < action_weight a"
    by (cases a; auto)+
qed

lemma todo_pm [simp]: "todo (s\<lparr>gn_pm := pm\<rparr>) = todo s"
  by (simp add: todo_def)

lemma ping_actions_sends: "sum_list (map send_weight (ping_actions p rtt result)) = 0"
  by (cases result) (auto simp: ping_actions_def failed_actions_def comp_def split: option.split)

lemma quiesced_work:
  assumes "gossip_step s e s'" "quiesced s" "work e"
  shows "quiesced s' \<and> (todo s', todo s) \<in> less_than <*lex*> less_than"
  using assms(1)
proof (cases rule: gossip_step_cases)
  case (acted a as now pm' rest)
  have "send_weight a = 0" using acted(5) by (cases a) auto
  then have "(todo (replace_task (Acting (a # as)) (Acting (rest @ as)) (s\<lparr>gn_pm := pm'\<rparr>)), todo (s\<lparr>gn_pm := pm'\<rparr>)) \<in> less_than <*lex*> less_than"
    using acted(4) act_lighter [OF acted(6)] by (intro todo_replace) auto
  with acted assms(2) show ?thesis by (simp add: quiesced_def)
next
  case (sent p start)
  then show ?thesis using assms(2) by (auto intro!: todo_replace simp: quiesced_def)
next
  case (answered p start result done_at)
  then show ?thesis using assms(2) ping_actions_sends [of p _ result] by (auto intro!: todo_replace simp: quiesced_def)
qed (use assms(2,3) in \<open>auto simp: quiesced_def\<close>)

lemma no_infinite_work:
  assumes "quiesced (f 0)" "\<And>n. \<exists>e. work e \<and> gossip_step (f n) e (f (Suc n))"
  shows False
proof -
  have q: "quiesced (f n)" for n
    by (induction n) (use assms quiesced_work in blast)+
  then have "(todo (f (Suc n)), todo (f n)) \<in> less_than <*lex*> less_than" for n
    using assms(2) quiesced_work by blast
  moreover have "wf (less_than <*lex*> less_than)" by (simp add: wf_lex_prod)
  ultimately show False using wf_no_infinite_down_chainE [of "less_than <*lex*> less_than" "\<lambda>n. todo (f n)"] by blast
qed

text \<open>The rest of a round of the suspicion loop always ends.\<close>

definition is_update :: "action \<Rightarrow> bool" where
  "is_update a \<longleftrightarrow> (\<exists>i ad st. a = Update i ad st)"

lemma check_drains:
  assumes "\<not> gn_crashed s" "gn_check s = Some as" "list_all is_update as"
  shows "\<exists>es pm. length es = length as \<and> gossip_run s es (s\<lparr>gn_check := Some [], gn_pm := pm\<rparr>)"
  using assms
proof (induction as arbitrary: s)
  case Nil
  then show ?case by (intro exI [of _ "[]"] exI [of _ "gn_pm s"]) simp
next
  case (Cons a as)
  then obtain i ad st where a: "a = Update i ad st" by (auto simp: is_update_def)
  let ?s = "s\<lparr>gn_pm := AddOrUpdate (0, 0) i ad st (gn_pm s), gn_check := Some ([] @ as)\<rparr>"
  have step: "gossip_step s (GChecked a) ?s"
    by (rule checks [where now = "(0, 0)"]) (use Cons.prems a in simp_all)
  obtain es pm where "length es = length as" "gossip_run ?s es (?s\<lparr>gn_check := Some [], gn_pm := pm\<rparr>)"
    using Cons.IH [of ?s] Cons.prems by auto
  with run_cons [OF step] show ?case by (intro exI [of _ "GChecked a # es"] exI [of _ pm]) simp
qed

definition check_shape :: "gossip_node \<Rightarrow> bool" where
  "check_shape s \<longleftrightarrow> (\<forall>as. gn_check s = Some as \<longrightarrow> list_all is_update as)"

lemma check_shape_step: "gossip_step s e s' \<Longrightarrow> check_shape s \<Longrightarrow> check_shape s'"
  by (cases rule: gossip_step_cases) (auto simp: check_shape_def is_update_def check_actions_def list_all_iff)

lemma check_shape_run: "gossip_run s es s' \<Longrightarrow> check_shape s \<Longrightarrow> check_shape s'"
  by (induction rule: gossip_run.induct) (auto dest: check_shape_step)

lemma loops_return:
  assumes "\<not> gn_crashed s" "gm_stopped (gn_gm s)" "check_shape s"
  shows "\<exists>es s'. gossip_run s es s' \<and> quiesced s' \<and> length es \<le> 2 + (case gn_check s of None \<Rightarrow> 0 | Some as \<Rightarrow> length as)"
proof -
  have "\<exists>es s1. gossip_run s es s1 \<and> gn_check s1 = None \<and> gn_loop s1 = gn_loop s \<and> \<not> gn_crashed s1 \<and> gm_stopped (gn_gm s1) \<and>
    length es \<le> 1 + (case gn_check s of None \<Rightarrow> 0 | Some as \<Rightarrow> length as)"
  proof (cases "gn_check s")
    case None
    with assms show ?thesis by (intro exI [of _ "[]"] exI [of _ s]) simp
  next
    case (Some as)
    obtain es pm where es: "length es = length as" "gossip_run s es (s\<lparr>gn_check := Some [], gn_pm := pm\<rparr>)"
      using check_drains [OF assms(1) Some] assms(3) Some by (auto simp: check_shape_def)
    have "gossip_step (s\<lparr>gn_check := Some [], gn_pm := pm\<rparr>) GCheckExit (s\<lparr>gn_pm := pm, gn_check := None\<rparr>)"
      using check_exits [of "s\<lparr>gn_check := Some [], gn_pm := pm\<rparr>"] assms(1,2) by simp
    from gossip_run.gossip_snoc [OF es(2) this] es(1) Some assms(1,2) show ?thesis
      by (intro exI [of _ "es @ [GCheckExit]"] exI) auto
  qed
  then obtain es s1 where s1: "gossip_run s es s1" "gn_check s1 = None" "\<not> gn_crashed s1" "gm_stopped (gn_gm s1)"
    "length es \<le> 1 + (case gn_check s of None \<Rightarrow> 0 | Some as \<Rightarrow> length as)" by blast
  show ?thesis
  proof (cases "gn_loop s1")
    case True
    from gossip_run.gossip_snoc [OF s1(1) loop_exits [OF s1(3) True s1(4)]] s1(2,5) show ?thesis
      by (intro exI [of _ "es @ [GLoopExit]"] exI) (auto simp: quiesced_def)
  next
    case False
    with s1 show ?thesis by (intro exI [of _ es] exI [of _ s1]) (simp add: quiesced_def)
  qed
qed

section \<open>Properties\<close>

definition demo_gossip :: "string \<Rightarrow> gossip_node" where
  "demo_gossip st = (Start demo_gm [''b'' \<mapsto> demo_peer st])\<lparr>gn_tasks := {#Awaiting (demo_peer StateAlive) (pc_start demo_pc)#}\<rparr>"

lemma demo_gossip [simp]: "\<not> gn_crashed (demo_gossip st)" "gn_check (demo_gossip st) = Some []" "gn_pm (demo_gossip st) = [''b'' \<mapsto> demo_peer st]"
  "gn_gm (demo_gossip st) = demo_gm" "gn_tasks (demo_gossip st) = {#Awaiting (demo_peer StateAlive) (pc_start demo_pc)#}"
  by (simp_all add: demo_gossip_def Start_def)

text \<open>
  C17. Whatever the interleaving of the gossip goroutines with each other and with the handlers,
  the membership table keeps its keys and holds no state but the three, and a node never pings
  itself or a peer that it saw dead when it chose its target, provided remote lists carry only
  the three states and the node is not called \<open>seed\<close>.
\<close>

theorem gossip_interleavings_safe:
  assumes "gossip_run (Start gm pm) es s" "table_ok pm" "gm_nodeID gm \<noteq> ''seed''" "list_all event_ok es"
  shows "keyed (gn_pm s) \<and> (\<forall>k p. gn_pm s k = Some p \<longrightarrow> State p \<in> {StateAlive, StateSuspect, StateDead}) \<and>
    (\<forall>p start. Awaiting p start \<in># gn_tasks s \<longrightarrow> NodeID p \<noteq> gm_nodeID gm \<and> State p \<noteq> StateDead)"
proof -
  have "gossip_inv s \<and> gm_nodeID (gn_gm s) = gm_nodeID (gn_gm (Start gm pm))"
    using gossip_run_inv [OF assms(1) Start_inv [OF assms(2,3)] assms(4)] .
  then show ?thesis by (fastforce simp: gossip_inv_def table_ok_def known_state_def target_ok_def Start_def)
qed

theorem gossip_interleavings_safe_witness:
  "\<exists>s. gossip_run (Start demo_gm [''b'' \<mapsto> demo_peer StateSuspect]) [GHeard ''c'' ''c:1'', GStop, GLoopExit] s \<and>
     \<not> gn_loop s \<and> keyed (gn_pm s)"
proof -
  let ?s0 = "Start demo_gm [''b'' \<mapsto> demo_peer StateSuspect]"
  let ?s1 = "?s0\<lparr>gn_pm := AddOrUpdate (1, 1) ''c'' ''c:1'' StateAlive (gn_pm ?s0)\<rparr>"
  let ?s2 = "?s1\<lparr>gn_gm := demo_gm\<lparr>gm_stopped := True\<rparr>\<rparr>"
  have gm: "gm_stopped demo_gm = False" "gm_nodeID demo_gm \<noteq> ''seed''" by (simp_all add: demo_gm_def NewGossipManager_def)
  have 1: "gossip_step ?s0 (GHeard ''c'' ''c:1'') ?s1" by (rule gossip_step.heard) (simp add: Start_def)
  have 2: "gossip_step ?s1 GStop ?s2" by (rule gossip_step.stops) (simp_all add: Start_def gm_Stop_def gm)
  have 3: "gossip_step ?s2 GLoopExit (?s2\<lparr>gn_loop := False\<rparr>)" by (rule loop_exits) (simp_all add: Start_def)
  have run: "gossip_run ?s0 [GHeard ''c'' ''c:1'', GStop, GLoopExit] (?s2\<lparr>gn_loop := False\<rparr>)"
    by (rule run_cons [OF 1 run_cons [OF 2 run_single [OF 3]]])
  have "table_ok [''b'' \<mapsto> demo_peer StateSuspect]" by (simp add: table_ok_def)
  from gossip_interleavings_safe [OF run this gm(2)] run show ?thesis by (intro exI [of _ "?s2\<lparr>gn_loop := False\<rparr>"]) simp
qed

text \<open>
  C31. Failure detection. Let a peer (not the provisional entry \<open>seed\<close>) be suspect, and let no
  goroutine have an operation under way that clears or renews the suspicion, nor a ping of it
  sent while it was alive. Whatever the gossip goroutines and handlers then do, as long as no
  sign of life of the peer arrives (a ping from it, an answer to a ping, or a list that calls it
  alive), it is dead at the end of every round of the suspicion loop that begins a suspicion
  window or more after it became suspect, and stays dead. Further pings of it may fail in any way.
\<close>

theorem silent_peer_dies:
  assumes "gossip_run s (es @ GCheck now # es') s'" "list_all (no_sign_of k) (es @ es')"
    and "gn_pm s k = Some p" "State p = StateSuspect" "quiet k s" "keyed (gn_pm s)" "k \<noteq> ''seed''"
    and "gm_suspicionWindow (gn_gm s) \<le> time_Sub now (SuspiciousAt p)" "gn_check s' = Some [] \<or> gn_check s' = None"
  shows "map_option State (gn_pm s' k) = Some StateDead"
proof -
  let ?t = "SuspiciousAt p" and ?w = "gm_suspicionWindow (gn_gm s)"
  obtain s1 where s1: "gossip_run s es s1" "gossip_run s1 ([GCheck now] @ es') s'" using run_split [OF assms(1)] by auto
  obtain s2 where s2: "gossip_run s1 [GCheck now] s2" "gossip_run s2 es' s'" using run_split [OF s1(2)] by auto
  have "fading k ?t ?w s" using assms(3-6) by (auto simp: fading_def suspect_since_def)
  then have f1: "fading k ?t ?w s1" using fading_run [OF s1(1)] assms(2,7) by simp
  have step: "gossip_step s1 (GCheck now) s2" using s2(1) by (cases rule: gossip_run.cases) auto
  have "fading k ?t ?w s2" using fading_step [OF step f1] assms(7) by simp
  then have "condemned k s'"
    using condemned_run [OF s2(2)] check_condemns [OF step f1 assms(8)] assms(2,7) by simp
  with assms(9) show ?thesis by (auto simp: condemned_def)
qed

theorem silent_peer_dies_witness:
  "\<exists>s'. gossip_run (Start demo_gm [''b'' \<mapsto> demo_peer StateSuspect]) [GHeard ''c'' ''c:1'', GCheck 6000, GChecked (Update ''b'' ''b:1'' StateDead)] s' \<and>
     map_option State (gn_pm s' ''b'') = Some StateDead"
proof -
  let ?s0 = "Start demo_gm [''b'' \<mapsto> demo_peer StateSuspect]" and ?u = "Update ''b'' ''b:1'' StateDead"
  let ?pm = "AddOrUpdate (1, 1) ''c'' ''c:1'' StateAlive [''b'' \<mapsto> demo_peer StateSuspect]"
  let ?s1 = "?s0\<lparr>gn_pm := ?pm\<rparr>" and ?s2 = "?s0\<lparr>gn_pm := ?pm, gn_check := Some [?u]\<rparr>"
  let ?s3 = "?s0\<lparr>gn_pm := AddOrUpdate (2, 2) ''b'' ''b:1'' StateDead ?pm, gn_check := Some []\<rparr>"
  have dom: "dom ?pm = {''b'', ''c''}" by (auto simp: AddOrUpdate_def Let_def)
  then have order: "ranges [''b'', ''c''] ?pm" by (auto simp: ranges_def)
  have "check_actions demo_gm 6000 (GetAll [''b'', ''c''] ?pm) = [?u]"
    by (simp add: check_actions_def GetAll_def AddOrUpdate_def Let_def List.map_filter_simps new_peer_def time_Sub_def)
      (simp add: demo_peer_def new_peer_def)
  then have 2: "gossip_step ?s1 (GCheck 6000) ?s2"
    using check_starts [of ?s1 "[''b'', ''c'']" 6000] order by (simp add: Start_def)
  have 1: "gossip_step ?s0 (GHeard ''c'' ''c:1'') ?s1" using gossip_step.heard [of ?s0 "''c''" "''c:1''" "(1, 1)"] by (simp add: Start_def)
  have 3: "gossip_step ?s2 (GChecked ?u) ?s3"
    using checks [of ?s2 ?u "[]" "(2, 2)"] by (simp add: Start_def)
  have run: "gossip_run ?s0 ([GHeard ''c'' ''c:1''] @ GCheck 6000 # [GChecked ?u]) ?s3"
    using run_cons [OF 1 run_cons [OF 2 run_single [OF 3]]] by simp
  have "quiet ''b'' ?s0" by (simp add: quiet_def Start_def demo_gm_def NewGossipManager_def)
  then have "map_option State (gn_pm ?s3 ''b'') = Some StateDead"
    using silent_peer_dies [OF run, of "''b''" "demo_peer StateSuspect"] by (simp add: Start_def time_Sub_def)
  with run show ?thesis by (intro exI [of _ ?s3]) simp
qed

text \<open>
  C40. The suspicion loop acts on a copy of the table: a peer whose suspicion has run out is
  declared dead even if it is heard from, and so marked alive, after the copy was taken and
  before the loop gets to it.
\<close>

theorem stale_suspicion_kills_live_peer:
  assumes "\<not> gn_crashed s" "gn_check s = Some []" "ranges order (gn_pm s)" "keyed (gn_pm s)"
    and "gn_pm s k = Some p" "State p = StateSuspect" "time_Sub now (SuspiciousAt p) \<ge> gm_suspicionWindow (gn_gm s)"
  shows "\<exists>s' es s''. gossip_run s [GCheck now, GHeard k a] s' \<and> map_option State (gn_pm s' k) = Some StateAlive \<and>
    gossip_run s' es s'' \<and> (\<forall>e \<in> set es. \<exists>u. e = GChecked u) \<and> map_option State (gn_pm s'' k) = Some StateDead"
proof -
  let ?cs = "check_actions (gn_gm s) now (GetAll order (gn_pm s))"
  let ?s1 = "s\<lparr>gn_check := Some ?cs\<rparr>" and ?s2 = "s\<lparr>gn_check := Some ?cs, gn_pm := AddOrUpdate (0, 0) k a StateAlive (gn_pm s)\<rparr>"
  have step1: "gossip_step s (GCheck now) ?s1" by (rule check_starts [OF assms(1-3)])
  have step2: "gossip_step ?s1 (GHeard k a) ?s2" using gossip_step.heard [of ?s1 k a "(0, 0)"] assms(1) by simp
  obtain es where es: "gossip_run ?s2 es (?s2\<lparr>gn_check := Some [], gn_pm := perform (gn_gm s) (\<lambda>_. (0, 0)) 0 ?cs (gn_pm ?s2)\<rparr>)"
    "\<forall>e \<in> set es. \<exists>u. e = GChecked u"
    using check_runs [of ?s2 "gn_gm s" now "GetAll order (gn_pm s)" "\<lambda>_. (0, 0)" 0] assms(1) by auto
  have "NodeID p = k" using assms(4,5) by (auto simp: keyed_def)
  then have "p \<in> set (GetAll order (gn_pm s))" using GetAll_set [OF assms(4,3)] assms(5) by simp
  then have "map_option State (perform (gn_gm s) (\<lambda>_. (0, 0)) 0 ?cs (gn_pm ?s2) (NodeID p)) = Some StateDead"
    by (rule performed_checks_kill) (use assms(6,7) in simp_all)
  with es run_cons [OF step1 run_single [OF step2]] \<open>NodeID p = k\<close> AddOrUpdate_same [of "(0, 0)" k a StateAlive "gn_pm s"]
  show ?thesis by (intro exI [of _ ?s2] exI [of _ es] exI conjI) auto
qed


theorem stale_suspicion_kills_live_peer_witness:
  "\<exists>s' es s''. gossip_run (demo_gossip StateSuspect) [GCheck 6000, GHeard ''b'' ''b:1''] s' \<and>
     map_option State (gn_pm s' ''b'') = Some StateAlive \<and> gossip_run s' es s'' \<and> map_option State (gn_pm s'' ''b'') = Some StateDead"
proof -
  have "time_Sub 6000 (SuspiciousAt (demo_peer StateSuspect)) \<ge> gm_suspicionWindow demo_gm"
    by (simp add: demo_gm_def NewGossipManager_def time_Sub_def)
  then show ?thesis
    using stale_suspicion_kills_live_peer [of "demo_gossip StateSuspect" "[''b'']" "''b''" "demo_peer StateSuspect" 6000 "''b:1''"]
    by simp blast
qed

text \<open>
  C30. Stopping. Once \<open>Stop\<close> has closed the channel, both loops can return at once, the suspicion
  loop after the rest of its round, and then the pings that are still under way come to an end:
  no run of them is infinite.
\<close>

theorem gossip_stops:
  assumes "gossip_run (Start gm pm) es s" "\<not> gn_crashed s" "gm_stopped (gn_gm s)"
  shows "(\<exists>es' s'. gossip_run s es' s' \<and> quiesced s' \<and> length es' \<le> 2 + (case gn_check s of None \<Rightarrow> 0 | Some as \<Rightarrow> length as)) \<and>
    \<not> (\<exists>f. quiesced (f 0) \<and> (\<forall>n. \<exists>e. work e \<and> gossip_step (f n) e (f (Suc n))))"
proof
  show "\<exists>es' s'. gossip_run s es' s' \<and> quiesced s' \<and> length es' \<le> 2 + (case gn_check s of None \<Rightarrow> 0 | Some as \<Rightarrow> length as)"
    using loops_return [OF assms(2,3) check_shape_run [OF assms(1)]] by (simp add: check_shape_def Start_def)
  show "\<not> (\<exists>f. quiesced (f 0) \<and> (\<forall>n. \<exists>e. work e \<and> gossip_step (f n) e (f (Suc n))))"
    using no_infinite_work by blast
qed


theorem gossip_stops_witness:
  "\<exists>s es' s'. gossip_run (Start demo_gm Map.empty) [GStop] s \<and> gossip_run s es' s' \<and> quiesced s'"
proof -
  let ?s = "Start demo_gm Map.empty\<lparr>gn_gm := demo_gm\<lparr>gm_stopped := True\<rparr>\<rparr>"
  have "gm_stopped demo_gm = False" by (simp add: demo_gm_def NewGossipManager_def)
  then have "gossip_step (Start demo_gm Map.empty) GStop ?s" by (intro gossip_step.stops) (simp_all add: Start_def gm_Stop_def)
  then have run: "gossip_run (Start demo_gm Map.empty) [GStop] ?s" by (rule run_single)
  have ok: "\<not> gn_crashed ?s" "gm_stopped (gn_gm ?s)" by (simp_all add: Start_def)
  from conjunct1 [OF gossip_stops [OF run ok]] run show ?thesis by blast
qed

end
