(* ===== verification/KV_Server.thy ===== *)
theory KV_Server
  imports KV_Durability KV_Api
begin

text \<open>
  The start of the server process (\<open>cmd/server/main.go\<close>), from configuration and data files to a
  node that serves requests, and the periodic compactor. Every \<open>log.Fatalf\<close> and every panic of a
  ticker is a value of \<open>fatal\<close>.
\<close>

section \<open>The code\<close>

datatype fatal =
    FatalConfig
  | FatalRecovery go_error
  | CrashOf go_panic

text \<open>
  Steps 1 to 8 and 10 of \<open>main\<close>; \<open>data\<close> holds the two files found in the data directory and
  \<open>now\<close> the instant the metrics collector is created. The reaper's and the gossip loop's tickers
  are created here, with the configured intervals.
\<close>

definition server_start :: "env \<Rightarrow> flags \<Rightarrow> string option \<Rightarrow> (string \<Rightarrow> bool) \<Rightarrow> boot_env \<Rightarrow> gotime \<Rightarrow>
  bytes option \<Rightarrow> bytes option \<Rightarrow> fatal + API" where
  "server_start env fl hostname mkdir_ok benv now snap log =
     (case Load env fl hostname mkdir_ok of
        None \<Rightarrow> Inl FatalConfig
      | Some cfg \<Rightarrow>
          (case boot benv (cfg_DataDir cfg) snap log of
             Inl e \<Rightarrow> Inl (FatalRecovery e)
           | Inr s \<Rightarrow>
               (case StartReaper (cfg_ReapInterval cfg) [] s of
                  Inl p \<Rightarrow> Inl (CrashOf p)
                | Inr s \<Rightarrow>
                    (let pm = NewPeerManager;
                         gossip = NewGossipManager (cfg_NodeID cfg) (cfg_AdvertiseAddr cfg) (cfg_SeedAddress cfg)
                           (cfg_GossipInterval cfg) (cfg_PingTimeout cfg) (cfg_SuspicionWindow cfg);
                         replicator = NewReplicator (cfg_NodeID cfg) (cfg_ReplicationTimeout cfg)
                     in if gm_gossipInterval gossip \<le> 0 then Inl (CrashOf NonPositiveInterval)
                        else Inr (NewAPI s pm gossip replicator (NewMetricsCollector now) cfg)))))"

text \<open>The compactor: a snapshot per tick, errors only logged, until it is stopped.\<close>

datatype compactor_event = CompactTick "snap_step \<Rightarrow> bool" gotime "nat \<Rightarrow> string list" | StopCompactor

fun compactor :: "compactor_event list \<Rightarrow> Store \<times> disk \<Rightarrow> Store \<times> disk" where
  "compactor [] \<sigma> = \<sigma>"
| "compactor (CompactTick fails now order # es) (s, d) =
     compactor es (snd (CreateSnapshot fails now order s d))"
| "compactor (StopCompactor # es) \<sigma> = \<sigma>"

section \<open>Lemmas\<close>

lemma Close_frame: "Close s = Inr (e, s') \<Longrightarrow> contents s' = contents s \<and> map_option wal_file (wal s') = map_option wal_file (wal s)"
  by (auto simp: Close_def wal_Close_def Let_def split: if_splits option.splits)

lemma compactor_durable:
  assumes "durable t (s, d)" "list_all (\<lambda>e. case e of CompactTick fails now order \<Rightarrow> now \<le> t \<and> visits order s
    | StopCompactor \<Rightarrow> True) es"
  shows "durable t (compactor es (s, d)) \<and> contents (fst (compactor es (s, d))) = contents s"
  using assms
proof (induction es "(s, d)" arbitrary: s d rule: compactor.induct)
  case (2 fails now order es s d)
  obtain e s' d' where snap: "CreateSnapshot fails now order s d = (e, s', d')"
    by (cases "CreateSnapshot fails now order s d")
  have dur: "durable t (s', d')" using durable_snapshot [OF 2(2), of now order fails] 2(3) snap by simp
  have same: "contents s' = contents s" "shards s' = shards s"
    using CreateSnapshot_outcome [OF snap] by auto
  have vis: "visits ord s' = visits ord s" for ord using same(2) by (simp add: visits_def)
  have "list_all (\<lambda>e. case e of CompactTick fails now order \<Rightarrow> now \<le> t \<and> visits order s' | StopCompactor \<Rightarrow> True) es"
    using 2(3) by (auto simp: list_all_iff vis split: compactor_event.splits)
  from 2(1) [of s' d'] dur this snap same(1) show ?case by simp
qed auto

section \<open>Properties\<close>

text \<open>
  The compactor may run at any time and fail anywhere: after any number of its rounds the
  contents are the same and a restart from the files still rebuilds them.
\<close>

theorem compactor_is_safe:
  assumes "runs (t + d) (s, dsk)" "calm t d env"
    and "list_all (\<lambda>e. case e of CompactTick fails now order \<Rightarrow> now \<le> t + d \<and> visits order s | StopCompactor \<Rightarrow> True) es"
    and "compactor es (s, dsk) = (s', dsk')"
  shows "contents s' = contents s \<and>
    (\<exists>s''. boot env dir (snap_file dsk') (map_option wal_file (wal s')) = Inr s'' \<and> restored_map d (contents s) (contents s''))"
proof -
  have "0 \<le> t + d" using assms(2) calm_duration [OF assms(2)] by (simp add: calm_def)
  then have "durable (t + d) (s', dsk') \<and> contents s' = contents s"
    using compactor_durable [OF runs_durable [OF assms(1)] assms(3)] assms(4) by simp
  with durable_boot [OF _ assms(2)] show ?thesis by metis
qed

theorem compactor_is_safe_witness:
  "\<exists>s' dsk' s''. compactor [CompactTick (\<lambda>x. x = TruncateWal) 5 (\<lambda>_. []), StopCompactor]
       (NewStore (Some (fresh_wal ''d'')), no_files) = (s', dsk') \<and>
     boot demo_env ''d'' (snap_file dsk') (map_option wal_file (wal s')) = Inr s''"
proof -
  let ?s = "NewStore (Some (fresh_wal ''d''))" and ?es = "[CompactTick (\<lambda>x. x = TruncateWal) 5 (\<lambda>_. []), StopCompactor]"
  obtain s' dsk' where c: "compactor ?es (?s, no_files) = (s', dsk')" by (cases "compactor ?es (?s, no_files)")
  have run: "runs (100 + 3) (?s, no_files)" unfolding no_files_def by (rule runs.start)
  have es: "list_all (\<lambda>e. case e of CompactTick fails now order \<Rightarrow> now \<le> 100 + 3 \<and> visits order ?s | StopCompactor \<Rightarrow> True) ?es"
    by (simp add: visits_contents NewStore_inv)
  from compactor_is_safe [OF run demo_env es c, of "''d''"] c show ?thesis by blast
qed

text \<open>
  Intervals are not validated: if \<open>KV_REAP_INTERVAL_SEC\<close> is a number of seconds that is zero
  or negative (and the flag is not given), the server never comes up, since the reaper's ticker
  panics.
\<close>

theorem nonpositive_reap_interval_crashes:
  assumes "i \<le> 0" "- (2 ^ 33) \<le> i" "flag_int fl ''reap-interval-sec'' = None"
  shows "server_start (env(''KV_REAP_INTERVAL_SEC'' \<mapsto> Itoa i)) fl hostname mkdir_ok benv now snap log \<noteq> Inr api"
proof (cases "Load (env(''KV_REAP_INTERVAL_SEC'' \<mapsto> Itoa i)) fl hostname mkdir_ok")
  case None
  then show ?thesis by (simp add: server_start_def)
next
  case (Some cfg)
  have "getEnvInt (env(''KV_REAP_INTERVAL_SEC'' \<mapsto> Itoa i)) ''KV_REAP_INTERVAL_SEC'' 5 = i"
    using Atoi_Itoa [of i] assms(1,2) by (simp add: getEnvInt_def)
  then have "cfg_ReapInterval cfg = wrap64 (i * time_Second)"
    using Some assms(3) by (auto simp: Load_def IntVar_def Let_def split: if_splits)
  also have "\<dots> = i * time_Second" using assms(1,2) by (intro wrap64_id) (simp_all add: time_Second_def)
  finally have "cfg_ReapInterval cfg \<le> 0" using assms(1) by (simp add: time_Second_def)
  with Some show ?thesis by (auto simp: server_start_def StartReaper_def split: sum.split)
qed

theorem nonpositive_reap_interval_crashes_witness:
  "server_start [''KV_REAP_INTERVAL_SEC'' \<mapsto> Itoa 0] no_flags (Some ''h'') (\<lambda>_. True) demo_env 100 None None \<noteq> Inr demo_api"
  using nonpositive_reap_interval_crashes [of 0 no_flags Map.empty "Some ''h''" "\<lambda>_. True" demo_env 100 None None demo_api]
  by (simp add: no_flags_def)

end
