(* ===== verification/KV_Life.thy ===== *)
theory KV_Life
  imports KV_Server KV_Cluster
begin

text \<open>
  The life of a server process (\<open>main\<close> in \<open>cmd/server/main.go\<close>), from its start on the files of a
  data directory, through requests, reaper and compactor rounds and changes of the membership
  table in any order, to the signal that ends it, the requests still in flight then, and the files
  it leaves behind.
\<close>

section \<open>The code\<close>

datatype life_event =
    Handled os_files api_io gotime gotime http_request
  | ReapRound gotime "nat \<Rightarrow> string list"
  | CompactRound "snap_step \<Rightarrow> bool" gotime "nat \<Rightarrow> string list"
  | Membership PeerManager

fun life_step :: "life_event \<Rightarrow> API \<times> disk \<Rightarrow> API \<times> disk" where
  "life_step (Handled files io t t' hr) (api, d) = (snd (snd (serve files io t t' hr api)), d)"
| "life_step (ReapRound now order) (api, d) = (api\<lparr>api_store := reap now order (api_store api)\<rparr>, d)"
| "life_step (CompactRound fails now order) (api, d) =
     (case CreateSnapshot fails now order (api_store api) d of (e, s, d') \<Rightarrow> (api\<lparr>api_store := s\<rparr>, d'))"
| "life_step (Membership pm) (api, d) = (api\<lparr>api_pm := pm\<rparr>, d)"

text \<open>
  Step 11: stop the compactor and gossip, let \<open>srv.Shutdown\<close> wait for the requests in flight (at
  most five seconds), take a last snapshot (an error is only logged), close the store. \<open>draining\<close>
  is what happens on the node between the signal and the last snapshot: requests, those that
  arrive before the listener is closed included, a round of the compactor or reaper under way, pings
  that come back; \<open>late\<close> is what happens between the snapshot and the closing of the store, when
  requests outlive the five seconds.
\<close>

definition shutdown :: "life_event list \<Rightarrow> life_event list \<Rightarrow> (snap_step \<Rightarrow> bool) \<Rightarrow> gotime \<Rightarrow> (nat \<Rightarrow> string list) \<Rightarrow>
  API \<Rightarrow> disk \<Rightarrow> go_panic + (API \<times> disk)" where
  "shutdown draining late fails now order api d =
     (case gm_Stop (api_gossip api) of
        None \<Rightarrow> Inl CloseOfClosedChannel
      | Some gossip \<Rightarrow>
          (let (api, d) = fold life_step draining (api\<lparr>api_gossip := gossip\<rparr>, d);
               (e, s, d) = CreateSnapshot fails now order (api_store api) d;
               (api, d) = fold life_step late (api\<lparr>api_store := s\<rparr>, d)
           in case Close (api_store api) of
                Inl p \<Rightarrow> Inl p
              | Inr (e', s') \<Rightarrow> Inr (api\<lparr>api_store := s'\<rparr>, d)))"

text \<open>
  The whole of \<open>main\<close>. The data directory holds a snapshot and a log; a server that cannot listen
  ends the process at once.
\<close>

datatype exit = Startup fatal | CannotListen | Panicked go_panic | Stopped API disk

definition server_main :: "env \<Rightarrow> flags \<Rightarrow> string option \<Rightarrow> (string \<Rightarrow> bool) \<Rightarrow> boot_env \<Rightarrow> gotime \<Rightarrow> bytes option \<Rightarrow> disk \<Rightarrow>
  bool \<Rightarrow> life_event list \<Rightarrow> life_event list \<Rightarrow> life_event list \<Rightarrow> (snap_step \<Rightarrow> bool) \<Rightarrow> gotime \<Rightarrow> (nat \<Rightarrow> string list) \<Rightarrow> exit" where
  "server_main env fl hostname mkdir_ok benv now log d listens es draining late fails stop order =
     (case server_start env fl hostname mkdir_ok benv now (snap_file d) log of
        Inl f \<Rightarrow> Startup f
      | Inr api \<Rightarrow>
          (if \<not> listens then CannotListen
           else
             (case fold life_step es (api, d) of
                (api, d) \<Rightarrow>
                  (case shutdown draining late fails stop order api d of
                     Inl p \<Rightarrow> Panicked p
                   | Inr (api, d) \<Rightarrow> Stopped api d))))"

section \<open>What every request keeps\<close>

definition logging :: "Store \<Rightarrow> bool" where
  "logging s \<longleftrightarrow> store_inv s \<and> entries_ok s \<and> \<not> reaperStopped s \<and> (\<exists>w. wal s = Some w \<and> wal_open w)"

lemma reaperStopped_frame [simp]:
  "reaperStopped (snd (assign_version now v s)) = reaperStopped s" "reaperStopped (snd (Set_apply k x v e s)) = reaperStopped s"
  "reaperStopped (snd (Delete_apply k v s)) = reaperStopped s" "reaperStopped (snd (log_append io t k x v e s)) = reaperStopped s"
  "reaperStopped (snd (Get now now' k s)) = reaperStopped s"
  by (auto simp: assign_version_def NextVersion_def Set_apply_def Delete_apply_def log_append_def Get_def Get_reap_def Let_def
      set_shard_def add_keyCount_def case_prod_beta split: option.split)

lemma reaperStopped_reap [simp]: "reaperStopped (reap now order s) = reaperStopped s"
proof -
  have "reaperStopped (reap_key now i k s) = reaperStopped s" for i k s
    by (auto simp: reap_key_def add_keyCount_def split: option.split)
  then have "reaperStopped (fold (reap_key now i) ks s) = reaperStopped s" for i ks s
    by (induction ks arbitrary: s) auto
  then have "reaperStopped (fold (reap_shard now order) is s) = reaperStopped s" for "is" s
    by (induction "is" arbitrary: s) (auto simp: reap_shard_def)
  then show ?thesis by (simp add: reap_def)
qed

lemma log_append_logging:
  assumes "logging s"
  shows "logging (snd (log_append io t k x v e s))"
    and "fst (log_append io t k x v e s) = None \<Longrightarrow> length k \<le> 65535"
proof -
  obtain w where w: "wal s = Some w" "wal_open w" using assms by (auto simp: logging_def)
  have "wal_open (snd (Append io t k x v e w))" using w(2) by (auto simp: Append_def Let_def split: option.split)
  then show "logging (snd (log_append io t k x v e s))"
    using assms w(1) by (auto simp: logging_def entries_ok_def) (simp add: log_append_def case_prod_beta)
  show "fst (log_append io t k x v e s) = None \<Longrightarrow> length k \<le> 65535"
    using w(1) by (auto simp: log_append_def Append_def Let_def bytes_of_def case_prod_beta split: if_splits)
qed

lemma logging_frame:
  assumes "logging s" "store_inv s'" "wal s' = wal s" "reaperStopped s' = reaperStopped s"
    and "\<And>k e. contents s' k = Some e \<Longrightarrow> contents s k = Some e \<or> rec_ok (set_rec k e)"
  shows "logging s'"
  using assms by (auto simp: logging_def entries_ok_def)

text \<open>A value that fits into a record together with any key the log takes, and an expiry in range.\<close>

definition fits_value :: "bytes \<Rightarrow> gotime \<Rightarrow> bool" where
  "fits_value v x \<longleftrightarrow> 19 + 65535 + length v < 2 ^ 32 \<and> exp_ok x"

lemma logging_assign: "logging s \<Longrightarrow> logging (snd (assign_version now v s))"
  by (rule logging_frame) (auto simp: logging_def)

lemma logging_Set:
  assumes "logging s" "fits_value v (expiry_of now ttl)" "Set io now now' k v ttl ver s = (r, s')"
  shows "logging s'"
proof -
  let ?a = "assign_version now' ver s"
  let ?l = "log_append io RecordTypeSet k v (fst ?a) (expiry_of now ttl) (snd ?a)"
  have log: "logging (snd ?l)" and len: "fst ?l = None \<Longrightarrow> length k \<le> 65535"
    using log_append_logging [OF logging_assign [OF assms(1)]] by blast+
  show ?thesis
  proof (cases "fst ?l")
    case None
    then have s': "s' = snd (Set_apply k v (fst ?a) (expiry_of now ttl) (snd ?l))"
      using assms(3) by (simp add: Set_unfold Let_def case_prod_beta)
    have inv: "store_inv (snd ?l)" using log by (simp add: logging_def)
    have "contents (snd ?l) k' = Some e \<or> rec_ok (set_rec k' e)" if "contents s' k' = Some e" for k' e
      using that assms(2) len [OF None] unfolding s' Set_apply_contents [OF inv]
      by (auto simp: lww_put_def rec_ok_def set_rec_def fits_value_def split: option.splits if_splits)
    then show ?thesis by (intro logging_frame [OF log]) (simp_all add: s' Set_apply_inv [OF inv])
  next
    case (Some e)
    with assms(3) log show ?thesis by (simp add: Set_unfold Let_def case_prod_beta)
  qed
qed

lemma logging_Delete:
  assumes "logging s" "Delete io now k ver s = (r, s')"
  shows "logging s'"
proof -
  let ?a = "assign_version now ver s"
  let ?l = "log_append io RecordTypeDelete k [] (fst ?a) zero_time (snd ?a)"
  have log: "logging (snd ?l)" using log_append_logging [OF logging_assign [OF assms(1)]] by blast
  show ?thesis
  proof (cases "fst ?l")
    case None
    then have s': "s' = snd (Delete_apply k (fst ?a) (snd ?l))" using assms(2) by (simp add: Delete_unfold Let_def case_prod_beta)
    have inv: "store_inv (snd ?l)" using log by (simp add: logging_def)
    then show ?thesis unfolding s'
      by (intro logging_frame [OF log])
        (auto simp: Delete_apply_inv Delete_apply_contents lww_remove_def split: option.splits if_splits)
  next
    case (Some e)
    with assms(2) log show ?thesis by (simp add: Delete_unfold Let_def case_prod_beta)
  qed
qed

lemma logging_Get:
  assumes "logging s" "Get now now' k s = (r, s')"
  shows "logging s'"
proof -
  have inv: "store_inv s" using assms(1) by (simp add: logging_def)
  have s': "s' = snd (Get now now' k s)" using assms(2) by simp
  show ?thesis
    using Get_source [OF inv assms(2)] Get_inv [OF inv, of now now' k] by (intro logging_frame [OF assms(1)]) (auto simp: s')
qed

lemma logging_reap: "logging s \<Longrightarrow> logging (reap now order s)"
  by (rule logging_frame) (auto simp: logging_def reap_inv dest: reap_source)

fun fits :: "api_io \<Rightarrow> request \<Rightarrow> bool" where
  "fits io (ReqPutKey k (Some pr)) = fits_value (bytes_of (put_Value pr)) (expiry_of (io_clock io 0) (put_ttl pr))"
| "fits io (ReqReplicate (Some rq)) = fits_value (rq_Value rq) (expiry_of (io_clock io 1) (replica_ttl (io_clock io 0) (rq_ExpiresAt rq)))"
| "fits io _ = True"

lemma dispatch_logging:
  assumes "logging (api_store api)" "fits io req" "dispatch io req api = Inr (r, msgs, api')"
  shows "logging (api_store api') \<and> api_gossip api' = api_gossip api"
proof (cases req)
  case (ReqGetKey key)
  with assms show ?thesis
    by (auto simp: handleGetKey_def split: if_splits prod.splits option.splits dest: logging_Get)
next
  case (ReqPutKey key body)
  with assms show ?thesis
    by (cases body) (auto simp: handlePutKey_def Let_def split: if_splits prod.splits sum.splits dest: logging_Set)
next
  case (ReqDeleteKey key)
  with assms show ?thesis
    by (auto simp: handleDeleteKey_def Let_def split: if_splits prod.splits sum.splits dest: logging_Delete)
next
  case (ReqReplicate body)
  with assms show ?thesis
    by (cases body) (auto simp: handleInternalReplicate_def Let_def split: if_splits prod.splits sum.splits option.splits
        dest: logging_Set logging_Delete)
qed (use assms in \<open>auto simp: handleInternalPing_def Let_def split: sum.splits\<close>)

section \<open>The invariant of a life\<close>

definition up :: "API \<Rightarrow> bool" where
  "up api \<longleftrightarrow> api_inv api \<and> logging (api_store api)"

fun event_fits :: "life_event \<Rightarrow> bool" where
  "event_fits (Handled files io t t' hr) = (case request_of hr of None \<Rightarrow> True | Some req \<Rightarrow> fits io req)"
| "event_fits (Membership pm) = keyed pm"
| "event_fits _ = True"

lemma up_frame [simp]: "up (api\<lparr>api_metrics := mc\<rparr>) = up api" "up (api\<lparr>api_gossip := gm\<rparr>) = up api"
  by (simp_all add: up_def api_inv_def)

lemma serve_up:
  assumes "up api" "case request_of hr of None \<Rightarrow> True | Some req \<Rightarrow> fits io req" "serve files io t t' hr api = (r, msgs, api')"
  shows "up api' \<and> api_gossip api' = api_gossip api"
proof (cases "request_of hr")
  case None
  with serve_no_request [OF None assms(3)] assms(1) show ?thesis by auto
next
  case (Some req)
  have "answered api (dispatch io req api) (r, msgs, api')" using serve_request [OF Some, of api io files t t'] assms(3) by simp
  then obtain mc api0 where out: "RecoveryMiddleware api (dispatch io req api) = (r, msgs, api0)" "api' = api0\<lparr>api_metrics := mc\<rparr>"
    by (rule answered_out)
  have "up api0 \<and> api_gossip api0 = api_gossip api"
  proof (cases "dispatch io req api")
    case (Inl p)
    with out(1) assms(1) show ?thesis by (auto simp: RecoveryMiddleware_def)
  next
    case (Inr x)
    then have d: "dispatch io req api = Inr (r, msgs, api0)" using out(1) by (simp add: RecoveryMiddleware_def)
    have "logging (api_store api)" "fits io req" "api_inv api"
      using assms(1,2) Some by (simp_all add: up_def)
    with dispatch_logging [OF _ _ d] dispatch_inv [OF _ d] show ?thesis by (simp add: up_def)
  qed
  then show ?thesis by (simp add: out(2))
qed

lemma life_step_up:
  assumes "up api" "event_fits e" "life_step e (api, d) = (api', d')"
  shows "up api' \<and> api_gossip api' = api_gossip api"
proof (cases e)
  case (Handled files io t t' hr)
  obtain r msgs api0 where "serve files io t t' hr api = (r, msgs, api0)" by (rule prod_cases3)
  with serve_up [OF assms(1) _ this] assms(2,3) Handled show ?thesis by simp
next
  case (ReapRound now order)
  have "store_inv (reap now order (api_store api))" using assms(1) reap_inv by (auto simp: up_def logging_def)
  with assms(1,3) ReapRound logging_reap [of "api_store api"] show ?thesis by (auto simp: up_def api_inv_def)
next
  case (CompactRound fails now order)
  obtain x s d0 where snap: "CreateSnapshot fails now order (api_store api) d = (x, s, d0)" by (rule prod_cases3)
  have log: "logging (api_store api)" using assms(1) by (simp add: up_def)
  then have "logging s" using CreateSnapshot_outcome [OF snap] by (auto simp: logging_def entries_ok_def)
  with assms(1,3) CompactRound snap show ?thesis by (auto simp: up_def api_inv_def logging_def)
qed (use assms in \<open>auto simp: up_def api_inv_def\<close>)

lemma life_up:
  "up api \<Longrightarrow> list_all event_fits es \<Longrightarrow> fold life_step es (api, d) = (api', d') \<Longrightarrow> up api' \<and> api_gossip api' = api_gossip api"
proof (induction es arbitrary: api d)
  case (Cons e es)
  obtain api1 d1 where step: "life_step e (api, d) = (api1, d1)" by fastforce
  then have "up api1" "api_gossip api1 = api_gossip api" using life_step_up [OF Cons.prems(1) _ step] Cons.prems(2) by simp_all
  moreover have "fold life_step es (api1, d1) = (api', d')" using Cons.prems(3) step by simp
  ultimately show ?case using Cons.IH [of api1 d1] Cons.prems(2) by simp
qed simp

text \<open>The files of a data directory that is new, or that a clean shutdown left.\<close>

definition clean_files :: "bytes option \<Rightarrow> bytes option \<Rightarrow> shard \<Rightarrow> bool" where
  "clean_files snap log m \<longleftrightarrow> log \<in> {None, Some []} \<and>
     (\<exists>recs. snap = snap_image recs \<and> pred_option (list_all rec_ok) recs \<and> m = snap_contents recs)"

lemma load_loop_running: "reaperStopped (fst (snd (load_loop fault bs pos st))) = reaperStopped (fst st)"
proof (induction fault bs pos st rule: load_loop.induct)
  case (1 fault bs pos st)
  have "reaperStopped (fst (load_record r st)) = reaperStopped (fst st)" for r
    by (cases st) (auto simp: load_record_def set_shard_def Let_def split: option.split)
  with 1 show ?case by (subst load_loop.simps) (auto split: rec_read.split)
qed

lemma LoadSnapshot_running: "reaperStopped (snd (LoadSnapshot open_ok fault content s)) = reaperStopped s"
  using load_loop_running [of fault _ 6 "(s, 0)"]
  by (auto simp: LoadSnapshot_def Let_def split: option.split read_result.split prod.split) (metis fst_conv snd_conv)+

lemma loaded_ok: "list_all rec_ok recs \<Longrightarrow> \<forall>k e. m k = Some e \<longrightarrow> rec_ok (set_rec k e) \<Longrightarrow>
  fold load_effect recs m k = Some e \<Longrightarrow> rec_ok (set_rec k e)"
proof (induction recs arbitrary: m)
  case (Cons r recs)
  have "rec_ok (set_rec (rec_key r) (entry_of r))"
    using Cons.prems(1) by (simp add: set_rec_def entry_of_def rec_ok_def)
  then have "\<forall>k e. load_effect r m k = Some e \<longrightarrow> rec_ok (set_rec k e)"
    using Cons.prems(2) by (auto simp: load_effect_def split: option.splits if_splits)
  with Cons show ?case by simp
qed simp

lemma boot_clean:
  assumes "calm t d env" "clean_files snap log m"
  shows "\<exists>s. boot env dir snap log = Inr s \<and> logging s \<and> contents s = m"
proof -
  obtain recs where recs: "snap = snap_image recs" "pred_option (list_all rec_ok) recs" "m = snap_contents recs" "log \<in> {None, Some []}"
    using assms(2) by (auto simp: clean_files_def)
  obtain b s where load: "LoadSnapshot True None snap (NewStore None) = (Inr b, s)" "store_inv s" "contents s = m"
    using LoadSnapshot_image [OF recs(2)] recs(1,3) by blast
  have "reaperStopped s = reaperStopped (NewStore None)" using LoadSnapshot_running [of True None snap "NewStore None"] load(1) by simp
  then have run: "\<not> reaperStopped s" by (simp add: NewStore_def)
  have "entries_ok s" using recs(2,3) load(3) loaded_ok [of "the recs" Map.empty]
    by (cases recs) (auto simp: entries_ok_def snap_contents_def)
  moreover have "replay_loop None [] f 0 s' = (None, s')" for f and s' :: "nat \<times> Store"
    using wal_log.loop_short [of "[]" "[]" f s'] by simp
  ultimately show ?thesis using assms(1) load run recs(4)
    by (auto simp: boot_def calm_def NewWAL_def Replay_rio_ok SetWAL_def logging_def entries_ok_def)
qed

text \<open>The last snapshot, if nothing fails.\<close>

lemma last_snapshot:
  assumes "up api" "visits order (api_store api)"
  shows "\<exists>w'. CreateSnapshot (\<lambda>_. False) now order (api_store api) dsk = (None, api_store api\<lparr>wal := Some w'\<rparr>,
      dsk\<lparr>snap_file := snap_image (Some (snapshot_recs now order (api_store api))), snap_tmp := None\<rparr>) \<and>
    wal_open w' \<and> wal_file w' = [] \<and>
    clean_files (snap_image (Some (snapshot_recs now order (api_store api)))) (Some []) (live now (contents (api_store api)))"
proof -
  let ?s = "api_store api"
  let ?recs = "snapshot_recs now order ?s"
  have log: "store_inv ?s" "entries_ok ?s" using assms(1) by (simp_all add: up_def logging_def)
  obtain w where w: "wal ?s = Some w" "wal_open w" using assms(1) by (auto simp: up_def logging_def)
  have written: "write_records (\<lambda>_. False) 0 (snapshot_records now order ?s) snapshot_header =
      Some (snapshot_header @ concat (map encode ?recs))"
    using write_records_all [of "\<lambda>_. False"] snapshot_records_encode [OF log(1)] by simp
  have "clean_files (snap_image (Some ?recs)) (Some []) (live now (contents ?s))"
    using snapshot_recs_ok [OF log(1) assms(2) log(2), of now] snapshot_recs_load [OF log(1) assms(2), of now]
    unfolding clean_files_def by (intro conjI exI [of _ "Some ?recs"]) (simp_all add: snap_contents_def)
  with w show ?thesis unfolding CreateSnapshot_def written by (auto simp: snap_image_def)
qed

lemma shutdown_clean:
  assumes "up api" "\<not> gm_stopped (api_gossip api)" "list_all event_fits draining" "list_all event_fits late"
    and "fold life_step draining (api\<lparr>api_gossip := (api_gossip api)\<lparr>gm_stopped := True\<rparr>\<rparr>, dsk) = (api1, dsk1)"
    and "visits order (api_store api1)"
  shows "\<exists>api' dsk'. shutdown draining late (\<lambda>_. False) now order api dsk = Inr (api', dsk') \<and>
    (late = [] \<longrightarrow> clean_files (snap_file dsk') (map_option wal_file (wal (api_store api'))) (live now (contents (api_store api1))))"
proof -
  have up1: "up api1" using life_up [OF _ assms(3,5)] assms(1) by simp
  let ?d = "dsk1\<lparr>snap_file := snap_image (Some (snapshot_recs now order (api_store api1))), snap_tmp := None\<rparr>"
  obtain w' where w': "CreateSnapshot (\<lambda>_. False) now order (api_store api1) dsk1 = (None, api_store api1\<lparr>wal := Some w'\<rparr>, ?d)"
    "wal_open w'" "wal_file w' = []" "clean_files (snap_file ?d) (Some []) (live now (contents (api_store api1)))"
    using last_snapshot [OF up1 assms(6), of now dsk1] by auto
  let ?s = "api_store api1\<lparr>wal := Some w'\<rparr>"
  have up2: "up (api1\<lparr>api_store := ?s\<rparr>)" using up1 w'(2) by (auto simp: up_def api_inv_def logging_def entries_ok_def)
  obtain api2 dsk2 where late: "fold life_step late (api1\<lparr>api_store := ?s\<rparr>, ?d) = (api2, dsk2)" by fastforce
  have "logging (api_store api2)" using life_up [OF up2 assms(4) late] by (simp add: up_def)
  then obtain x s' where close: "Close (api_store api2) = Inr (x, s')" by (auto simp: Close_def Let_def case_prod_beta logging_def)
  have "shutdown draining late (\<lambda>_. False) now order api dsk = Inr (api2\<lparr>api_store := s'\<rparr>, dsk2)"
    using assms(2,5) w'(1) late close by (simp add: shutdown_def gm_Stop_def)
  moreover have "clean_files (snap_file dsk2) (map_option wal_file (wal s')) (live now (contents (api_store api1)))" if "late = []"
    using late close Close_frame [OF close] w'(3,4) that by auto
  ultimately show ?thesis by auto
qed

lemma started_up:
  assumes "calm t d benv" "clean_files snap log m" "server_start env fl hostname mkdir_ok benv now snap log = Inr api"
  shows "up api \<and> contents (api_store api) = m \<and> \<not> gm_stopped (api_gossip api)"
proof -
  obtain cfg where "Load env fl hostname mkdir_ok = Some cfg" using assms(3) by (auto simp: server_start_def split: option.splits)
  moreover obtain s where s: "boot benv (cfg_DataDir cfg) snap log = Inr s" "logging s" "contents s = m"
    using boot_clean [OF assms(1,2)] by blast
  ultimately have "api_store api = s" "api_pm api = NewPeerManager" "\<not> gm_stopped (api_gossip api)"
    using assms(3) by (auto simp: server_start_def Let_def NewAPI_def StartReaper_def NewGossipManager_def split: if_splits)
  with s show ?thesis by (auto simp: up_def api_inv_def logging_def keyed_def NewPeerManager_def)
qed

lemma visits_exists:
  assumes "store_inv s"
  shows "\<exists>order. visits order s"
proof -
  have "finite (dom (shards s ! i))" if "i < ShardCount" for i
  proof (rule finite_subset)
    have "\<forall>k \<in> dom (shards s ! i). shard_index k = i" using assms that by (simp add: store_inv_def)
    then show "dom (shards s ! i) \<subseteq> dom (contents s)" by (force simp: contents_def getShard_def)
    show "finite (dom (contents s))" using assms by (simp add: store_inv_def)
  qed
  then show ?thesis by (intro exI [of _ "\<lambda>i. sorted_list_of_set (dom (shards s ! i))"]) (simp add: visits_def)
qed

section \<open>Property\<close>

text \<open>
  C5. A whole server life. A server started on the files of a new data directory, or on those a
  clean shutdown left, begins with exactly the entries those files hold. It then handles requests
  of any kind (as long as values fit into a record and expiry times into 64-bit nanoseconds),
  with log writes that may fail, while the reaper, the compactor (which may fail anywhere) and
  gossip do their work. When the signal comes it shuts down without a panic, whatever requests
  are still in flight then, even if some outlive the five seconds they are given. If none does,
  and the last snapshot succeeds, it leaves a directory of the same kind, which holds the entries
  that were live when the snapshot was taken, those of the requests in flight included; so the
  next life begins with those.
\<close>

theorem server_life:
  assumes "clean_files (snap_file dsk) log m" "calm t d benv"
    and "server_start env fl hostname mkdir_ok benv now (snap_file dsk) log = Inr api"
    and "list_all event_fits (es @ draining @ late)" "fold life_step es (api, dsk) = (api1, dsk1)"
    and "fold life_step draining (api1\<lparr>api_gossip := (api_gossip api1)\<lparr>gm_stopped := True\<rparr>\<rparr>, dsk1) = (api', dsk')"
    and "visits order (api_store api')"
  shows "contents (api_store api) = m \<and>
    (\<exists>api'' dsk''. server_main env fl hostname mkdir_ok benv now log dsk True es draining late (\<lambda>_. False) stop order = Stopped api'' dsk'' \<and>
       (late = [] \<longrightarrow>
        clean_files (snap_file dsk'') (map_option wal_file (wal (api_store api''))) (live stop (contents (api_store api')))))"
proof -
  have start: "up api" "contents (api_store api) = m" "\<not> gm_stopped (api_gossip api)" using started_up [OF assms(2,1,3)] by simp_all
  then have up: "up api1" "\<not> gm_stopped (api_gossip api1)" using life_up [OF start(1) _ assms(5)] assms(4) by simp_all
  obtain api'' dsk'' where sd: "shutdown draining late (\<lambda>_. False) stop order api1 dsk1 = Inr (api'', dsk'')"
    "late = [] \<longrightarrow> clean_files (snap_file dsk'') (map_option wal_file (wal (api_store api''))) (live stop (contents (api_store api')))"
    using shutdown_clean [OF up _ _ assms(6,7), of late stop] assms(4) by auto
  with assms(3,5) start(2) show ?thesis by (simp add: server_main_def)
qed

theorem server_life_witness:
  "\<exists>api api' d order. server_start Map.empty no_flags (Some ''h'') (\<lambda>_. True) demo_env 100 None None = Inr api \<and>
     server_main Map.empty no_flags (Some ''h'') (\<lambda>_. True) demo_env 100 None no_files True
       [Handled no_static demo_io 5 9 (put_request ''x'')] [Handled no_static demo_io 5 9 (put_request ''y'')] [] (\<lambda>_. False) 80 order =
         Stopped api' d"
proof -
  have clean: "clean_files (snap_file no_files) None Map.empty"
    by (auto simp: clean_files_def no_files_def snap_image_def snap_contents_def intro!: exI [of _ None])
  obtain cfg where cfg: "Load Map.empty no_flags (Some ''h'') (\<lambda>_. True) = Some cfg" "cfg_ReapInterval cfg = 5000000000"
    "cfg_GossipInterval cfg = 1000000000"
    by (simp add: Load_def getEnvInt_def getEnv_def StringVar_def IntVar_def no_flags_def time_Second_def wrap64_def Let_def)
  obtain s where s: "boot demo_env (cfg_DataDir cfg) (snap_file no_files) None = Inr s"
    using boot_clean [OF demo_env clean] by blast
  then obtain api where start: "server_start Map.empty no_flags (Some ''h'') (\<lambda>_. True) demo_env 100 (snap_file no_files) None = Inr api"
    using cfg by (simp add: server_start_def StartReaper_def Let_def NewGossipManager_def)
  let ?es = "[Handled no_static demo_io 5 9 (put_request ''x'')]" and ?ds = "[Handled no_static demo_io 5 9 (put_request ''y'')]"
  have y: "addressable ''y''" by (simp add: addressable_def proper_def)
  have fits: "list_all event_fits (?es @ ?ds @ [])"
    by (simp add: put_routed [OF y] put_routed fits_value_def expiry_of_def exp_ok_def IsZero_def)
  obtain api1 d1 where step: "fold life_step ?es (api, no_files) = (api1, d1)" by (cases "fold life_step ?es (api, no_files)")
  let ?api1 = "api1\<lparr>api_gossip := (api_gossip api1)\<lparr>gm_stopped := True\<rparr>\<rparr>"
  obtain api2 d2 where drain: "fold life_step ?ds (?api1, d1) = (api2, d2)" by (cases "fold life_step ?ds (?api1, d1)")
  have "up api" using started_up [OF demo_env clean start] by simp
  then have "up api1" using life_up [OF _ _ step] fits by simp
  then have "up api2" using life_up [OF _ _ drain] fits by simp
  then have "api_inv api2" by (simp add: up_def)
  then obtain order where "visits order (api_store api2)" using visits_exists by (auto simp: api_inv_def)
  from server_life [OF clean demo_env start fits step drain this, of 80] start show ?thesis by (auto simp: no_files_def)
qed

end
