(* ===== verification/Spec2Isabelle.thy ===== *)
theory Spec2Isabelle
  imports KV_Concurrent KV_Client KV_Convergence KV_Gossip_Loop KV_Life
begin

text \<open>
  Verification of a replicated in-memory key-value store written in Go: a sharded map with
  per-key expiry, a write-ahead log and snapshots on disk, replication of writes to the other
  nodes of a cluster, gossip membership, an HTTP API with metrics and a static dashboard, and a
  client library.

  \<^bold>\<open>The program and its model.\<close> A request enters through the API, changes the store, which first
  appends to the log, and is handed to the replicator, which sends it to the peers the gossip
  layer considers not dead; a background reaper removes expired keys and a compactor replaces
  the log by snapshots; start-up loads the snapshot and replays the log. One theory per part:

  \<^item> \<open>KV_Prelude\<close>: Go's bytes, strings, fixed-width integers and instants, big-endian codecs.
  \<^item> \<open>KV_Hash\<close>: FNV-1a and CRC-32; locale \<open>byte_checksum\<close>, interpreted on CRC-32: changing one
    byte changes the checksum.
  \<^item> \<open>KV_Sort\<close> (\<open>store.go\<close>: \<open>sortStrings\<close>, \<open>quickSort\<close>, \<open>partition\<close>): the in-place quicksort is
    total and sorts; locale \<open>key_sorter\<close> is what \<open>Scan\<close> uses of it.
  \<^item> \<open>KV_Wal\<close> (\<open>wal.go\<close>): the record format, \<open>Append\<close> with torn writes, \<open>Replay\<close>; locale
    \<open>record_log\<close>, shared by log and snapshot reader: what is appended is read back, a torn
    header ends the log, a torn payload or a changed byte is reported.
  \<^item> \<open>KV_Store\<close> (\<open>store.go\<close>, \<open>entry.go\<close>): the record \<open>Store\<close> and every operation. \<open>contents\<close>
    abstracts the 32 shards to one map, \<open>store_inv\<close> says each key is in its shard and the key
    counter is exact; \<open>Set\<close> and \<open>Delete\<close> refine the last-writer-wins map (\<open>lww_put\<close>,
    \<open>lww_remove\<close>).
  \<^item> \<open>KV_Scan\<close>: the page \<open>Scan\<close> returns, and that following the cursor enumerates all keys;
    \<open>follow_cursor\<close> takes fuel, and one call more than there are keys is enough.
  \<^item> \<open>KV_Lww\<close>: locale \<open>lww_replica\<close>, convergence of replicated writes in any order and number.
  \<^item> \<open>KV_Snapshot\<close> (\<open>snapshot.go\<close>): writing with every system call that can fail, loading.
  \<^item> \<open>KV_Recovery\<close>, \<open>KV_Durability\<close> (\<open>main.go\<close>): start-up as the function \<open>boot\<close>; the relation
    \<open>runs\<close> over sequences of operations, and that \<open>boot\<close> rebuilds the contents.
  \<^item> \<open>KV_Concurrent\<close>: the lock-protected sections as a step relation. Every interleaving keeps the
    store well formed, concurrent sets survive a restart from the log, and versions are drawn in
    increasing order; a call nobody interrupts has the effect of the function that models it.
  \<^item> \<open>KV_Peer\<close>, \<open>KV_Gossip\<close> (\<open>peer.go\<close>, \<open>gossip.go\<close>): the membership table, merging, suspicion,
    pings, as functions; locale \<open>membership\<close> is what the gossip code uses of the table.
  \<^item> \<open>KV_Gossip_Loop\<close> (\<open>gossip.go\<close>): the two loops (\<open>gossipLoop\<close>, \<open>suspicionCheckLoop\<close>), the bootstrap
    and the pings in flight as one step relation (\<open>gossip_step\<close>), a step being one hold of the
    table's lock. Without interference the goroutines are the functions of \<open>KV_Gossip\<close>; every
    interleaving keeps the table well formed; a silent suspect is declared dead; after \<open>Stop\<close>
    everything comes to an end.
  \<^item> \<open>KV_Replication\<close> (\<open>replication.go\<close>): fan-out of writes and lag accounting.
  \<^item> \<open>KV_Metrics\<close> (\<open>metrics.go\<close>), \<open>KV_Config\<close> (\<open>config.go\<close>): counters and histogram; settings.
  \<^item> \<open>KV_Url\<close>, \<open>KV_Json\<close>: what the code uses of \<open>net/url\<close>, \<open>path\<close> and \<open>encoding/json\<close>: escaping,
    queries, request targets in path and absolute form, path cleaning and joining, and the effect
    of JSON on strings that are not UTF-8; locale \<open>delimited_code\<close>, interpreted on path and query
    escaping.
  \<^item> \<open>KV_Api\<close> (\<open>handlers.go\<close>, \<open>middleware.go\<close>): every handler on decoded requests, the dispatch and the
    middlewares.
  \<^item> \<open>KV_Router\<close> (\<open>router.go\<close>): the route table, the multiplexer's matching and redirects, the
    static files below the directory \<open>getDashboardDir\<close> finds, and \<open>serve\<close>, the handler of the server
    from request target to response; pings and the bootstrap over HTTP.
  \<^item> \<open>KV_Client\<close> (\<open>client.go\<close>): the calls of the client library against \<open>serve\<close>.
  \<^item> \<open>KV_Cluster\<close>: several nodes and the replication requests between them as a step relation
    (\<open>net_step\<close>), with loss, reordering, reaping and gossip; every node stays well formed, and
    every value read was offered by a client.
  \<^item> \<open>KV_Convergence\<close>: eventual consistency of a cluster, by an invariant that splits the writes
    into those a node has merged and those still on their way to it.
  \<^item> \<open>KV_Server\<close>, \<open>KV_Life\<close> (\<open>main.go\<close>): start-up from the configuration and compactor; shutdown, with
    the requests that are drained and those that outlive the timeout, and the whole life of the
    process (\<open>server_main\<close>) from the files it finds to the files it leaves.

  \<^bold>\<open>Conventions.\<close> Stateful code passes its state explicitly; an error return is \<open>Inl\<close> or \<open>Some\<close>
  of \<open>go_error\<close>, a panic a value of \<open>go_panic\<close> (or \<open>None\<close> in the sorting code). What the
  environment decides is an argument: clock readings, the order in which \<open>range\<close> visits a map
  (\<open>visits\<close>, \<open>ranges\<close> say it visits each key once), results of system calls and HTTP exchanges,
  decoded request bodies. Versions, hashes, checksums and counters are machine words; \<open>int64\<close>
  values are integers with \<open>wrap64\<close> where they can overflow. Goroutines are consumers of event
  lists or threads of a step relation, and messages sent are returned as values.

  \<^bold>\<open>What holds and what does not.\<close> Besides the correctness results, the development proves where
  the code departs from what it says: an acknowledged write can be lost to a concurrent snapshot
  (\<open>acknowledged_write_lost\<close>), a restart can bring back an overwritten value
  (\<open>restart_resurrects_overwritten\<close>), deletes do not converge (\<open>delete_not_convergent\<close>), a
  dropped local write diverges the nodes (\<open>dropped_put_diverges\<close>), dead peers come back
  (\<open>dead_peer_revives\<close>) and live ones are declared dead
  (\<open>stale_suspicion_kills_live_peer\<close>), some keys cannot be reached through the client
  (\<open>unaddressable_key_fails\<close>) or are replicated under another name (\<open>invalid_key_misplaced\<close>), the
  status reports a fixed log size (\<open>client_status_reports\<close>), and an interval of zero stops the
  server (\<open>nonpositive_reap_interval_crashes\<close>). Convergence of a cluster is proved under the
  conditions these defects call for: PUTs without time to live, no deletes, no two values of a
  key under one version, no failed replication request, no change of membership. Durability under
  interleaving is proved without snapshots and deletes, since a concurrent snapshot loses writes.

  \<^bold>\<open>Not modelled.\<close> Log output, the text layout of the metrics and of JSON (bodies arrive decoded,
  with the effect of JSON on strings applied), range requests and caching headers of the file
  server, parsing of the command line, the dashboard's own files, deployment files and tests.
  \<open>wal.go\<close> uses the result of a procedure without result as a value in line 132; the model has
  the meaning of the line after it.

  \<^bold>\<open>Plan.\<close> Next: concurrent durability with deletes and expiry; appends after a torn header;
  convergence with retried or repeated messages; the Prometheus text format.
\<close>

end
